(* ===== verification/Go_Prelude.thy ===== *)
theory Go_Prelude
  imports Main "HOL-Library.Word"
begin

text \<open>
  Shared vocabulary of the development: Go's integer and byte types, error values and
  \<^verbatim>\<open>errors.Is\<close>, the observation of a \<^verbatim>\<open>context.Context\<close>, saturating time arithmetic,
  and the generic facts on lists and words that the component theories use.
\<close>

section \<open>Lemma collections\<close>

named_theorems model_defs \<open>definitions of the model that case analyses unfold\<close>

named_theorems step_inv \<open>preservation of a component's invariant by one operation\<close>


section \<open>Types of the model\<close>

type_synonym byte = "8 word"

type_synonym uint64 = "64 word"

text \<open>Callbacks, contexts and clocks act on a world \<open>'w\<close> that the caller owns.\<close>

type_synonym ('w, 'a) act = "'w \<Rightarrow> 'a \<times> 'w"


section \<open>Error values\<close>

text \<open>
  A Go error is a package-level sentinel, a plain message (\<^verbatim>\<open>fmt.Errorf\<close> without
  \<^verbatim>\<open>%w\<close>), a message that wraps errors (\<^verbatim>\<open>fmt.Errorf\<close> with \<^verbatim>\<open>%w\<close>,
  \<^verbatim>\<open>errors.Join\<close>), or a struct of the package with an optional cause that \<^verbatim>\<open>Unwrap\<close>
  returns. The type variable carries the fields of the package's structs. A nil error is
  \<open>None\<close>.
\<close>

datatype 'x go_error =
    Sentinel string
  | Message string
  | Wrapped string "'x go_error list"
  | Typed 'x "'x go_error option"

text \<open>
  \<^verbatim>\<open>errors.Is\<close> walks the tree of wrapped errors; a struct may accept a sentinel by its own
  \<^verbatim>\<open>Is\<close> method, which is the parameter \<open>k\<close>.
\<close>

fun errors_is :: "('x \<Rightarrow> string \<Rightarrow> bool) \<Rightarrow> 'x go_error \<Rightarrow> string \<Rightarrow> bool" where
  "errors_is k (Sentinel s) t = (s = t)"
| "errors_is k (Message m) t = False"
| "errors_is k (Wrapped m es) t = (\<exists>e \<in> set es. errors_is k e t)"
| "errors_is k (Typed x c) t =
     (k x t \<or> (case c of None \<Rightarrow> False | Some e \<Rightarrow> errors_is k e t))"

definition ctxCanceled :: string where
  "ctxCanceled = ''context.Canceled''"

definition ctxDeadlineExceeded :: string where
  "ctxDeadlineExceeded = ''context.DeadlineExceeded''"

lemma ctx_sentinels_differ [simp]: "ctxCanceled \<noteq> ctxDeadlineExceeded"
  by (simp add: ctxCanceled_def ctxDeadlineExceeded_def)

definition isContextError :: "('x \<Rightarrow> string \<Rightarrow> bool) \<Rightarrow> 'x go_error \<Rightarrow> bool" where
  "isContextError k e \<longleftrightarrow> errors_is k e ctxCanceled \<or> errors_is k e ctxDeadlineExceeded"


text \<open>The error of a context is nil, \<^verbatim>\<open>Canceled\<close> or \<^verbatim>\<open>DeadlineExceeded\<close>.\<close>

definition wf_ctx :: "('w, 'x go_error option) act \<Rightarrow> bool" where
  "wf_ctx ctxErr \<longleftrightarrow>
     (\<forall>w e. fst (ctxErr w) = Some e \<longrightarrow> e = Sentinel ctxCanceled \<or> e = Sentinel ctxDeadlineExceeded)"

lemma wf_ctxD:
  "wf_ctx ctxErr \<Longrightarrow> ctxErr w = (Some e, w') \<Longrightarrow> e = Sentinel ctxCanceled \<or> e = Sentinel ctxDeadlineExceeded"
  unfolding wf_ctx_def by (metis fst_conv)


section \<open>Time\<close>

text \<open>
  An instant is a number of nanoseconds since the zero time of Go; a duration is a 64-bit
  signed number of nanoseconds, and \<^verbatim>\<open>Time.Sub\<close> saturates at its ends.
\<close>

definition maxInt64 :: int where
  "maxInt64 = 2 ^ 63 - 1"

definition minInt64 :: int where
  "minInt64 = - (2 ^ 63)"

text \<open>The sum, difference or product of two 64-bit integers wraps around.\<close>

definition wrap64 :: "int \<Rightarrow> int" where
  "wrap64 x = (x + 2 ^ 63) mod 2 ^ 64 - 2 ^ 63"

lemma wrap64_id: "minInt64 \<le> x \<Longrightarrow> x \<le> maxInt64 \<Longrightarrow> wrap64 x = x"
  by (simp add: wrap64_def minInt64_def maxInt64_def)

lemma wrap64_range: "minInt64 \<le> wrap64 x \<and> wrap64 x \<le> maxInt64"
  using pos_mod_bound[of "2 ^ 64" "x + 2 ^ 63"] pos_mod_sign[of "2 ^ 64" "x + 2 ^ 63"]
  unfolding wrap64_def minInt64_def maxInt64_def by simp

lemma wrap64_diff [simp]: "wrap64 (wrap64 a - b) = wrap64 (a - b)"
proof -
  have "((a + 2 ^ 63) mod 2 ^ 64 - b) mod 2 ^ 64 = (a + 2 ^ 63 - b) mod (2 ^ 64 :: int)"
    by (rule mod_diff_left_eq)
  moreover have "a + 2 ^ 63 - b = a - b + 2 ^ (63 :: nat)" by linarith
  moreover have "(a + 2 ^ 63) mod 2 ^ 64 - 2 ^ 63 - b + 2 ^ 63 = (a + 2 ^ 63) mod 2 ^ 64 - (b :: int)"
    by linarith
  ultimately show ?thesis unfolding wrap64_def by presburger
qed

definition timeSub :: "int \<Rightarrow> int \<Rightarrow> int" where
  "timeSub t u = max minInt64 (min maxInt64 (t - u))"

lemma timeSub_ge_iff: "d \<le> maxInt64 \<Longrightarrow> minInt64 < d \<Longrightarrow> d \<le> timeSub t u \<longleftrightarrow> d \<le> t - u"
  by (auto simp: timeSub_def maxInt64_def minInt64_def)

lemma timeSub_self [simp]: "timeSub t t = 0"
  by (simp add: timeSub_def maxInt64_def minInt64_def)


section \<open>Lists\<close>

text \<open>The last \<open>n\<close> elements of a list: what a bounded buffer keeps.\<close>

definition lastn :: "nat \<Rightarrow> 'a list \<Rightarrow> 'a list" where
  "lastn n xs = drop (length xs - n) xs"

lemma length_lastn [simp]: "length (lastn n xs) = min n (length xs)"
  by (simp add: lastn_def)

lemma lastn_id: "length xs \<le> n \<Longrightarrow> lastn n xs = xs"
  by (simp add: lastn_def)

lemma lastn_Nil [simp]: "lastn n [] = []"
  by (simp add: lastn_def)

lemma lastn_append_lastn: "lastn n (lastn n xs @ ys) = lastn n (xs @ ys)"
proof (cases "length xs \<le> n")
  case True
  then show ?thesis by (simp add: lastn_id)
next
  case False
  then show ?thesis by (simp add: lastn_def) (simp add: algebra_simps)
qed

lemma lastn_snoc_full: "length xs = n \<Longrightarrow> 0 < n \<Longrightarrow> lastn n (xs @ [x]) = tl xs @ [x]"
  by (cases xs) (simp_all add: lastn_def)

lemma set_lastn: "set (lastn n xs) \<subseteq> set xs"
  by (simp add: lastn_def set_drop_subset)

lemma takeWhile_replicate_append:
  "ys = [] \<or> hd ys \<noteq> x \<Longrightarrow> takeWhile (\<lambda>y. y = x) (replicate n x @ ys) = replicate n x"
  by (induction n) (cases ys; auto)+


text \<open>The pieces of length \<open>n\<close> of a list, the last one possibly shorter.\<close>

function pieces :: "nat \<Rightarrow> 'a list \<Rightarrow> 'a list list" where
  "pieces n xs = (if xs = [] \<or> n = 0 then [] else take n xs # pieces n (drop n xs))"
  by pat_completeness auto
termination
  by (relation "measure (\<lambda>(n, xs). length xs)") auto

declare pieces.simps [simp del]

lemma pieces_Nil [simp]: "pieces n [] = []"
  by (simp add: pieces.simps)

lemma pieces_step: "0 < n \<Longrightarrow> xs \<noteq> [] \<Longrightarrow> pieces n xs = take n xs # pieces n (drop n xs)"
  by (subst pieces.simps) simp

lemma pieces_eq_Nil: "0 < n \<Longrightarrow> pieces n xs = [] \<longleftrightarrow> xs = []"
  by (subst pieces.simps) simp

lemma concat_pieces: "0 < n \<Longrightarrow> concat (pieces n xs) = xs"
proof (induction n xs rule: pieces.induct)
  case (1 n xs)
  then show ?case by (cases "xs = []") (simp_all add: pieces_step[of n xs])
qed

lemma pieces_bounds: "0 < n \<Longrightarrow> c \<in> set (pieces n xs) \<Longrightarrow> c \<noteq> [] \<and> length c \<le> n"
proof (induction n xs rule: pieces.induct)
  case (1 n xs)
  then show ?case by (cases "xs = []") (auto simp: pieces_step[of n xs])
qed

lemma pieces_full: "0 < n \<Longrightarrow> c \<in> set (butlast (pieces n xs)) \<Longrightarrow> length c = n"
proof (induction n xs rule: pieces.induct)
  case (1 n xs)
  then show ?case by (cases "xs = []") (auto simp: pieces_step[of n xs] pieces_eq_Nil split: if_splits)
qed

section \<open>Words\<close>

lemma unat_byte_less [simp]: "unat (x :: byte) < 256"
  using unsigned_less[of x, where 'a = nat] by simp

lemma unat_byte_of_nat: "n < 256 \<Longrightarrow> unat (of_nat n :: byte) = n"
  by (simp add: unat_of_nat)


section \<open>Strings\<close>

text \<open>
  A Go string is a list of bytes. A literal is written as its characters.
\<close>

definition bytesOf :: "string \<Rightarrow> byte list" where
  "bytesOf s = map of_char s"

text \<open>
  \<^verbatim>\<open>utf8.Valid\<close>: well-formed sequences of one to four bytes, without surrogates, overlong
  forms and code points above U+10FFFF.
\<close>

definition inRange :: "nat \<Rightarrow> nat \<Rightarrow> byte \<Rightarrow> bool" where
  "inRange lo hi b \<longleftrightarrow> lo \<le> unat b \<and> unat b \<le> hi"

fun utf8Valid :: "byte list \<Rightarrow> bool" where
  "utf8Valid [] = True"
| "utf8Valid (b # bs) =
     (if unat b < 0x80 then utf8Valid bs
      else if inRange 0xC2 0xDF b then
        (case bs of c # r \<Rightarrow> inRange 0x80 0xBF c \<and> utf8Valid r | _ \<Rightarrow> False)
      else if inRange 0xE0 0xEF b then
        (case bs of
           c # d # r \<Rightarrow>
             inRange (if unat b = 0xE0 then 0xA0 else 0x80) (if unat b = 0xED then 0x9F else 0xBF) c \<and>
             inRange 0x80 0xBF d \<and> utf8Valid r
         | _ \<Rightarrow> False)
      else if inRange 0xF0 0xF4 b then
        (case bs of
           c # d # e # r \<Rightarrow>
             inRange (if unat b = 0xF0 then 0x90 else 0x80) (if unat b = 0xF4 then 0x8F else 0xBF) c \<and>
             inRange 0x80 0xBF d \<and> inRange 0x80 0xBF e \<and> utf8Valid r
         | _ \<Rightarrow> False)
      else False)"

text \<open>
  \<^verbatim>\<open>strings.TrimSpace(s) == ""\<close>: every rune of the text is white space of Unicode.
\<close>

fun blank :: "byte list \<Rightarrow> bool" where
  "blank [] = True"
| "blank (b # bs) =
     (if b = 0x20 \<or> inRange 0x09 0x0D b then blank bs
      else if b = 0xC2 then
        (case bs of c # r \<Rightarrow> (c = 0x85 \<or> c = 0xA0) \<and> blank r | _ \<Rightarrow> False)
      else (case bs of
              c # d # r \<Rightarrow>
                (b = 0xE1 \<and> c = 0x9A \<and> d = 0x80 \<or>
                 b = 0xE2 \<and> c = 0x80 \<and> (inRange 0x80 0x8A d \<or> d = 0xA8 \<or> d = 0xA9 \<or> d = 0xAF) \<or>
                 b = 0xE2 \<and> c = 0x81 \<and> d = 0x9F \<or>
                 b = 0xE3 \<and> c = 0x80 \<and> d = 0x80) \<and> blank r
            | _ \<Rightarrow> False))"

lemma unat_of_char: "unat (of_char c :: byte) = of_char c"
proof -
  have "(of_char c :: nat) < 256" using of_char_mod_256[of c, where 'a = nat] mod_less_divisor[of 256 "of_char c"] by simp
  then have "unat (of_nat (of_char c) :: byte) = of_char c" by (rule unat_byte_of_nat)
  then show ?thesis by (simp only: of_nat_of_char)
qed

lemma distinct_bytesOf: "distinct (bytesOf s) = distinct s"
proof -
  have "inj_on (of_char :: char \<Rightarrow> byte) (set s)"
    by (rule inj_onI, rule of_char_eqI[where 'a = nat]) (metis unat_of_char)
  then show ?thesis by (simp add: bytesOf_def distinct_map)
qed


section \<open>Invariants of step systems\<close>

text \<open>
  The states a step relation reaches from its initial states. Components with an
  environment that chooses the next operation state their invariants over it.
\<close>

inductive reach :: "('s \<Rightarrow> bool) \<Rightarrow> ('s \<Rightarrow> 's \<Rightarrow> bool) \<Rightarrow> 's \<Rightarrow> bool"
  for init :: "'s \<Rightarrow> bool" and step :: "'s \<Rightarrow> 's \<Rightarrow> bool" where
  reach_init: "init s \<Longrightarrow> reach init step s"
| reach_step: "reach init step s \<Longrightarrow> step s t \<Longrightarrow> reach init step t"

locale inductive_invariant =
  fixes init :: "'s \<Rightarrow> bool"
    and step :: "'s \<Rightarrow> 's \<Rightarrow> bool"
    and inv :: "'s \<Rightarrow> bool"
  assumes inv_init: "init s \<Longrightarrow> inv s"
    and inv_step: "inv s \<Longrightarrow> step s t \<Longrightarrow> inv t"
begin

lemma reach_inv: "reach init step s \<Longrightarrow> inv s"
  by (induction rule: reach.induct) (auto intro: inv_init inv_step)

end

end
