(* ===== verification/Codec.thy ===== *)
theory Codec
  imports Go_Prelude
begin

text \<open>
  Package \<^verbatim>\<open>codec\<close>: the alphabet encoder behind Base58, Base62 and URL62
  (\<^verbatim>\<open>codec/alphabet.go\<close>, \<^verbatim>\<open>codec/base58.go\<close>, \<^verbatim>\<open>codec/base62.go\<close>). A Go string is the list of
  its bytes. A read or write out of range, which panics in Go, is \<open>None\<close>; a decoding error
  is \<open>Inl\<close> of the offending byte and its position.
\<close>

section \<open>Model\<close>

record alphabetEncoding =
  enc_name :: string
  alphabet :: "byte list"
  indexes :: "int list"

fun fillIndexes :: "int list \<Rightarrow> nat \<Rightarrow> byte list \<Rightarrow> string + int list" where
  "fillIndexes ix index [] = Inr ix"
| "fillIndexes ix index (char # chars) =
     (if 128 \<le> unat char then Inl ''codec alphabet must contain ASCII characters only''
      else if 0 \<le> ix ! unat char then Inl ''codec alphabet must not contain duplicate characters''
      else fillIndexes (ix[unat char := int index]) (Suc index) chars)"

definition newAlphabetEncoding :: "string \<Rightarrow> byte list \<Rightarrow> string + alphabetEncoding" where
  "newAlphabetEncoding name alpha =
     (if length alpha < 2 then Inl ''codec alphabet must contain at least two characters''
      else case fillIndexes (replicate 128 (-1)) 0 alpha of
             Inl panic \<Rightarrow> Inl panic
           | Inr ix \<Rightarrow> Inr \<lparr>enc_name = name, alphabet = alpha, indexes = ix\<rparr>)"

text \<open>The loop of \<^verbatim>\<open>divmod\<close> over the digits from \<^verbatim>\<open>firstDigit\<close> on, most significant first.\<close>

fun divmodDigits :: "nat \<Rightarrow> nat \<Rightarrow> nat \<Rightarrow> byte list \<Rightarrow> nat \<times> byte list" where
  "divmodDigits base divisor remainder [] = (remainder, [])"
| "divmodDigits base divisor remainder (digit # digits) =
     (let temp = remainder * base + unat digit;
          (r, qs) = divmodDigits base divisor (temp mod divisor) digits
      in (r, of_nat (temp div divisor) # qs))"

definition divmod :: "byte list \<Rightarrow> nat \<Rightarrow> nat \<Rightarrow> nat \<Rightarrow> nat \<times> byte list" where
  "divmod number firstDigit base divisor =
     (let (r, qs) = divmodDigits base divisor 0 (drop firstDigit number)
      in (r, take firstDigit number @ qs))"

text \<open>\<^verbatim>\<open>for i < len(xs) && xs[i] == c \{ i++ \}\<close>, the leading-zero loops of both directions.\<close>

function skipEq :: "byte \<Rightarrow> byte list \<Rightarrow> nat \<Rightarrow> nat" where
  "skipEq c xs i = (if i < length xs \<and> xs ! i = c then skipEq c xs (Suc i) else i)"
  by pat_completeness auto
termination
  by (relation "measure (\<lambda>(c, xs, i). length xs - i)") auto

text \<open>The main loop of \<^verbatim>\<open>encode\<close>; it stops with a panic when the output buffer is full.\<close>

fun encodeLoop :: "byte list \<Rightarrow> byte list \<Rightarrow> nat \<Rightarrow> byte list \<Rightarrow> nat \<Rightarrow> (byte list \<times> nat) option" where
  "encodeLoop alpha source inputStart encoded outputStart =
     (if inputStart < length source then
        (let (remainder, source') = divmod source inputStart 256 (length alpha) in
         case outputStart of
           0 \<Rightarrow> None
         | Suc out \<Rightarrow>
             encodeLoop alpha source'
               (if source' ! inputStart = 0 then Suc inputStart else inputStart)
               (encoded[out := alpha ! remainder]) out)
      else Some (encoded, outputStart))"

fun putZeros :: "nat \<Rightarrow> byte \<Rightarrow> byte list \<Rightarrow> nat \<Rightarrow> (byte list \<times> nat) option" where
  "putZeros 0 c encoded outputStart = Some (encoded, outputStart)"
| "putZeros (Suc zeros) c encoded 0 = None"
| "putZeros (Suc zeros) c encoded (Suc out) = putZeros zeros c (encoded[out := c]) out"

definition encode :: "alphabetEncoding \<Rightarrow> byte list \<Rightarrow> byte list option" where
  "encode e input =
     (if input = [] then Some []
      else
        let zeros = skipEq 0 input 0;
            buffer = replicate (length input * 138 div 100 + 2) 0
        in case encodeLoop (alphabet e) input zeros buffer (length buffer) of
             None \<Rightarrow> None
           | Some (encoded, outputStart) \<Rightarrow>
               (case putZeros zeros (alphabet e ! 0) encoded
                       (skipEq (alphabet e ! 0) encoded outputStart) of
                  None \<Rightarrow> None
                | Some (encoded', outputStart') \<Rightarrow> Some (drop outputStart' encoded')))"

fun lookupDigits :: "int list \<Rightarrow> nat \<Rightarrow> byte list \<Rightarrow> (byte \<times> nat) + byte list" where
  "lookupDigits ix index [] = Inr []"
| "lookupDigits ix index (char # chars) =
     (if 128 \<le> unat char \<or> ix ! unat char < 0 then Inl (char, index)
      else case lookupDigits ix (Suc index) chars of
             Inl err \<Rightarrow> Inl err
           | Inr source \<Rightarrow> Inr (word_of_int (ix ! unat char) # source))"

fun decodeLoop :: "nat \<Rightarrow> byte list \<Rightarrow> nat \<Rightarrow> byte list \<Rightarrow> nat \<Rightarrow> (byte list \<times> nat) option" where
  "decodeLoop base source inputStart decoded outputStart =
     (if inputStart < length source then
        (let (remainder, source') = divmod source inputStart base 256 in
         case outputStart of
           0 \<Rightarrow> None
         | Suc out \<Rightarrow>
             decodeLoop base source'
               (if source' ! inputStart = 0 then Suc inputStart else inputStart)
               (decoded[out := of_nat remainder]) out)
      else Some (decoded, outputStart))"

definition decode :: "alphabetEncoding \<Rightarrow> byte list \<Rightarrow> ((byte \<times> nat) + byte list) option" where
  "decode e input =
     (if input = [] then Some (Inr [])
      else case lookupDigits (indexes e) 0 input of
             Inl err \<Rightarrow> Some (Inl err)
           | Inr source \<Rightarrow>
               (let zeros = skipEq 0 source 0 in
                case decodeLoop (length (alphabet e)) source zeros
                       (replicate (length input) 0) (length input) of
                  None \<Rightarrow> None
                | Some (decoded, outputStart) \<Rightarrow>
                    Some (Inr (replicate zeros 0 @ drop (skipEq 0 decoded outputStart) decoded))))"

definition base58Alphabet :: "byte list" where
  "base58Alphabet = bytesOf ''123456789ABCDEFGHJKLMNPQRSTUVWXYZabcdefghijkmnopqrstuvwxyz''"

definition base62Alphabet :: "byte list" where
  "base62Alphabet = bytesOf ''0123456789ABCDEFGHIJKLMNOPQRSTUVWXYZabcdefghijklmnopqrstuvwxyz''"

text \<open>The package variables \<^verbatim>\<open>base58\<close> and \<^verbatim>\<open>base62\<close>; their initialisation does not panic.\<close>

definition base58 :: alphabetEncoding where
  "base58 = projr (newAlphabetEncoding ''Base58'' base58Alphabet)"

definition base62 :: alphabetEncoding where
  "base62 = projr (newAlphabetEncoding ''Base62'' base62Alphabet)"

definition EncodeBase58 :: "byte list \<Rightarrow> byte list option" where
  "EncodeBase58 input = encode base58 input"

definition DecodeBase58 :: "byte list \<Rightarrow> ((byte \<times> nat) + byte list) option" where
  "DecodeBase58 input = decode base58 input"

definition EncodeBase62 :: "byte list \<Rightarrow> byte list option" where
  "EncodeBase62 input = encode base62 input"

definition DecodeBase62 :: "byte list \<Rightarrow> ((byte \<times> nat) + byte list) option" where
  "DecodeBase62 input = decode base62 input"

definition EncodeURL62 :: "byte list \<Rightarrow> byte list option" where
  "EncodeURL62 input = EncodeBase62 input"

definition DecodeURL62 :: "byte list \<Rightarrow> ((byte \<times> nat) + byte list) option" where
  "DecodeURL62 input = DecodeBase62 input"

declare encodeLoop.simps [simp del] decodeLoop.simps [simp del] skipEq.simps [simp del]

section \<open>Positional numbers\<close>

text \<open>The number a digit list denotes, and the canonical digits of a number.\<close>

definition val :: "nat \<Rightarrow> byte list \<Rightarrow> nat" where
  "val b xs = foldl (\<lambda>a d. a * b + unat d) 0 xs"

fun digs :: "nat \<Rightarrow> nat \<Rightarrow> nat list" where
  "digs b n = (if n = 0 \<or> b < 2 then [] else digs b (n div b) @ [n mod b])"

declare digs.simps [simp del]

lemma foldl_val: "foldl (\<lambda>a d. a * b + unat d) c xs = c * b ^ length xs + val b xs"
proof (induction xs arbitrary: c)
  case Nil
  then show ?case by (simp add: val_def)
next
  case (Cons x xs)
  have "val b (x # xs) = unat x * b ^ length xs + val b xs"
    using Cons[of "unat x"] by (simp add: val_def)
  with Cons[of "c * b + unat x"] show ?case by (simp add: algebra_simps)
qed

lemma val_Nil [simp]: "val b [] = 0"
  by (simp add: val_def)

lemma val_Cons [simp]: "val b (x # xs) = unat x * b ^ length xs + val b xs"
  using foldl_val[of b "unat x" xs] by (simp add: val_def)

lemma val_append: "val b (xs @ ys) = val b xs * b ^ length ys + val b ys"
  by (induction xs) (simp_all add: algebra_simps power_add)

lemma val_bound: "\<forall>d \<in> set xs. unat d < b \<Longrightarrow> val b xs < b ^ length xs"
proof (induction xs)
  case (Cons x xs)
  then have "unat x + 1 \<le> b" and "val b xs < b ^ length xs" by simp_all
  then have "unat x * b ^ length xs + val b xs < (unat x + 1) * b ^ length xs" by simp
  also have "\<dots> \<le> b * b ^ length xs" using \<open>unat x + 1 \<le> b\<close> by (rule mult_le_mono1)
  finally show ?case by simp
qed simp


lemma val_lead: "xs \<noteq> [] \<Longrightarrow> hd xs \<noteq> 0 \<Longrightarrow> b ^ (length xs - 1) \<le> val b xs"
proof (cases xs)
  case (Cons x ys)
  moreover assume "hd xs \<noteq> 0"
  ultimately have "1 * b ^ length ys \<le> unat x * b ^ length ys"
    by (intro mult_le_mono1) (simp add: Suc_le_eq unat_gt_0)
  then have "b ^ length ys \<le> unat x * b ^ length ys + val b ys" by linarith
  with Cons show ?thesis by simp
qed simp

lemma digs_0 [simp]: "digs b 0 = []"
  by (simp add: digs.simps)

lemma digs_step: "0 < n \<Longrightarrow> 2 \<le> b \<Longrightarrow> digs b n = digs b (n div b) @ [n mod b]"
  by (subst digs.simps) simp

lemma digs_less: "d \<in> set (digs b n) \<Longrightarrow> d < b"
proof (induction b n rule: digs.induct)
  case (1 b n)
  then show ?case by (subst (asm) (2) digs.simps) (auto split: if_splits)
qed

lemma digs_eq_Nil: "2 \<le> b \<Longrightarrow> digs b n = [] \<longleftrightarrow> n = 0"
  by (subst digs.simps) simp

lemma digs_hd: "2 \<le> b \<Longrightarrow> 0 < n \<Longrightarrow> hd (digs b n) \<noteq> 0"
proof (induction b n rule: digs.induct)
  case (1 b n)
  show ?case
  proof (cases "n div b = 0")
    case True
    with 1(2,3) have "n < b" by (simp add: div_eq_0_iff)
    with 1(2,3) show ?thesis by (simp add: digs_step[of n b])
  next
    case False
    with 1 have "hd (digs b (n div b)) \<noteq> 0" by simp
    with False 1(2,3) show ?thesis by (simp add: digs_step[of n b] digs_eq_Nil hd_append)
  qed
qed

lemma digs_power: "2 \<le> b \<Longrightarrow> 0 < n \<Longrightarrow> b ^ (length (digs b n) - 1) \<le> n"
proof (induction b n rule: digs.induct)
  case (1 b n)
  show ?case
  proof (cases "n div b = 0")
    case True
    with 1(2,3) show ?thesis by (simp add: digs_step[of n b])
  next
    case False
    with 1 have "b ^ (length (digs b (n div b)) - 1) \<le> n div b" by simp
    then have "b ^ (length (digs b (n div b)) - 1) * b \<le> n"
      using 1(2) by (simp add: less_eq_div_iff_mult_less_eq)
    moreover have "length (digs b (n div b)) \<noteq> 0" using False 1(2) by (simp add: digs_eq_Nil)
    ultimately show ?thesis
      using 1(2,3) power_minus_mult[of "length (digs b (n div b))" b]
      by (simp add: digs_step[of n b])
  qed
qed

text \<open>A digit list without leading zero is the canonical one of its value.\<close>

lemma digs_val:
  assumes "2 \<le> b" "\<forall>d \<in> set xs. unat d < b" "xs = [] \<or> hd xs \<noteq> 0"
  shows "digs b (val b xs) = map unat xs"
  using assms(2,3)
proof (induction xs rule: rev_induct)
  case (snoc x xs)
  show ?case
  proof (cases "xs = []")
    case True
    with snoc have "unat x \<noteq> 0" by (simp add: unat_eq_zero)
    with True snoc assms(1) show ?thesis by (simp add: digs_step[of "unat x" b])
  next
    case False
    with snoc have ih: "digs b (val b xs) = map unat xs" by simp
    have v: "val b (xs @ [x]) = val b xs * b + unat x" by (simp add: val_append)
    from snoc have x: "unat x < b" by simp
    have "val b xs \<noteq> 0"
    proof
      assume "val b xs = 0"
      with ih have "xs = []" by simp
      with False show False by simp
    qed
    with v have "0 < val b (xs @ [x])" using assms(1) by simp
    then have "digs b (val b (xs @ [x])) =
        digs b (val b (xs @ [x]) div b) @ [val b (xs @ [x]) mod b]"
      using assms(1) by (rule digs_step)
    moreover have "val b (xs @ [x]) div b = val b xs" "val b (xs @ [x]) mod b = unat x"
      using v x by simp_all
    ultimately show ?thesis using ih by simp
  qed
qed simp

lemma divmodDigits_spec:
  assumes "divmodDigits b d r xs = (r', qs)" "r < d" "b \<le> 256" "\<forall>x \<in> set xs. unat x < b"
  shows "r * b ^ length xs + val b xs = d * val b qs + r' \<and> r' < d \<and>
         length qs = length xs \<and> (\<forall>q \<in> set qs. unat q < b)"
  using assms
proof (induction b d r xs arbitrary: r' qs rule: divmodDigits.induct)
  case (1 base divisor remainder)
  then show ?case by simp
next
  case (2 b d r x xs)
  let ?t = "r * b + unat x"
  obtain qs' where rec: "divmodDigits b d (?t mod d) xs = (r', qs')"
    and qs: "qs = of_nat (?t div d) # qs'"
    using 2(2) by (auto simp: Let_def split: prod.splits)
  have x: "unat x < b" using 2(5) by simp
  have "?t < (r + 1) * b" using x by simp
  also have "\<dots> \<le> d * b" using 2(3) by (intro mult_le_mono1) simp
  finally have q: "?t div d < b" using 2(3) by (simp add: less_mult_imp_div_less mult.commute)
  have uq: "unat (of_nat (?t div d) :: byte) = ?t div d"
    using q 2(4) by (simp add: unat_of_nat)
  have ih: "(?t mod d) * b ^ length xs + val b xs = d * val b qs' + r' \<and> r' < d \<and>
      length qs' = length xs \<and> (\<forall>q \<in> set qs'. unat q < b)"
    using 2(1)[OF refl rec] 2(3,4,5) by simp
  have "r * b ^ length (x # xs) + val b (x # xs) = ?t * b ^ length xs + val b xs"
    by (simp add: algebra_simps)
  also have "\<dots> = (d * (?t div d) + ?t mod d) * b ^ length xs + val b xs" by simp
  also have "\<dots> = d * ((?t div d) * b ^ length xs) + (?t mod d * b ^ length xs + val b xs)"
    by (simp only: add_mult_distrib mult.assoc add.assoc)
  also have "\<dots> = d * ((?t div d) * b ^ length xs) + (d * val b qs' + r')" using ih by simp
  also have "\<dots> = d * val b qs + r'" using qs uq ih by (simp add: add_mult_distrib2)
  finally show ?case using ih qs uq q by auto
qed


lemma skipEq_takeWhile: "skipEq c xs i = i + length (takeWhile (\<lambda>y. y = c) (drop i xs))"
proof (induction c xs i rule: skipEq.induct)
  case (1 c xs i)
  show ?case
  proof (cases "i < length xs")
    case True
    then have d: "drop i xs = xs ! i # drop (Suc i) xs" by (rule Cons_nth_drop_Suc [symmetric])
    show ?thesis using 1 True by (subst skipEq.simps) (simp add: d)
  next
    case False
    then show ?thesis by (subst skipEq.simps) simp
  qed
qed

section \<open>The conversion loop\<close>

text \<open>Both directions run the same loop; they differ in the bases and in the byte written.\<close>

fun convLoop :: "(nat \<Rightarrow> byte) \<Rightarrow> nat \<Rightarrow> nat \<Rightarrow> byte list \<Rightarrow> nat \<Rightarrow> byte list \<Rightarrow> nat \<Rightarrow>
    (byte list \<times> nat) option" where
  "convLoop f b d src i buf out =
     (if i < length src then
        (let (r, src') = divmod src i b d in
         case out of
           0 \<Rightarrow> None
         | Suc out' \<Rightarrow> convLoop f b d src' (if src' ! i = 0 then Suc i else i) (buf[out' := f r]) out')
      else Some (buf, out))"

declare convLoop.simps [simp del]

lemma encodeLoop_conv: "encodeLoop alpha src i buf out = convLoop ((!) alpha) 256 (length alpha) src i buf out"
proof (induction out arbitrary: src i buf)
  case 0
  show ?case by (subst encodeLoop.simps, subst convLoop.simps) (simp split: prod.split)
next
  case (Suc out)
  then show ?case by (subst encodeLoop.simps, subst convLoop.simps) (simp split: prod.split)
qed

lemma decodeLoop_conv: "decodeLoop b src i buf out = convLoop of_nat b 256 src i buf out"
proof (induction out arbitrary: src i buf)
  case 0
  show ?case by (subst decodeLoop.simps, subst convLoop.simps) (simp split: prod.split)
next
  case (Suc out)
  then show ?case by (subst decodeLoop.simps, subst convLoop.simps) (simp split: prod.split)
qed

text \<open>One iteration on a non-empty suffix divides its value by the target base.\<close>

lemma divmod_suffix:
  assumes "i < length src" "0 < d" "b \<le> 256" "\<forall>x \<in> set (drop i src). unat x < b"
  obtains q qs where
    "divmod src i b d = (val b (drop i src) mod d, take i src @ q # qs)"
    "length (q # qs) = length (drop i src)"
    "\<forall>x \<in> set (q # qs). unat x < b"
    "val b (q # qs) = val b (drop i src) div d"
    "unat q = unat (src ! i) div d"
proof -
  obtain r qs where dm: "divmodDigits b d 0 (drop i src) = (r, qs)" by fastforce
  have sp: "val b (drop i src) = d * val b qs + r \<and> r < d \<and>
      length qs = length (drop i src) \<and> (\<forall>q \<in> set qs. unat q < b)"
    using divmodDigits_spec[OF dm] assms by simp
  with assms(1) obtain q qs' where q: "qs = q # qs'" by (cases qs) auto
  have ds: "drop i src = src ! i # drop (Suc i) src"
    using assms(1) by (rule Cons_nth_drop_Suc [symmetric])
  with dm q have "q = of_nat (unat (src ! i) div d)"
    by (auto simp: Let_def split: prod.splits)
  moreover have "unat (src ! i) div d < 2 ^ 8"
    using le_less_trans[OF div_le_dividend unat_byte_less] by simp
  ultimately have uq: "unat q = unat (src ! i) div d" by (simp add: unat_of_nat)
  have "divmod src i b d = (val b (drop i src) mod d, take i src @ q # qs')"
    using dm sp q by (simp add: divmod_def)
  moreover have "val b (q # qs') = val b (drop i src) div d" using sp q by simp
  ultimately show ?thesis using that[of q qs'] sp q uq by simp
qed

lemma convLoop_step:
  assumes "i < length src" "0 < d" "b \<le> 256" "\<forall>x \<in> set (drop i src). unat x < b"
  obtains q qs where
    "convLoop f b d src i buf (Suc out) =
       convLoop f b d (take i src @ q # qs) (if q = 0 then Suc i else i)
         (buf[out := f (val b (drop i src) mod d)]) out"
    "drop i (take i src @ q # qs) = q # qs" "drop (Suc i) (take i src @ q # qs) = qs"
    "length (q # qs) = length (drop i src)"
    "\<forall>x \<in> set (q # qs). unat x < b"
    "val b (q # qs) = val b (drop i src) div d"
    "unat q = unat (src ! i) div d"
proof -
  obtain q qs where *: "divmod src i b d = (val b (drop i src) mod d, take i src @ q # qs)"
    "length (q # qs) = length (drop i src)" "\<forall>x \<in> set (q # qs). unat x < b"
    "val b (q # qs) = val b (drop i src) div d" "unat q = unat (src ! i) div d"
    using divmod_suffix[OF assms] by blast
  have n: "(take i src @ q # qs) ! i = q" using assms(1) by (simp add: nth_append)
  show ?thesis
    by (rule that[of q qs])
       (use * n assms(1) in \<open>simp_all add: convLoop.simps[of f b d src i buf "Suc out"]\<close>)
qed

lemma drop_list_update_snoc:
  assumes "out < length buf" "drop m buf' = ys @ drop out (buf[out := x])"
  shows "drop m buf' = (ys @ [x]) @ drop (Suc out) buf"
  using assms by (simp add: Cons_nth_drop_Suc [symmetric] drop_update_cancel)

lemma convLoop_done: "length src \<le> i \<Longrightarrow> convLoop f b d src i buf out = Some (buf, out)"
  by (subst convLoop.simps) simp

text \<open>
  From a larger base to a smaller one, started on a suffix without leading zero, the loop
  writes exactly the canonical digits.
\<close>

lemma convLoop_down:
  assumes "2 \<le> d" "d \<le> b" "b \<le> 256"
  shows "\<lbrakk>\<forall>x \<in> set (drop i src). unat x < b; drop i src = [] \<or> hd (drop i src) \<noteq> 0;
      ds = digs d (val b (drop i src)); length ds \<le> out; out \<le> length buf\<rbrakk> \<Longrightarrow>
    \<exists>buf'. convLoop f b d src i buf out = Some (buf', out - length ds) \<and>
      length buf' = length buf \<and> drop (out - length ds) buf' = map f ds @ drop out buf"
proof (induction out arbitrary: src i buf ds)
  case 0
  then have "val b (drop i src) = 0" using assms by (simp add: digs_eq_Nil)
  then have "map unat (drop i src) = []" using digs_val[of b "drop i src"] 0(1,2) assms by simp
  then show ?case using 0 by (simp add: convLoop_done)
next
  case (Suc out)
  show ?case
  proof (cases "i < length src")
    case False
    then show ?thesis using Suc.prems by (simp add: convLoop_done)
  next
    case True
    let ?v = "val b (drop i src)"
    have ds: "drop i src = src ! i # drop (Suc i) src"
      using True by (rule Cons_nth_drop_Suc [symmetric])
    have lead: "src ! i \<noteq> 0" using Suc.prems(2) ds by simp
    then have ge: "b ^ (length (drop i src) - 1) \<le> ?v"
      using True ds by (intro val_lead) auto
    moreover have dpos: "0 < d" and "0 < b ^ (length (drop i src) - 1)" using assms by simp_all
    ultimately have pos: "0 < ?v" by linarith
    obtain q qs where st: "convLoop f b d src i buf (Suc out) =
        convLoop f b d (take i src @ q # qs) (if q = 0 then Suc i else i)
         (buf[out := f (?v mod d)]) out"
      and d1: "drop i (take i src @ q # qs) = q # qs"
      and d2: "drop (Suc i) (take i src @ q # qs) = qs"
      and len: "length (q # qs) = length (drop i src)"
      and sm: "\<forall>x \<in> set (q # qs). unat x < b"
      and vq: "val b (q # qs) = ?v div d"
      and "unat q = unat (src ! i) div d"
      by (rule convLoop_step[OF True dpos assms(3) Suc.prems(1)])
    let ?i = "if q = 0 then Suc i else i"
    let ?s = "take i src @ q # qs"
    have suf: "drop ?i ?s = (if q = 0 then qs else q # qs)" using True by (simp add: min_def)
    have v': "val b (drop ?i ?s) = ?v div d" using suf vq by auto
    have lead': "drop ?i ?s = [] \<or> hd (drop ?i ?s) \<noteq> 0"
    proof (cases "q = 0 \<and> qs \<noteq> []")
      case True
      then obtain y ys where qs: "qs = y # ys" by (cases qs) auto
      have "d * b ^ length ys \<le> b * b ^ length ys" using assms(2) by simp
      also have "\<dots> = b ^ (length (drop i src) - 1)" unfolding len [symmetric] qs by simp
      also have "\<dots> \<le> ?v" by (rule ge)
      finally have "b ^ length ys \<le> ?v div d" using assms(1) by (simp add: less_eq_div_iff_mult_less_eq mult.commute)
      then have "b ^ length ys \<le> val b qs" using vq True by simp
      moreover have "val b ys < b ^ length ys" using sm qs by (intro val_bound) simp
      ultimately have "y \<noteq> 0" using qs by auto
      then show ?thesis using suf True qs by simp
    next
      case False
      then show ?thesis using suf by auto
    qed
    have dsv: "ds = digs d (?v div d) @ [?v mod d]"
      using Suc.prems(3) pos assms(1) by (simp add: digs_step)
    have "\<exists>buf'. convLoop f b d ?s ?i (buf[out := f (?v mod d)]) out =
        Some (buf', out - length (digs d (?v div d))) \<and>
        length buf' = length (buf[out := f (?v mod d)]) \<and>
        drop (out - length (digs d (?v div d))) buf' =
          map f (digs d (?v div d)) @ drop out (buf[out := f (?v mod d)])"
      by (rule Suc.IH) (use sm suf v' lead' dsv Suc.prems(4,5) in \<open>auto split: if_splits\<close>)
    then obtain buf' where b': "convLoop f b d ?s ?i (buf[out := f (?v mod d)]) out =
        Some (buf', out - length (digs d (?v div d)))" "length buf' = length buf"
      "drop (out - length (digs d (?v div d))) buf' =
          map f (digs d (?v div d)) @ drop out (buf[out := f (?v mod d)])"
      by auto
    show ?thesis using st b' dsv drop_list_update_snoc[OF _ b'(3)] Suc.prems(5) by simp
  qed
qed


text \<open>From a smaller base to a larger one it consumes one digit per iteration and pads with zeros.\<close>

lemma digs_length_le:
  assumes "2 \<le> d" "v < d ^ n"
  shows "length (digs d v) \<le> n"
proof (cases "v = 0")
  case False
  then have "d ^ (length (digs d v) - 1) < d ^ n"
    using digs_power[of d v] assms by (simp add: order.strict_trans1)
  then show ?thesis using assms(1) by (simp add: power_strict_increasing_iff)
qed simp

lemma convLoop_up:
  assumes "2 \<le> b" "b \<le> d" "b \<le> 256"
  shows "\<lbrakk>\<forall>x \<in> set (drop i src). unat x < b; ds = digs d (val b (drop i src));
      n = length (drop i src); n \<le> out; out \<le> length buf\<rbrakk> \<Longrightarrow>
    \<exists>buf'. convLoop f b d src i buf out = Some (buf', out - n) \<and> length buf' = length buf \<and>
      drop (out - n) buf' = map f (replicate (n - length ds) 0 @ ds) @ drop out buf"
proof (induction out arbitrary: src i buf ds n)
  case 0
  then show ?case by (simp add: convLoop_done)
next
  case (Suc out)
  have d2: "2 \<le> d" using assms by simp
  show ?case
  proof (cases "i < length src")
    case False
    then show ?thesis using Suc.prems by (simp add: convLoop_done)
  next
    case True
    let ?v = "val b (drop i src)"
    have dpos: "0 < d" using assms by simp
    obtain q qs where st: "convLoop f b d src i buf (Suc out) =
        convLoop f b d (take i src @ q # qs) (if q = 0 then Suc i else i)
         (buf[out := f (?v mod d)]) out"
      and d1: "drop i (take i src @ q # qs) = q # qs"
      and suf: "drop (Suc i) (take i src @ q # qs) = qs"
      and len: "length (q # qs) = length (drop i src)"
      and sm: "\<forall>x \<in> set (q # qs). unat x < b"
      and vq: "val b (q # qs) = ?v div d"
      and uq: "unat q = unat (src ! i) div d"
      by (rule convLoop_step[OF True dpos assms(3) Suc.prems(1)])
    have "src ! i \<in> set (drop i src)" using True by (simp add: Cons_nth_drop_Suc [symmetric])
    then have "unat (src ! i) < d" using Suc.prems(1) assms(2) by fastforce
    then have q: "q = 0" using uq by (simp add: unat_eq_zero)
    let ?s = "take i src @ q # qs"
    let ?buf = "buf[out := f (?v mod d)]"
    let ?ds = "digs d (?v div d)"
    have v': "val b (drop (Suc i) ?s) = ?v div d" using vq q suf by simp
    have n: "n = Suc (length qs)" using len Suc.prems(3) by simp
    have "\<exists>buf'. convLoop f b d ?s (Suc i) ?buf out = Some (buf', out - length qs) \<and>
        length buf' = length ?buf \<and>
        drop (out - length qs) buf' = map f (replicate (length qs - length ?ds) 0 @ ?ds) @ drop out ?buf"
      by (rule Suc.IH) (use sm v' suf n Suc.prems(4,5) in auto)
    then obtain buf' where b': "convLoop f b d ?s (Suc i) ?buf out = Some (buf', out - length qs)"
      "length buf' = length buf"
      "drop (out - length qs) buf' = map f (replicate (length qs - length ?ds) 0 @ ?ds) @ drop out ?buf"
      by auto
    have r: "replicate (length qs - length ?ds) 0 @ ?ds @ [?v mod d] = replicate (n - length ds) 0 @ ds"
    proof (cases "?v = 0")
      case True
      then show ?thesis using Suc.prems(2) n by (simp add: replicate_append_same)
    next
      case False
      then show ?thesis using Suc.prems(2) n digs_step[of ?v d] d2 by simp
    qed
    have "drop (out - length qs) buf' = map f (replicate (n - length ds) 0 @ ds) @ drop (Suc out) buf"
      using drop_list_update_snoc[OF _ b'(3)] Suc.prems(5) arg_cong[OF r, of "map f"] by simp
    then show ?thesis using st b' q n by simp
  qed
qed

section \<open>Well-formed encodings\<close>

text \<open>What \<^verbatim>\<open>newAlphabetEncoding\<close> establishes: the index table inverts the alphabet.\<close>

definition wf_encoding :: "alphabetEncoding \<Rightarrow> bool" where
  "wf_encoding e \<longleftrightarrow>
     2 \<le> length (alphabet e) \<and> length (alphabet e) \<le> 128 \<and> distinct (alphabet e) \<and>
     (\<forall>c \<in> set (alphabet e). unat c < 128) \<and> length (indexes e) = 128 \<and>
     (\<forall>i < length (alphabet e). indexes e ! unat (alphabet e ! i) = int i) \<and>
     (\<forall>j < 128. 0 \<le> indexes e ! j \<longrightarrow>
        nat (indexes e ! j) < length (alphabet e) \<and> unat (alphabet e ! nat (indexes e ! j)) = j)"


lemma fillIndexes_Inr:
  assumes "length ix = 128" "fillIndexes ix k cs = Inr ix'"
  shows "distinct cs \<and> (\<forall>c \<in> set cs. unat c < 128 \<and> ix ! unat c < 0) \<and> length ix' = 128 \<and>
    (\<forall>i < length cs. ix' ! unat (cs ! i) = int (k + i)) \<and>
    (\<forall>j < 128. j \<notin> unat ` set cs \<longrightarrow> ix' ! j = ix ! j)"
  using assms
proof (induction ix k cs rule: fillIndexes.induct)
  case (1 ix k)
  then show ?case by simp
next
  case (2 ix k c cs)
  from 2(3) have c: "unat c < 128" "ix ! unat c < 0"
    and rec: "fillIndexes (ix[unat c := int k]) (Suc k) cs = Inr ix'"
    by (auto split: if_splits)
  let ?ix = "ix[unat c := int k]"
  have ih: "distinct cs \<and> (\<forall>d \<in> set cs. unat d < 128 \<and> ?ix ! unat d < 0) \<and> length ix' = 128 \<and>
      (\<forall>i < length cs. ix' ! unat (cs ! i) = int (Suc k + i)) \<and>
      (\<forall>j < 128. j \<notin> unat ` set cs \<longrightarrow> ix' ! j = ?ix ! j)"
    using 2(1)[OF _ _ _ rec] c 2(2) by simp
  have fresh: "c \<notin> set cs" using ih c 2(2) by auto
  then have notin: "unat c \<notin> unat ` set cs" by (auto simp: word_unat_eq_iff [symmetric])
  have ne: "unat d \<noteq> unat c" if "d \<in> set cs" for d using that fresh by (auto simp: word_unat_eq_iff [symmetric])
  have old: "\<forall>d \<in> set cs. unat d < 128 \<and> ix ! unat d < 0" using ih ne 2(2) by fastforce
  have here: "ix' ! unat c = int k" using ih notin c 2(2) by simp
  have "ix' ! unat ((c # cs) ! i) = int (k + i)" if "i < length (c # cs)" for i
    using that ih here by (cases i) auto
  moreover have "ix' ! j = ix ! j" if "j < 128" "j \<notin> unat ` set (c # cs)" for j
    using that ih by auto
  ultimately show ?case using ih fresh old c by simp
qed

lemma fillIndexes_total:
  assumes "length ix = 128" "distinct cs" "\<forall>c \<in> set cs. unat c < 128 \<and> ix ! unat c < 0"
  shows "\<exists>ix'. fillIndexes ix k cs = Inr ix'"
  using assms
proof (induction ix k cs rule: fillIndexes.induct)
  case (2 ix k c cs)
  have "unat c \<noteq> unat d" if "d \<in> set cs" for d
    using that 2(3) by (auto simp: word_unat_eq_iff [symmetric])
  then have "\<forall>d \<in> set cs. unat d < 128 \<and> ix[unat c := int k] ! unat d < 0"
    using 2(4) by simp
  then show ?case using 2 by simp
qed simp

lemma newAlphabetEncoding_Inr_iff:
  "(\<exists>e. newAlphabetEncoding name alpha = Inr e) \<longleftrightarrow>
     2 \<le> length alpha \<and> distinct alpha \<and> (\<forall>c \<in> set alpha. unat c < 128)"
proof
  assume "\<exists>e. newAlphabetEncoding name alpha = Inr e"
  then show "2 \<le> length alpha \<and> distinct alpha \<and> (\<forall>c \<in> set alpha. unat c < 128)"
    using fillIndexes_Inr[of "replicate 128 (-1)" 0 alpha]
    by (auto simp: newAlphabetEncoding_def split: if_splits sum.splits)
next
  assume "2 \<le> length alpha \<and> distinct alpha \<and> (\<forall>c \<in> set alpha. unat c < 128)"
  then show "\<exists>e. newAlphabetEncoding name alpha = Inr e"
    using fillIndexes_total[of "replicate 128 (-1)" alpha 0]
    by (auto simp: newAlphabetEncoding_def)
qed

lemma distinct_ascii_length:
  assumes "distinct cs" "\<forall>c \<in> set cs. unat (c :: byte) < 128"
  shows "length cs \<le> 128"
proof -
  have "length cs = card (unat ` set cs)"
    using distinct_card[OF assms(1)] card_image[of unat "set cs"]
    by (simp add: inj_on_def word_unat_eq_iff)
  also have "\<dots> \<le> card {..<128 :: nat}" using assms(2) by (intro card_mono) auto
  finally show ?thesis by simp
qed

lemma newAlphabetEncoding_wf:
  assumes "newAlphabetEncoding name alpha = Inr e"
  shows "wf_encoding e \<and> alphabet e = alpha \<and> enc_name e = name"
proof -
  obtain ix where ix: "fillIndexes (replicate 128 (-1)) 0 alpha = Inr ix"
    and e: "e = \<lparr>enc_name = name, alphabet = alpha, indexes = ix\<rparr>" and len: "2 \<le> length alpha"
    using assms by (auto simp: newAlphabetEncoding_def split: if_splits sum.splits)
  have f: "distinct alpha \<and> (\<forall>c \<in> set alpha. unat c < 128) \<and> length ix = 128 \<and>
    (\<forall>i < length alpha. ix ! unat (alpha ! i) = int i) \<and>
    (\<forall>j < 128. j \<notin> unat ` set alpha \<longrightarrow> ix ! j = -1)"
    using fillIndexes_Inr[OF _ ix] by simp
  have "nat (ix ! j) < length alpha \<and> unat (alpha ! nat (ix ! j)) = j"
    if "j < 128" "0 \<le> ix ! j" for j
  proof -
    have "j \<in> unat ` set alpha" using that f by force
    then obtain i where "i < length alpha" "j = unat (alpha ! i)" by (auto simp: in_set_conv_nth)
    then show ?thesis using f by simp
  qed
  then show ?thesis using f e len distinct_ascii_length[of alpha] by (simp add: wf_encoding_def)
qed


section \<open>Encoding and decoding on well-formed alphabets\<close>

text \<open>Splitting an input into its leading zeros and a rest without leading zero.\<close>

lemma leading_split:
  obtains z rest where "xs = replicate z c @ rest" "rest = [] \<or> hd rest \<noteq> c"
    "skipEq c xs 0 = z"
proof -
  let ?t = "takeWhile (\<lambda>y. y = c) xs"
  have "?t = replicate (length ?t) c"
    by (rule replicate_eqI) (auto dest: set_takeWhileD)
  moreover have "xs = ?t @ dropWhile (\<lambda>y. y = c) xs" by simp
  ultimately have "xs = replicate (length ?t) c @ dropWhile (\<lambda>y. y = c) xs" by metis
  moreover have "dropWhile (\<lambda>y. y = c) xs = [] \<or> hd (dropWhile (\<lambda>y. y = c) xs) \<noteq> c"
    using hd_dropWhile[of "\<lambda>y. y = c" xs] by blast
  ultimately show ?thesis using that by (simp add: skipEq_takeWhile)
qed

lemma skipEq_replicate:
  "rest = [] \<or> hd rest \<noteq> c \<Longrightarrow> skipEq c (replicate z c @ rest) 0 = z"
  by (simp add: skipEq_takeWhile takeWhile_replicate_append)

lemma skipEq_stop: "drop i xs = [] \<or> hd (drop i xs) \<noteq> c \<Longrightarrow> skipEq c xs i = i"
  by (cases "drop i xs") (auto simp: skipEq_takeWhile)

lemma putZeros_spec:
  "\<lbrakk>z \<le> out; out \<le> length buf\<rbrakk> \<Longrightarrow>
     \<exists>buf'. putZeros z c buf out = Some (buf', out - z) \<and>
       drop (out - z) buf' = replicate z c @ drop out buf"
proof (induction z arbitrary: out buf)
  case (Suc z)
  then obtain out' where out: "out = Suc out'" by (cases out) auto
  obtain buf' where b: "putZeros z c (buf[out' := c]) out' = Some (buf', out' - z)"
    "drop (out' - z) buf' = replicate z c @ drop out' (buf[out' := c])"
    using Suc.IH[of out' "buf[out' := c]"] Suc.prems out by auto
  have "drop (out' - z) buf' = (replicate z c @ [c]) @ drop (Suc out') buf"
    using drop_list_update_snoc[OF _ b(2)] Suc.prems out by simp
  then show ?case using b(1) out by (simp add: replicate_append_same)
qed simp

text \<open>The output buffer of \<^verbatim>\<open>encode\<close> is large enough for alphabets of 58 characters or more.\<close>

lemma buffer_bound:
  assumes "58 \<le> d" "v < 256 ^ n" "0 < v"
  shows "length (digs d v) \<le> n * 138 div 100 + 1"
proof -
  let ?k = "length (digs d v) - 1"
  have "d ^ ?k \<le> v" using digs_power[of d v] assms by simp
  with assms(2) have "(d ^ ?k) ^ 100 < (256 ^ n) ^ 100"
    by (intro power_strict_mono) auto
  also have "(256 ^ n) ^ 100 = ((256 :: nat) ^ 100) ^ n"
    by (simp only: power_mult [symmetric] mult.commute)
  also have "\<dots> \<le> (58 ^ 138) ^ n" by (rule power_mono) simp_all
  also have "\<dots> \<le> (d ^ 138) ^ n" using assms(1) by (intro power_mono) simp_all
  finally have "d ^ (?k * 100) < d ^ (138 * n)" by (simp only: power_mult [symmetric])
  then have "?k * 100 < 138 * n" using assms(1) by (simp add: power_strict_increasing_iff)
  then show ?thesis by linarith
qed

text \<open>\<^verbatim>\<open>encode\<close> keeps one zero digit per leading zero byte and writes the rest canonically.\<close>

lemma encode_canonical:
  assumes wf: "wf_encoding e" and big: "58 \<le> length (alphabet e)"
    and rest: "rest = [] \<or> hd rest \<noteq> 0"
  shows "encode e (replicate z 0 @ rest) =
    Some (replicate z (alphabet e ! 0) @ map ((!) (alphabet e)) (digs (length (alphabet e)) (val 256 rest)))"
proof (cases "replicate z 0 @ rest = []")
  case True
  then show ?thesis by (simp add: encode_def)
next
  case False
  let ?a = "alphabet e" let ?N = "length (alphabet e)" let ?in = "replicate z 0 @ rest"
  define B where "B = length ?in * 138 div 100 + 2"
  define ds where "ds = digs ?N (val 256 rest)"
  define out where "out = B - length ds"
  let ?buf = "replicate B (0 :: byte)"
  have N: "?N \<le> 128" using wf by (simp add: wf_encoding_def)
  have z: "skipEq 0 ?in 0 = z" using rest by (rule skipEq_replicate)
  have len: "length ds + z \<le> B"
  proof (cases "val 256 rest = 0")
    case False
    then have "length ds \<le> length rest * 138 div 100 + 1"
      unfolding ds_def using big by (intro buffer_bound val_bound) simp_all
    then show ?thesis by (simp add: B_def)
  qed (simp add: ds_def B_def)
  have "\<exists>buf'. convLoop ((!) ?a) 256 ?N ?in z ?buf B = Some (buf', B - length ds) \<and>
      length buf' = length ?buf \<and> drop (B - length ds) buf' = map ((!) ?a) ds @ drop B ?buf"
    by (rule convLoop_down) (use big N rest len in \<open>auto simp: ds_def\<close>)
  then obtain buf' where b: "encodeLoop ?a ?in z ?buf B = Some (buf', out)"
    "length buf' = B" "drop out buf' = map ((!) ?a) ds"
    by (auto simp: encodeLoop_conv out_def)
  have "map ((!) ?a) ds = [] \<or> hd (map ((!) ?a) ds) \<noteq> ?a ! 0"
  proof (cases "val 256 rest = 0")
    case False
    then have hd: "ds \<noteq> []" "hd ds \<noteq> 0" using big digs_hd digs_eq_Nil by (auto simp: ds_def)
    then have "hd ds < ?N" unfolding ds_def by (intro digs_less[of _ ?N "val 256 rest"]) simp
    moreover have "0 < ?N" using big by linarith
    ultimately have "?a ! hd ds \<noteq> ?a ! 0"
      using wf hd(2) nth_eq_iff_index_eq[of ?a "hd ds" 0] by (simp add: wf_encoding_def)
    then show ?thesis using hd by (simp add: hd_map)
  qed (simp add: ds_def)
  then have sk: "skipEq (?a ! 0) buf' out = out"
    using b(3) by (intro skipEq_stop) simp
  have "z \<le> out" "out \<le> length buf'" using len b(2) by (simp_all add: out_def)
  then obtain buf'' where p: "putZeros z (?a ! 0) buf' out = Some (buf'', out - z)"
    "drop (out - z) buf'' = replicate z (?a ! 0) @ map ((!) ?a) ds"
    using putZeros_spec[of z out buf' "?a ! 0"] b(3) by auto
  have "encode e ?in = Some (drop (out - z) buf'')"
    by (simp only: encode_def Let_def if_not_P[OF False] z B_def [symmetric] length_replicate
        b(1) sk p(1) option.case prod.case)
  then show ?thesis using p(2) by (simp add: ds_def)
qed

lemma val_digs: "2 \<le> b \<Longrightarrow> b \<le> 256 \<Longrightarrow> val b (map of_nat (digs b n)) = n"
proof (induction b n rule: digs.induct)
  case (1 b n)
  show ?case
  proof (cases "n = 0")
    case False
    then have ih: "val b (map of_nat (digs b (n div b))) = n div b" using 1 by simp
    have "n mod b < 256" using 1(2,3) mod_less_divisor[of b n] by linarith
    then show ?thesis using 1(2) False ih
      by (simp add: digs_step[of n b] val_append unat_byte_of_nat)
  qed simp
qed

lemma map_unat_digs: "b \<le> 256 \<Longrightarrow> map (\<lambda>d. unat (of_nat d :: byte)) (digs b n) = digs b n"
  using digs_less[of _ b n] by (intro map_idI unat_byte_of_nat) fastforce

lemma digs_bytes_lead:
  assumes "2 \<le> b" "b \<le> 256"
  shows "map of_nat (digs b n) = [] \<or> hd (map of_nat (digs b n)) \<noteq> (0 :: byte)"
proof (cases "n = 0")
  case False
  then have hd: "digs b n \<noteq> []" "hd (digs b n) \<noteq> 0" using assms digs_hd digs_eq_Nil by auto
  then have "hd (digs b n) < 256" using assms digs_less[of "hd (digs b n)" b n] by simp
  then have "unat (of_nat (hd (digs b n)) :: byte) \<noteq> 0" using hd(2) by (simp add: unat_byte_of_nat)
  then show ?thesis using hd(1) by (auto simp: hd_map)
qed simp

lemma lookupDigits_ConsE:
  assumes "lookupDigits ix k (c # s) = Inr src"
  obtains src' where "unat c < 128" "0 \<le> ix ! unat c"
    "src = word_of_int (ix ! unat c) # src'" "lookupDigits ix (Suc k) s = Inr src'"
proof (cases "128 \<le> unat c \<or> ix ! unat c < 0")
  case False
  with assms that show ?thesis
    by (cases "lookupDigits ix (Suc k) s") (auto simp: not_le not_less)
qed (use assms in simp)

lemma unat_word_of_index: "0 \<le> i \<Longrightarrow> nat i < 256 \<Longrightarrow> unat (word_of_int i :: byte) = nat i"
  by (simp add: unsigned_of_int take_bit_int_eq_self)

lemma lookupDigits_Inr:
  assumes "wf_encoding e" "lookupDigits (indexes e) k s = Inr src"
  shows "map (\<lambda>d. alphabet e ! unat d) src = s \<and> (\<forall>d \<in> set src. unat d < length (alphabet e))"
  using assms(2)
proof (induction s arbitrary: k src)
  case (Cons c s)
  obtain src' where c: "unat c < 128" "0 \<le> indexes e ! unat c"
    and src: "src = word_of_int (indexes e ! unat c) # src'"
    and rec: "lookupDigits (indexes e) (Suc k) s = Inr src'"
    by (rule lookupDigits_ConsE[OF Cons.prems])
  have ix: "nat (indexes e ! unat c) < length (alphabet e)"
      "unat (alphabet e ! nat (indexes e ! unat c)) = unat c" "length (alphabet e) \<le> 128"
    using assms(1) c by (simp_all add: wf_encoding_def)
  have u: "unat (word_of_int (indexes e ! unat c) :: byte) = nat (indexes e ! unat c)"
    using ix c(2) by (intro unat_word_of_index) simp_all
  have "alphabet e ! nat (indexes e ! unat c) = c" using ix(2) by (simp add: word_unat_eq_iff)
  then show ?case using Cons.IH[OF rec] src ix(1) u by simp
qed simp

lemma lookupDigits_map:
  assumes "wf_encoding e" "\<forall>d \<in> set ds. d < length (alphabet e)"
  shows "lookupDigits (indexes e) k (map ((!) (alphabet e)) ds) = Inr (map of_nat ds)"
  using assms(2)
proof (induction ds arbitrary: k)
  case (Cons d ds)
  have "unat (alphabet e ! d) < 128" "indexes e ! unat (alphabet e ! d) = int d"
    using assms(1) Cons.prems by (simp_all add: wf_encoding_def)
  then show ?case using Cons by simp
qed simp

lemma decode_canonical:
  assumes wf: "wf_encoding e" and look: "lookupDigits (indexes e) 0 s = Inr (replicate z 0 @ rest)"
    and rest: "rest = [] \<or> hd rest \<noteq> 0"
  shows "decode e s = Some (Inr (replicate z 0 @ map of_nat (digs 256 (val (length (alphabet e)) rest))))"
proof (cases "s = []")
  case True
  then show ?thesis using look by (simp add: decode_def)
next
  case False
  let ?N = "length (alphabet e)" let ?src = "replicate z 0 @ rest" let ?v = "val ?N rest"
  let ?ds = "digs 256 ?v" let ?n = "length rest" let ?L = "length s"
  note lk = lookupDigits_Inr[OF wf look]
  have L: "?L = z + ?n" using arg_cong[OF conjunct1[OF lk], of length] by simp
  have N: "2 \<le> ?N" "?N \<le> 128" using wf by (simp_all add: wf_encoding_def)
  have z: "skipEq 0 ?src 0 = z" using rest by (rule skipEq_replicate)
  have "\<exists>buf'. convLoop of_nat ?N 256 ?src z (replicate ?L 0) ?L = Some (buf', ?L - ?n) \<and>
      length buf' = length (replicate ?L (0 :: byte)) \<and>
      drop (?L - ?n) buf' = map of_nat (replicate (?n - length ?ds) 0 @ ?ds) @ drop ?L (replicate ?L 0)"
    by (rule convLoop_up) (use N lk L in auto)
  then obtain buf' where b: "decodeLoop ?N ?src z (replicate ?L 0) ?L = Some (buf', z)"
    "drop z buf' = replicate (?n - length ?ds) 0 @ map of_nat ?ds"
    using L by (auto simp: decodeLoop_conv)
  have "map of_nat ?ds = [] \<or> hd (map of_nat ?ds) \<noteq> (0 :: byte)"
    by (rule digs_bytes_lead) simp_all
  then have "skipEq 0 buf' z = z + (?n - length ?ds)"
    using b(2) by (simp add: skipEq_takeWhile takeWhile_replicate_append)
  then have "drop (skipEq 0 buf' z) buf' = drop (?n - length ?ds) (drop z buf')"
    by (simp add: add.commute)
  also have "\<dots> = map of_nat ?ds" unfolding b(2) by simp
  finally show ?thesis using False look z b(1) by (simp add: decode_def)
qed

lemma decode_encode:
  assumes wf: "wf_encoding e" and big: "58 \<le> length (alphabet e)"
  shows "\<exists>s. encode e input = Some s \<and> decode e s = Some (Inr input)"
proof -
  let ?N = "length (alphabet e)"
  obtain z rest where i: "input = replicate z 0 @ rest" "rest = [] \<or> hd rest \<noteq> 0"
    using leading_split[of input 0] by metis
  let ?ds = "digs ?N (val 256 rest)"
  have N: "2 \<le> ?N" "?N \<le> 256" using wf by (simp_all add: wf_encoding_def)
  let ?s = "map ((!) (alphabet e)) (replicate z 0 @ ?ds)"
  have enc: "encode e input = Some ?s" using encode_canonical[OF wf big i(2)] i(1) by simp
  have "lookupDigits (indexes e) 0 ?s = Inr (map of_nat (replicate z 0 @ ?ds))"
    by (rule lookupDigits_map[OF wf]) (use digs_less N in auto)
  then have look: "lookupDigits (indexes e) 0 ?s = Inr (replicate z 0 @ map of_nat ?ds)" by simp
  from decode_canonical[OF wf look digs_bytes_lead[OF N]]
  have "decode e ?s = Some (Inr (replicate z 0 @ map of_nat (digs 256 (val 256 rest))))"
    using N by (simp add: val_digs)
  also have "digs 256 (val 256 rest) = map unat rest" using i(2) by (intro digs_val) simp_all
  finally show ?thesis using enc i(1) by (simp add: comp_def)
qed


lemma encode_decode:
  assumes wf: "wf_encoding e" and big: "58 \<le> length (alphabet e)"
    and dec: "decode e s = Some (Inr out)"
  shows "encode e out = Some s"
proof (cases "s = []")
  case True
  with dec show ?thesis by (simp add: decode_def encode_def)
next
  case False
  let ?N = "length (alphabet e)"
  have N: "2 \<le> ?N" "?N \<le> 256" using wf by (simp_all add: wf_encoding_def)
  obtain src where look: "lookupDigits (indexes e) 0 s = Inr src"
    using dec False by (cases "lookupDigits (indexes e) 0 s") (simp_all add: decode_def)
  obtain z rest where src: "src = replicate z 0 @ rest" "rest = [] \<or> hd rest \<noteq> 0"
    using leading_split[of src 0] by metis
  have lk: "map (\<lambda>d. alphabet e ! unat d) src = s" "\<forall>d \<in> set src. unat d < ?N"
    using lookupDigits_Inr[OF wf look] by simp_all
  let ?r = "map of_nat (digs 256 (val ?N rest)) :: byte list"
  have out: "out = replicate z 0 @ ?r"
    using decode_canonical[OF wf look[unfolded src(1)] src(2)] dec by simp
  have "encode e out = Some (replicate z (alphabet e ! 0) @ map ((!) (alphabet e)) (digs ?N (val 256 ?r)))"
    unfolding out by (rule encode_canonical[OF wf big]) (rule digs_bytes_lead, simp_all)
  also have "digs ?N (val 256 ?r) = map unat rest"
    using N lk(2) src by (simp add: val_digs) (intro digs_val; simp)
  finally show ?thesis using lk(1) src(1) by (auto simp: comp_def)
qed

section \<open>The codec interface\<close>

text \<open>
  What callers of a text codec rely on: every value has a text, the text decodes to the
  value, and only texts of values decode.
\<close>

locale text_codec =
  fixes enc :: "'a \<Rightarrow> 'b option"
    and dec :: "'b \<Rightarrow> ('e + 'a) option"
  assumes dec_enc: "\<exists>s. enc x = Some s \<and> dec s = Some (Inr x)"
    and enc_dec: "dec s = Some (Inr x) \<Longrightarrow> enc x = Some s"
begin

lemma enc_total: "enc x \<noteq> None"
  by (metis dec_enc option.distinct(1))

lemma dec_enc_iff: "enc x = Some s \<longleftrightarrow> dec s = Some (Inr x)"
  by (metis dec_enc enc_dec option.inject)

lemma enc_inj: "enc x = enc y \<Longrightarrow> x = y"
  by (metis dec_enc option.inject sum.inject(2))

lemma dec_inj: "dec s = Some (Inr x) \<Longrightarrow> dec t = Some (Inr x) \<Longrightarrow> s = t"
  by (metis enc_dec option.inject)

end

lemma base58_distinct: "2 \<le> length base58Alphabet \<and> distinct base58Alphabet"
  unfolding base58Alphabet_def distinct_bytesOf by (simp add: bytesOf_def)

lemma base58_ascii: "\<forall>c \<in> set base58Alphabet. unat c < 128"
  unfolding base58Alphabet_def by (simp add: bytesOf_def unat_of_char)

lemma base62_distinct: "2 \<le> length base62Alphabet \<and> distinct base62Alphabet"
  unfolding base62Alphabet_def distinct_bytesOf by (simp add: bytesOf_def)

lemma base62_ascii: "\<forall>c \<in> set base62Alphabet. unat c < 128"
  unfolding base62Alphabet_def by (simp add: bytesOf_def unat_of_char)

lemma base58_facts: "wf_encoding base58 \<and> alphabet base58 = base58Alphabet"
proof -
  obtain e where "newAlphabetEncoding ''Base58'' base58Alphabet = Inr e"
    using newAlphabetEncoding_Inr_iff base58_distinct base58_ascii by blast
  then show ?thesis using newAlphabetEncoding_wf by (simp add: base58_def)
qed

lemma base62_facts: "wf_encoding base62 \<and> alphabet base62 = base62Alphabet"
proof -
  obtain e where "newAlphabetEncoding ''Base62'' base62Alphabet = Inr e"
    using newAlphabetEncoding_Inr_iff base62_distinct base62_ascii by blast
  then show ?thesis using newAlphabetEncoding_wf by (simp add: base62_def)
qed

lemma base58_length: "length base58Alphabet = 58"
  by (simp add: base58Alphabet_def bytesOf_def)

lemma base62_length: "length base62Alphabet = 62"
  by (simp add: base62Alphabet_def bytesOf_def)

interpretation b58: text_codec EncodeBase58 DecodeBase58
proof unfold_locales
  have wf: "wf_encoding base58" "58 \<le> length (alphabet base58)"
    using base58_facts base58_length by simp_all
  show "\<exists>s. EncodeBase58 x = Some s \<and> DecodeBase58 s = Some (Inr x)" for x
    unfolding EncodeBase58_def DecodeBase58_def by (rule decode_encode[OF wf])
  show "DecodeBase58 s = Some (Inr x) \<Longrightarrow> EncodeBase58 x = Some s" for s x
    unfolding EncodeBase58_def DecodeBase58_def by (rule encode_decode[OF wf])
qed

interpretation b62: text_codec EncodeBase62 DecodeBase62
proof unfold_locales
  have wf: "wf_encoding base62" "58 \<le> length (alphabet base62)"
    using base62_facts base62_length by simp_all
  show "\<exists>s. EncodeBase62 x = Some s \<and> DecodeBase62 s = Some (Inr x)" for x
    unfolding EncodeBase62_def DecodeBase62_def by (rule decode_encode[OF wf])
  show "DecodeBase62 s = Some (Inr x) \<Longrightarrow> EncodeBase62 x = Some s" for s x
    unfolding EncodeBase62_def DecodeBase62_def by (rule encode_decode[OF wf])
qed

text \<open>
  C5. Base58 and Base62 never panic on any input, and decoding the text gives the input
  back: encoding loses nothing, leading zero bytes included.
\<close>

theorem base_roundtrip:
  "(\<exists>s. EncodeBase58 input = Some s \<and> DecodeBase58 s = Some (Inr input)) \<and>
   (\<exists>s. EncodeBase62 input = Some s \<and> DecodeBase62 s = Some (Inr input))"
  using b58.dec_enc b62.dec_enc by blast

lemma lookupDigits_Inl:
  "lookupDigits ix k s = Inl (c, p) \<longleftrightarrow>
     (\<exists>i < length s. p = k + i \<and> s ! i = c \<and> (128 \<le> unat c \<or> ix ! unat c < 0) \<and>
        (\<forall>j < i. unat (s ! j) < 128 \<and> 0 \<le> ix ! unat (s ! j)))"
proof (induction s arbitrary: k)
  case (Cons x s)
  show ?case
  proof (cases "128 \<le> unat x \<or> ix ! unat x < 0")
    case True
    then show ?thesis by (auto simp: Ex_less_Suc2 All_less_Suc2)
  next
    case False
    then have "lookupDigits ix k (x # s) = Inl (c, p) \<longleftrightarrow> lookupDigits ix (Suc k) s = Inl (c, p)"
      by (auto split: sum.splits)
    with Cons[of "Suc k"] False show ?thesis by (auto simp: Ex_less_Suc2 All_less_Suc2)
  qed
qed simp

lemma wf_index_iff:
  assumes "wf_encoding e"
  shows "unat c < 128 \<and> 0 \<le> indexes e ! unat c \<longleftrightarrow> c \<in> set (alphabet e)"
proof
  assume "unat c < 128 \<and> 0 \<le> indexes e ! unat c"
  then have "nat (indexes e ! unat c) < length (alphabet e)"
    "unat (alphabet e ! nat (indexes e ! unat c)) = unat c"
    using assms by (auto simp: wf_encoding_def)
  then show "c \<in> set (alphabet e)" by (metis nth_mem word_unat_eq_iff)
next
  assume "c \<in> set (alphabet e)"
  then show "unat c < 128 \<and> 0 \<le> indexes e ! unat c"
    using assms by (auto simp: wf_encoding_def in_set_conv_nth)
qed

text \<open>Decoding is total, and its error names the first byte outside the alphabet.\<close>

lemma decode_Inl_iff:
  assumes wf: "wf_encoding e"
  shows "decode e s = Some (Inl (c, p)) \<longleftrightarrow>
     p < length s \<and> s ! p = c \<and> c \<notin> set (alphabet e) \<and> (\<forall>j < p. s ! j \<in> set (alphabet e))"
proof -
  have "decode e s = Some (Inl (c, p)) \<longleftrightarrow> lookupDigits (indexes e) 0 s = Inl (c, p)"
    by (cases "s = []") (auto simp: decode_def Let_def split: sum.splits option.splits)
  moreover have "128 \<le> unat x \<or> indexes e ! unat x < 0 \<longleftrightarrow> x \<notin> set (alphabet e)" for x
    using wf_index_iff[OF wf, of x] by (meson not_le)
  ultimately show ?thesis by (auto simp: lookupDigits_Inl wf_index_iff[OF wf])
qed

lemma decode_total:
  assumes wf: "wf_encoding e"
  shows "decode e s \<noteq> None"
proof (cases "lookupDigits (indexes e) 0 s")
  case (Inr src)
  obtain z rest where "src = replicate z 0 @ rest" "rest = [] \<or> hd rest \<noteq> 0"
    using leading_split[of src 0] by metis
  with Inr show ?thesis using decode_canonical[OF wf] by simp
qed (simp add: decode_def)

text \<open>
  C24. The texts Base58 and Base62 accept are exactly the texts they produce: a decoded text
  is the encoding of its value, so no two texts denote the same bytes.
\<close>

theorem base_canonical:
  "(DecodeBase58 s = Some (Inr x) \<longleftrightarrow> EncodeBase58 x = Some s) \<and>
   (DecodeBase62 s = Some (Inr x) \<longleftrightarrow> EncodeBase62 x = Some s)"
  using b58.dec_enc_iff b62.dec_enc_iff by blast

text \<open>
  Decoding never panics; it fails exactly when the text has a byte outside the alphabet,
  and the error carries the first such byte and its position.
\<close>

theorem base_decode_errors:
  "DecodeBase58 s \<noteq> None \<and> DecodeBase62 s \<noteq> None \<and>
   (DecodeBase58 s = Some (Inl (c, p)) \<longleftrightarrow>
      p < length s \<and> s ! p = c \<and> c \<notin> set base58Alphabet \<and>
      (\<forall>j < p. s ! j \<in> set base58Alphabet)) \<and>
   (DecodeBase62 s = Some (Inl (c, p)) \<longleftrightarrow>
      p < length s \<and> s ! p = c \<and> c \<notin> set base62Alphabet \<and>
      (\<forall>j < p. s ! j \<in> set base62Alphabet))"
proof (intro conjI)
  have wf: "wf_encoding base58" "wf_encoding base62"
    and al: "alphabet base58 = base58Alphabet" "alphabet base62 = base62Alphabet"
    using base58_facts base62_facts by simp_all
  show "DecodeBase58 s \<noteq> None" "DecodeBase62 s \<noteq> None"
    unfolding DecodeBase58_def DecodeBase62_def by (rule decode_total[OF wf(1)], rule decode_total[OF wf(2)])
  show "DecodeBase58 s = Some (Inl (c, p)) \<longleftrightarrow>
      p < length s \<and> s ! p = c \<and> c \<notin> set base58Alphabet \<and> (\<forall>j < p. s ! j \<in> set base58Alphabet)"
    unfolding DecodeBase58_def al(1)[symmetric] by (rule decode_Inl_iff[OF wf(1)])
  show "DecodeBase62 s = Some (Inl (c, p)) \<longleftrightarrow>
      p < length s \<and> s ! p = c \<and> c \<notin> set base62Alphabet \<and> (\<forall>j < p. s ! j \<in> set base62Alphabet)"
    unfolding DecodeBase62_def al(2)[symmetric] by (rule decode_Inl_iff[OF wf(2)])
qed

theorem base_decode_errors_witness:
  "DecodeBase58 (bytesOf ''1x0'') = Some (Inl (0x30, 2)) \<and> DecodeBase62 (bytesOf ''1x0'') \<noteq> None"
proof -
  have "(\<forall>j < 2. bytesOf ''1x0'' ! j \<in> set base58Alphabet) \<and> 0x30 \<notin> set base58Alphabet"
    by (auto simp: base58Alphabet_def bytesOf_def less_2_cases_iff)
  then show ?thesis
    using base_decode_errors[of "bytesOf ''1x0''" "0x30" 2] by (simp add: bytesOf_def)
qed

end
