(* ===== verification/Codec_Text.thy ===== *)
theory Codec_Text
  imports Codec
begin

text \<open>
  The text helpers of package \<^verbatim>\<open>codec\<close> (\<^verbatim>\<open>codec/text.go\<close>, the string variants of
  \<^verbatim>\<open>codec/base58.go\<close> and \<^verbatim>\<open>codec/base62.go\<close>) and the compact UUID text of
  \<^verbatim>\<open>codec/url62_uuid.go\<close> with \<^verbatim>\<open>core/uuid.go\<close>. The package \<^verbatim>\<open>github.com/google/uuid\<close> is the
  pair of parameters \<open>parse\<close> and \<open>str\<close> (\<^verbatim>\<open>uuid.Parse\<close> and \<^verbatim>\<open>UUID.String\<close>); a UUID is the
  list of its sixteen bytes.
\<close>

section \<open>Model\<close>

definition ErrInvalidUTF8 :: string where
  "ErrInvalidUTF8 = ''invalid UTF-8 text''"

definition ErrInvalidArgument :: string where
  "ErrInvalidArgument = ''core: invalid argument''"

text \<open>The errors of the string decoders: an invalid character, or bytes that are not UTF-8.\<close>

datatype textError = InvalidCharacter byte nat | InvalidText "unit go_error"

definition stringFromUTF8Bytes :: "string \<Rightarrow> byte list \<Rightarrow> textError + byte list" where
  "stringFromUTF8Bytes operation data =
     (if \<not> utf8Valid data then Inl (InvalidText (Wrapped operation [Sentinel ErrInvalidUTF8]))
      else Inr data)"

definition EncodeBase58String :: "byte list \<Rightarrow> byte list option" where
  "EncodeBase58String input = EncodeBase58 input"

definition DecodeBase58String :: "byte list \<Rightarrow> (textError + byte list) option" where
  "DecodeBase58String input =
     (case DecodeBase58 input of
        None \<Rightarrow> None
      | Some (Inl (c, i)) \<Rightarrow> Some (Inl (InvalidCharacter c i))
      | Some (Inr decoded) \<Rightarrow> Some (stringFromUTF8Bytes ''decode Base58 string'' decoded))"

definition EncodeBase62String :: "byte list \<Rightarrow> byte list option" where
  "EncodeBase62String input = EncodeBase62 input"

definition DecodeBase62String :: "byte list \<Rightarrow> (textError + byte list) option" where
  "DecodeBase62String input =
     (case DecodeBase62 input of
        None \<Rightarrow> None
      | Some (Inl (c, i)) \<Rightarrow> Some (Inl (InvalidCharacter c i))
      | Some (Inr decoded) \<Rightarrow> Some (stringFromUTF8Bytes ''decode Base62 string'' decoded))"

text \<open>The regular expression of hyphenated UUID text.\<close>

definition isHexDigit :: "byte \<Rightarrow> bool" where
  "isHexDigit c \<longleftrightarrow> inRange 0x30 0x39 c \<or> inRange 0x41 0x46 c \<or> inRange 0x61 0x66 c"

definition uuidTextPattern :: "byte list \<Rightarrow> bool" where
  "uuidTextPattern s \<longleftrightarrow>
     length s = 36 \<and>
     list_all isHexDigit (take 8 s) \<and> s ! 8 = 0x2D \<and>
     list_all isHexDigit (take 4 (drop 9 s)) \<and> s ! 13 = 0x2D \<and>
     list_all isHexDigit (take 4 (drop 14 s)) \<and> s ! 18 = 0x2D \<and>
     list_all isHexDigit (take 4 (drop 19 s)) \<and> s ! 23 = 0x2D \<and>
     list_all isHexDigit (drop 24 s)"

type_synonym uuidParser = "byte list \<Rightarrow> unit go_error + byte list"

definition IsUUID :: "uuidParser \<Rightarrow> byte list \<Rightarrow> bool" where
  "IsUUID parse s =
     (if \<not> uuidTextPattern s then False
      else case parse s of Inl err \<Rightarrow> False | Inr u \<Rightarrow> True)"

definition CanonicalUUID ::
  "uuidParser \<Rightarrow> (byte list \<Rightarrow> byte list) \<Rightarrow> byte list \<Rightarrow> unit go_error + byte list" where
  "CanonicalUUID parse str s =
     (if \<not> IsUUID parse s then
        Inl (Wrapped ''must be hyphenated UUID text'' [Sentinel ErrInvalidArgument])
      else case parse s of
             Inl err \<Rightarrow> Inl (Wrapped ''parse failed'' [Sentinel ErrInvalidArgument, err])
           | Inr parsed \<Rightarrow> Inr (str parsed))"

definition RequireUUID :: "uuidParser \<Rightarrow> string \<Rightarrow> byte list \<Rightarrow> unit go_error option" where
  "RequireUUID parse name s =
     (if \<not> IsUUID parse s then Some (Wrapped name [Sentinel ErrInvalidArgument]) else None)"

definition ZeroUUID :: "byte list" where
  "ZeroUUID = bytesOf ''00000000-0000-0000-0000-000000000000''"

definition IsZeroUUID :: "uuidParser \<Rightarrow> (byte list \<Rightarrow> byte list) \<Rightarrow> byte list \<Rightarrow> bool" where
  "IsZeroUUID parse str s =
     (case CanonicalUUID parse str s of Inl err \<Rightarrow> False | Inr canonical \<Rightarrow> canonical = ZeroUUID)"

definition trimZeros :: "byte list \<Rightarrow> byte list" where
  "trimZeros = dropWhile (\<lambda>b. b = 0)"

definition EncodeUUIDURL62 ::
  "uuidParser \<Rightarrow> (byte list \<Rightarrow> byte list) \<Rightarrow> byte list \<Rightarrow> (unit go_error + byte list) option" where
  "EncodeUUIDURL62 parse str s =
     (case CanonicalUUID parse str s of
        Inl err \<Rightarrow> Some (Inl (Wrapped ''encode UUID URL62'' [err]))
      | Inr canonical \<Rightarrow>
          (case parse canonical of
             Inl err \<Rightarrow> Some (Inl (Wrapped ''parse failed'' [Sentinel ErrInvalidArgument, err]))
           | Inr parsed \<Rightarrow>
               let numericBytes = trimZeros parsed
               in if numericBytes = [] then Some (Inr [0x30])
                  else map_option Inr (EncodeURL62 numericBytes)))"

definition invalidArgument :: "string \<Rightarrow> unit go_error" where
  "invalidArgument m = Wrapped m [Sentinel ErrInvalidArgument]"

definition DecodeUUIDURL62 ::
  "(byte list \<Rightarrow> byte list) \<Rightarrow> byte list \<Rightarrow> (unit go_error + byte list) option" where
  "DecodeUUIDURL62 str s =
     (if blank s then Some (Inl (invalidArgument ''URL62 UUID must not be blank''))
      else if 22 < length s then Some (Inl (invalidArgument ''exceeds compact UUID length''))
      else case DecodeURL62 s of
             None \<Rightarrow> None
           | Some (Inl ci) \<Rightarrow>
               Some (Inl (Wrapped ''decode failed'' [Sentinel ErrInvalidArgument, Message ''invalid character'']))
           | Some (Inr decoded) \<Rightarrow>
               if 16 < length decoded then Some (Inl (invalidArgument ''exceeds 128-bit UUID size''))
               else
                 let parsed = replicate (16 - length decoded) 0 @ decoded
                 in case EncodeURL62 (trimZeros parsed) of
                      None \<Rightarrow> None
                    | Some canonical \<Rightarrow>
                        if canonical \<noteq> s then
                          (if parsed = replicate 16 0 \<and> s = [0x30] then Some (Inr (str parsed))
                           else Some (Inl (invalidArgument ''is not canonical'')))
                        else Some (Inr (str parsed)))"

section \<open>String variants\<close>

lemma stringFromUTF8Bytes_Inr: "stringFromUTF8Bytes m d = Inr t \<longleftrightarrow> utf8Valid d \<and> t = d"
  by (auto simp: stringFromUTF8Bytes_def)

lemma DecodeBase58String_Inr:
  "DecodeBase58String s = Some (Inr t) \<longleftrightarrow> EncodeBase58 t = Some s \<and> utf8Valid t"
  unfolding b58.dec_enc_iff
  by (auto simp: DecodeBase58String_def stringFromUTF8Bytes_Inr split: option.splits sum.splits)

lemma DecodeBase62String_Inr:
  "DecodeBase62String s = Some (Inr t) \<longleftrightarrow> EncodeBase62 t = Some s \<and> utf8Valid t"
  unfolding b62.dec_enc_iff
  by (auto simp: DecodeBase62String_def stringFromUTF8Bytes_Inr split: option.splits sum.splits)

text \<open>
  The string decoders return a text exactly when the input is its encoding and the text
  is valid UTF-8: a text survives the round trip if and only if it is valid UTF-8.
\<close>

theorem base_string_roundtrip:
  "(DecodeBase58String s = Some (Inr t) \<longleftrightarrow> EncodeBase58String t = Some s \<and> utf8Valid t) \<and>
   (DecodeBase62String s = Some (Inr t) \<longleftrightarrow> EncodeBase62String t = Some s \<and> utf8Valid t)"
  by (simp add: DecodeBase58String_Inr DecodeBase62String_Inr EncodeBase58String_def
      EncodeBase62String_def)

section \<open>Compact UUID text\<close>

text \<open>
  What the package \<^verbatim>\<open>uuid\<close> documents: a parsed UUID has sixteen bytes, its text has the
  hyphenated form and parses to the same UUID.
\<close>

definition uuid_laws :: "uuidParser \<Rightarrow> (byte list \<Rightarrow> byte list) \<Rightarrow> bool" where
  "uuid_laws parse str \<longleftrightarrow>
     (\<forall>s u. parse s = Inr u \<longrightarrow> length u = 16) \<and>
     (\<forall>u. length u = 16 \<longrightarrow> uuidTextPattern (str u) \<and> parse (str u) = Inr u)"

lemma CanonicalUUID_Inr:
  "CanonicalUUID parse str s = Inr c \<longleftrightarrow> uuidTextPattern s \<and> (\<exists>u. parse s = Inr u \<and> c = str u)"
  by (auto simp: CanonicalUUID_def IsUUID_def split: sum.splits if_splits)

lemma trimZeros_lead: "trimZeros u = [] \<or> hd (trimZeros u) \<noteq> 0"
  using hd_dropWhile[of "\<lambda>b. b = 0" u] by (auto simp: trimZeros_def)

lemma trimZeros_pad: "replicate (length u - length (trimZeros u)) 0 @ trimZeros u = u"
proof -
  have "takeWhile (\<lambda>b. b = 0) u = replicate (length (takeWhile (\<lambda>b. b = 0) u)) 0"
    by (rule replicate_eqI[symmetric, THEN sym]) (auto dest: set_takeWhileD)
  moreover have "length (takeWhile (\<lambda>b. b = 0) u) + length (trimZeros u) = length u"
    unfolding trimZeros_def by (metis length_append takeWhile_dropWhile_id)
  ultimately show ?thesis
    unfolding trimZeros_def by (metis add_diff_cancel_right' takeWhile_dropWhile_id)
qed

lemma length_trimZeros: "length (trimZeros u) \<le> length u"
  by (simp add: trimZeros_def length_dropWhile_le)

lemma EncodeURL62_digits:
  assumes "rest = [] \<or> hd rest \<noteq> 0"
  shows "EncodeURL62 rest = Some (map ((!) base62Alphabet) (digs 62 (val 256 rest)))"
  using encode_canonical[of base62 rest 0] assms base62_facts base62_length
  by (simp add: EncodeURL62_def EncodeBase62_def)

lemma base62_not_space: "c \<in> set base62Alphabet \<Longrightarrow> \<not> blank (c # s)"
  by (simp add: base62Alphabet_def bytesOf_def) (elim disjE; simp add: inRange_def split: list.splits)

lemma digs62_length: "length u \<le> 16 \<Longrightarrow> length (digs 62 (val 256 u)) \<le> 22"
proof (rule ccontr)
  assume u: "length u \<le> 16" and "\<not> length (digs 62 (val 256 u)) \<le> 22"
  then have long: "22 \<le> length (digs 62 (val 256 u)) - 1" and pos: "0 < val 256 u"
    by (auto intro: Nat.gr0I)
  have "(62 :: nat) ^ 22 \<le> 62 ^ (length (digs 62 (val 256 u)) - 1)" using long by (rule power_increasing) simp
  also have "\<dots> \<le> val 256 u" using digs_power[of 62] pos by simp
  also have "\<dots> < 256 ^ length u" by (rule val_bound) simp
  also have "\<dots> \<le> 256 ^ 16" using u by (rule power_increasing) simp
  finally show False by simp
qed

text \<open>The text of a non-zero UUID: accepted by the decoder's guards and read back in full.\<close>

lemma encoded_uuid:
  assumes "length u = 16" "trimZeros u \<noteq> []"
  obtains s where "EncodeURL62 (trimZeros u) = Some s" "DecodeURL62 s = Some (Inr (trimZeros u))"
    "\<not> blank s" "length s \<le> 22"
proof -
  let ?s = "map ((!) base62Alphabet) (digs 62 (val 256 (trimZeros u)))"
  have e: "EncodeURL62 (trimZeros u) = Some ?s" using trimZeros_lead by (rule EncodeURL62_digits)
  then have d: "DecodeURL62 ?s = Some (Inr (trimZeros u))"
    by (simp add: EncodeURL62_def DecodeURL62_def b62.dec_enc_iff)
  have "?s \<noteq> []" using d assms(2) by (auto simp: DecodeURL62_def DecodeBase62_def decode_def)
  then obtain k ks where k: "digs 62 (val 256 (trimZeros u)) = k # ks"
    by (cases "digs 62 (val 256 (trimZeros u))") auto
  then have "k < 62" using digs_less[of k 62 "val 256 (trimZeros u)"] by simp
  then have "base62Alphabet ! k \<in> set base62Alphabet" using base62_length by simp
  then have "\<not> blank ?s" unfolding k list.map by (rule base62_not_space)
  moreover have "length ?s \<le> 22"
    using digs62_length[of "trimZeros u"] length_trimZeros[of u] assms(1) by simp
  ultimately show thesis using that e d by blast
qed

lemma zero_text:
  "DecodeURL62 [0x30] = Some (Inr [0])" "\<not> blank [0x30]" "EncodeURL62 [] = Some []"
proof -
  have "EncodeURL62 [0] = Some [0x30]"
    using encode_canonical[of base62 "[]" 1] base62_facts base62_length
    by (simp add: EncodeURL62_def EncodeBase62_def base62Alphabet_def bytesOf_def)
  then show "DecodeURL62 [0x30] = Some (Inr [0])"
    by (simp add: EncodeURL62_def DecodeURL62_def b62.dec_enc_iff)
qed (simp_all add: inRange_def EncodeURL62_def EncodeBase62_def encode_def)

lemma trimZeros_Nil_iff: "length u = 16 \<Longrightarrow> trimZeros u = [] \<longleftrightarrow> u = replicate 16 0"
  by (auto simp: trimZeros_def dropWhile_eq_Nil_conv intro: replicate_eqI)

lemma EncodeUUIDURL62_parsed:
  assumes laws: "uuid_laws parse str" and u: "length u = 16"
  shows "EncodeUUIDURL62 parse str (str u) =
    (if trimZeros u = [] then Some (Inr [0x30]) else map_option Inr (EncodeURL62 (trimZeros u)))"
  using assms by (auto simp: EncodeUUIDURL62_def uuid_laws_def CanonicalUUID_def IsUUID_def Let_def)

lemma DecodeUUIDURL62_encoded:
  assumes u: "length u = 16"
    and enc: "(if trimZeros u = [] then Some [0x30] else EncodeURL62 (trimZeros u)) = Some s"
  shows "DecodeUUIDURL62 str s = Some (Inr (str u))"
proof (cases "trimZeros u = []")
  case True
  then have "u = replicate 16 0" "s = [0x30]" using u enc by (simp_all add: trimZeros_Nil_iff)
  moreover have "replicate 15 0 @ [0] = replicate 16 (0 :: byte)"
    using replicate_add[of 15 1 "0 :: byte"] by simp
  ultimately show ?thesis using True zero_text
    by (simp add: DecodeUUIDURL62_def Let_def del: blank.simps)
next
  case False
  then obtain t where t: "EncodeURL62 (trimZeros u) = Some t" "DecodeURL62 t = Some (Inr (trimZeros u))"
    "\<not> blank t" "length t \<le> 22" using encoded_uuid[OF u] by blast
  have "s = t" using enc t(1) False by simp
  moreover have "replicate (16 - length (trimZeros u)) 0 @ trimZeros u = u"
    using trimZeros_pad[of u] u by simp
  moreover have "length (trimZeros u) \<le> 16" using length_trimZeros[of u] u by simp
  ultimately show ?thesis using t by (simp add: DecodeUUIDURL62_def Let_def)
qed

lemma DecodeUUIDURL62_Inr:
  assumes "DecodeUUIDURL62 str s = Some (Inr c)"
  obtains u where "length u = 16" "c = str u"
    "(if trimZeros u = [] then Some [0x30] else EncodeURL62 (trimZeros u)) = Some s"
proof -
  have nb: "\<not> blank s" using assms by (auto simp: DecodeUUIDURL62_def)
  then have ne: "s \<noteq> []" by auto
  obtain d where d: "DecodeURL62 s = Some (Inr d)"
    using assms by (auto simp: DecodeUUIDURL62_def split: if_splits option.splits sum.splits)
  define u where "u = replicate (16 - length d) 0 @ d"
  have l: "length d \<le> 16"
    using assms d by (auto simp: DecodeUUIDURL62_def split: if_splits)
  then have u: "length u = 16" by (simp add: u_def)
  have lead: "EncodeURL62 (trimZeros u) \<noteq> None"
    by (simp add: EncodeURL62_digits[OF trimZeros_lead])
  have r: "c = str u \<and> (EncodeURL62 (trimZeros u) = Some s \<or> u = replicate 16 0 \<and> s = [0x30])"
    using assms d lead
    by (auto simp: DecodeUUIDURL62_def u_def Let_def split: if_splits option.splits)
  have "trimZeros u = [] \<Longrightarrow> EncodeURL62 (trimZeros u) \<noteq> Some s"
    using ne zero_text(3) by auto
  then have "(if trimZeros u = [] then Some [0x30] else EncodeURL62 (trimZeros u)) = Some s"
    using r u by (auto simp: trimZeros_Nil_iff)
  with r u that show thesis by blast
qed

text \<open>
  C25. The compact UUID text is a bijection: a UUID text encodes to a text of at most 22
  characters that decodes to the canonical form of the UUID, and every accepted compact text
  is the encoding of the UUID it decodes to. The hypothesis is what the \<^verbatim>\<open>uuid\<close> package
  documents.
\<close>

theorem uuid_url62_bijection:
  assumes laws: "uuid_laws parse str"
  shows "(CanonicalUUID parse str v = Inr c \<longrightarrow>
            (\<exists>s. EncodeUUIDURL62 parse str v = Some (Inr s) \<and> length s \<le> 22 \<and>
                 DecodeUUIDURL62 str s = Some (Inr c))) \<and>
         (DecodeUUIDURL62 str s = Some (Inr c) \<longrightarrow> EncodeUUIDURL62 parse str c = Some (Inr s))"
proof (intro conjI impI)
  assume "CanonicalUUID parse str v = Inr c"
  then obtain u where v: "uuidTextPattern v" "parse v = Inr u" "c = str u"
    by (auto simp: CanonicalUUID_Inr)
  then have u: "length u = 16" using laws by (auto simp: uuid_laws_def)
  have same: "EncodeUUIDURL62 parse str v = EncodeUUIDURL62 parse str (str u)"
    using v u laws by (auto simp: EncodeUUIDURL62_def CanonicalUUID_def IsUUID_def uuid_laws_def)
  show "\<exists>s. EncodeUUIDURL62 parse str v = Some (Inr s) \<and> length s \<le> 22 \<and>
          DecodeUUIDURL62 str s = Some (Inr c)"
  proof (cases "trimZeros u = []")
    case True
    then show ?thesis using DecodeUUIDURL62_encoded[OF u, of "[0x30]"] v(3) same
      by (simp add: EncodeUUIDURL62_parsed[OF laws u])
  next
    case False
    then obtain s where "EncodeURL62 (trimZeros u) = Some s" "length s \<le> 22"
      using encoded_uuid[OF u] by blast
    then show ?thesis using DecodeUUIDURL62_encoded[OF u, of s] False v(3) same
      by (simp add: EncodeUUIDURL62_parsed[OF laws u])
  qed
next
  assume "DecodeUUIDURL62 str s = Some (Inr c)"
  then obtain u where "length u = 16" "c = str u"
    "(if trimZeros u = [] then Some [0x30] else EncodeURL62 (trimZeros u)) = Some s"
    by (rule DecodeUUIDURL62_Inr)
  then show "EncodeUUIDURL62 parse str c = Some (Inr s)"
    using EncodeUUIDURL62_parsed[OF laws, of u] by (simp split: if_splits)
qed

text \<open>The hexadecimal form of RFC 4122, at which the hypothesis is shown to hold.\<close>

definition hexDigit :: "nat \<Rightarrow> byte" where
  "hexDigit n = (if n < 10 then of_nat (48 + n) else of_nat (87 + n))"

definition unhexDigit :: "byte \<Rightarrow> nat" where
  "unhexDigit c =
     (if unat c < 58 then unat c - 48 else if unat c < 71 then unat c - 55 else unat c - 87)"

fun hexText :: "byte list \<Rightarrow> byte list" where
  "hexText [] = []"
| "hexText (b # bs) = hexDigit (unat b div 16) # hexDigit (unat b mod 16) # hexText bs"

fun unhexText :: "byte list \<Rightarrow> byte list" where
  "unhexText (h # l # s) = of_nat (16 * unhexDigit h + unhexDigit l) # unhexText s"
| "unhexText _ = []"

definition rfcString :: "byte list \<Rightarrow> byte list" where
  "rfcString u = hexText (take 4 u) @ [0x2D] @ hexText (take 2 (drop 4 u)) @ [0x2D] @
     hexText (take 2 (drop 6 u)) @ [0x2D] @ hexText (take 2 (drop 8 u)) @ [0x2D] @ hexText (drop 10 u)"

definition rfcParse :: uuidParser where
  "rfcParse s =
     (if uuidTextPattern s then
        Inr (unhexText (take 8 s @ take 4 (drop 9 s) @ take 4 (drop 14 s) @ take 4 (drop 19 s) @ drop 24 s))
      else Inl (Message ''invalid UUID format''))"

lemma unat_hexDigit: "n < 16 \<Longrightarrow> unat (hexDigit n) = (if n < 10 then 48 + n else 87 + n)"
  using unat_byte_of_nat[of "48 + n"] unat_byte_of_nat[of "87 + n"]
  by (simp add: hexDigit_def del: of_nat_add)

lemma hexDigit_ok: "n < 16 \<Longrightarrow> isHexDigit (hexDigit n) \<and> unhexDigit (hexDigit n) = n"
  by (simp add: isHexDigit_def unhexDigit_def inRange_def unat_hexDigit)

lemma length_hexText [simp]: "length (hexText u) = 2 * length u"
  by (induction u) simp_all

lemma hexText_ok: "list_all isHexDigit (hexText u)"
  by (induction u) (simp_all add: hexDigit_ok less_mult_imp_div_less)

lemma unhexText_hexText: "unhexText (hexText u @ s) = u @ unhexText s"
  by (induction u) (simp_all add: hexDigit_ok less_mult_imp_div_less)

lemma length_unhexText: "length (unhexText s) = length s div 2"
  by (induction s rule: unhexText.induct) simp_all

lemma rfc_laws: "uuid_laws rfcParse rfcString"
  unfolding uuid_laws_def
proof (intro conjI allI impI)
  fix s u
  assume "rfcParse s = Inr u"
  then show "length u = 16"
    by (auto simp: rfcParse_def uuidTextPattern_def length_unhexText split: if_splits)
next
  fix u :: "byte list"
  assume u: "length u = 16"
  then show pat: "uuidTextPattern (rfcString u)"
    using hexText_ok by (simp add: uuidTextPattern_def rfcString_def nth_append)
  have "take 4 u @ take 2 (drop 4 u) @ take 2 (drop 6 u) @ take 2 (drop 8 u) @ drop 10 u = u"
    using append_take_drop_id[of 2 "drop 4 u"] append_take_drop_id[of 2 "drop 6 u"]
      append_take_drop_id[of 2 "drop 8 u"] append_take_drop_id[of 4 u] by simp
  then show "rfcParse (rfcString u) = Inr u"
    using u pat unhexText_hexText[of _ "[]"]
    by (simp add: rfcParse_def rfcString_def unhexText_hexText)
qed

theorem uuid_url62_bijection_witness:
  "let v = bytesOf ''00000000-0000-0000-0000-00000000002A''
   in \<exists>s. EncodeUUIDURL62 rfcParse rfcString v = Some (Inr s) \<and> length s \<le> 22 \<and>
        DecodeUUIDURL62 rfcString s = Some (Inr (bytesOf ''00000000-0000-0000-0000-00000000002a''))"
proof -
  have "CanonicalUUID rfcParse rfcString (bytesOf ''00000000-0000-0000-0000-00000000002A'') =
      Inr (bytesOf ''00000000-0000-0000-0000-00000000002a'')"
    by code_simp
  then show ?thesis using uuid_url62_bijection[OF rfc_laws] by (simp add: Let_def)
qed

end
