(* ===== verification/Buffers.thy ===== *)
theory Buffers
  imports Go_Prelude
begin

text \<open>
  The bounded buffers of package \<^verbatim>\<open>collections\<close>: \<^verbatim>\<open>RingBuffer\<close>
  (\<^verbatim>\<open>collections/ring_buffer.go\<close>) and \<^verbatim>\<open>BoundedStack\<close> (\<^verbatim>\<open>collections/bounded_stack.go\<close>). A
  receiver is a pointer: \<open>None\<close> is nil. The zero value of the element type is the parameter
  \<open>zero\<close>; a pair of a value and a boolean is Go's comma-ok result. The locale \<open>recent_buffer\<close>
  states what both buffers promise: they keep the most recent values.
\<close>

section \<open>Ring buffer\<close>

definition ErrInvalidArgument :: string where
  "ErrInvalidArgument = ''collections: invalid argument''"

definition invalidArg :: "string \<Rightarrow> unit go_error" where
  "invalidArg m = Wrapped m [Sentinel ErrInvalidArgument]"

record 'a ringBuffer =
  rb_values :: "'a list"
  rb_start :: nat
  rb_length :: nat
  rb_capacity :: nat

definition NewRingBuffer :: "'a \<Rightarrow> int \<Rightarrow> unit go_error + 'a ringBuffer" where
  "NewRingBuffer zero capacity =
     (if capacity \<le> 0 then Inl (invalidArg ''ring buffer capacity must be positive'')
      else Inr \<lparr>rb_values = replicate (nat capacity) zero, rb_start = 0, rb_length = 0,
                rb_capacity = nat capacity\<rparr>)"

definition rbCapacity :: "'a ringBuffer option \<Rightarrow> nat" where
  "rbCapacity r = (case r of None \<Rightarrow> 0 | Some b \<Rightarrow> rb_capacity b)"

definition rbLen :: "'a ringBuffer option \<Rightarrow> nat" where
  "rbLen r = (case r of None \<Rightarrow> 0 | Some b \<Rightarrow> rb_length b)"

definition rbEmpty :: "'a ringBuffer option \<Rightarrow> bool" where
  "rbEmpty r \<longleftrightarrow> rbLen r = 0"

definition rbAdd :: "'a ringBuffer option \<Rightarrow> 'a \<Rightarrow> 'a ringBuffer option" where
  "rbAdd r v =
     (case r of
        None \<Rightarrow> None
      | Some b \<Rightarrow>
          Some (if rb_capacity b \<le> 0 then b
                else if rb_length b < rb_capacity b then
                  (let index = (rb_start b + rb_length b) mod rb_capacity b
                   in b\<lparr>rb_values := (rb_values b)[index := v], rb_length := rb_length b + 1\<rparr>)
                else
                  b\<lparr>rb_values := (rb_values b)[rb_start b := v],
                    rb_start := (rb_start b + 1) mod rb_capacity b\<rparr>))"

fun rbAddAll :: "'a ringBuffer option \<Rightarrow> 'a list \<Rightarrow> 'a ringBuffer option" where
  "rbAddAll r [] = r"
| "rbAddAll r (v # vs) = rbAddAll (rbAdd r v) vs"

definition rbAt :: "'a \<Rightarrow> 'a ringBuffer option \<Rightarrow> int \<Rightarrow> 'a \<times> bool" where
  "rbAt zero r index =
     (case r of
        None \<Rightarrow> (zero, False)
      | Some b \<Rightarrow>
          if index < 0 \<or> int (rb_length b) \<le> index then (zero, False)
          else (rb_values b ! ((rb_start b + nat index) mod rb_capacity b), True))"

text \<open>\<^verbatim>\<open>Values\<close> of a nil receiver is the nil slice, here the empty list.\<close>

definition rbValues :: "'a ringBuffer option \<Rightarrow> 'a list" where
  "rbValues r =
     (case r of
        None \<Rightarrow> []
      | Some b \<Rightarrow>
          map (\<lambda>index. rb_values b ! ((rb_start b + index) mod rb_capacity b)) [0..<rb_length b])"

text \<open>The loop that overwrites the first \<open>n\<close> slots from \<open>start\<close> on with the zero value.\<close>

definition zeroSlots :: "'a \<Rightarrow> nat \<Rightarrow> nat \<Rightarrow> nat \<Rightarrow> 'a list \<Rightarrow> 'a list" where
  "zeroSlots zero start capacity n vs =
     fold (\<lambda>index vs. vs[(start + index) mod capacity := zero]) [0..<n] vs"

definition rbClear :: "'a \<Rightarrow> 'a ringBuffer option \<Rightarrow> 'a ringBuffer option" where
  "rbClear zero r =
     (case r of
        None \<Rightarrow> None
      | Some b \<Rightarrow>
          Some (b\<lparr>rb_values := zeroSlots zero (rb_start b) (rb_capacity b) (rb_length b) (rb_values b),
                  rb_start := 0, rb_length := 0\<rparr>))"

definition rbDrop ::
  "'a \<Rightarrow> 'a ringBuffer option \<Rightarrow> int \<Rightarrow> unit go_error option \<times> 'a ringBuffer option" where
  "rbDrop zero r n =
     (if n < 0 then (Some (invalidArg ''drop count must be non-negative''), r)
      else case r of
             None \<Rightarrow> (None, r)
           | Some b \<Rightarrow>
               if n = 0 then (None, r)
               else if int (rb_length b) \<le> n then (None, rbClear zero r)
               else
                 (None, Some (b\<lparr>rb_values := zeroSlots zero (rb_start b) (rb_capacity b) (nat n) (rb_values b),
                                rb_start := (rb_start b + nat n) mod rb_capacity b,
                                rb_length := rb_length b - nat n\<rparr>)))"

section \<open>Bounded stack\<close>

record 'a boundedStack =
  bs_values :: "'a list"
  bs_capacity :: nat

definition NewBoundedStack :: "int \<Rightarrow> unit go_error + 'a boundedStack" where
  "NewBoundedStack capacity =
     (if capacity \<le> 0 then Inl (invalidArg ''bounded stack capacity must be positive'')
      else Inr \<lparr>bs_values = [], bs_capacity = nat capacity\<rparr>)"

definition bsCapacity :: "'a boundedStack option \<Rightarrow> nat" where
  "bsCapacity s = (case s of None \<Rightarrow> 0 | Some b \<Rightarrow> bs_capacity b)"

definition bsLen :: "'a boundedStack option \<Rightarrow> nat" where
  "bsLen s = (case s of None \<Rightarrow> 0 | Some b \<Rightarrow> length (bs_values b))"

definition bsEmpty :: "'a boundedStack option \<Rightarrow> bool" where
  "bsEmpty s \<longleftrightarrow> bsLen s = 0"

text \<open>\<^verbatim>\<open>copy(vs, vs[overflow:])\<close>: the tail moves to the front, the rest stays.\<close>

definition copyDown :: "nat \<Rightarrow> 'a list \<Rightarrow> 'a list" where
  "copyDown overflow vs = drop overflow vs @ drop (length vs - overflow) vs"

definition bsPush :: "'a \<Rightarrow> 'a boundedStack option \<Rightarrow> 'a \<Rightarrow> 'a boundedStack option" where
  "bsPush zero s v =
     (case s of
        None \<Rightarrow> None
      | Some b \<Rightarrow>
          if bs_capacity b \<le> 0 then s
          else
            let vs = bs_values b @ [v]
            in if bs_capacity b < length vs then
                 let overflow = length vs - bs_capacity b;
                     moved = copyDown overflow vs;
                     zeroed = fold (\<lambda>index ws. ws[index := zero]) [bs_capacity b..<length moved] moved
                 in Some (b\<lparr>bs_values := take (bs_capacity b) zeroed\<rparr>)
               else Some (b\<lparr>bs_values := vs\<rparr>))"

fun bsPushAll :: "'a \<Rightarrow> 'a boundedStack option \<Rightarrow> 'a list \<Rightarrow> 'a boundedStack option" where
  "bsPushAll zero s [] = s"
| "bsPushAll zero s (v # vs) = bsPushAll zero (bsPush zero s v) vs"

definition bsPop :: "'a \<Rightarrow> 'a boundedStack option \<Rightarrow> ('a \<times> bool) \<times> 'a boundedStack option" where
  "bsPop zero s =
     (case s of
        None \<Rightarrow> ((zero, False), s)
      | Some b \<Rightarrow>
          if length (bs_values b) = 0 then ((zero, False), s)
          else
            let last = length (bs_values b) - 1
            in ((bs_values b ! last, True),
                Some (b\<lparr>bs_values := take last ((bs_values b)[last := zero])\<rparr>)))"

definition bsPeek :: "'a \<Rightarrow> 'a boundedStack option \<Rightarrow> 'a \<times> bool" where
  "bsPeek zero s =
     (case s of
        None \<Rightarrow> (zero, False)
      | Some b \<Rightarrow>
          if length (bs_values b) = 0 then (zero, False)
          else (bs_values b ! (length (bs_values b) - 1), True))"

definition bsAt :: "'a \<Rightarrow> 'a boundedStack option \<Rightarrow> int \<Rightarrow> 'a \<times> bool" where
  "bsAt zero s index =
     (case s of
        None \<Rightarrow> (zero, False)
      | Some b \<Rightarrow>
          if index < 0 \<or> int (length (bs_values b)) \<le> index then (zero, False)
          else (bs_values b ! (length (bs_values b) - 1 - nat index), True))"

definition bsValues :: "'a boundedStack option \<Rightarrow> 'a list" where
  "bsValues s =
     (case s of
        None \<Rightarrow> []
      | Some b \<Rightarrow>
          map (\<lambda>index. bs_values b ! (length (bs_values b) - 1 - index)) [0..<length (bs_values b)])"

definition bsClear :: "'a boundedStack option \<Rightarrow> 'a boundedStack option" where
  "bsClear s = (case s of None \<Rightarrow> None | Some b \<Rightarrow> Some (b\<lparr>bs_values := []\<rparr>))"

section \<open>The contract of both buffers\<close>

text \<open>
  A buffer of capacity \<open>n\<close> holds the last \<open>n\<close> values added, oldest first.
\<close>

locale recent_buffer =
  fixes wf :: "'b \<Rightarrow> bool"
    and cap :: "'b \<Rightarrow> nat"
    and contents :: "'b \<Rightarrow> 'a list"
    and add :: "'b \<Rightarrow> 'a \<Rightarrow> 'b"
  assumes wf_add: "wf b \<Longrightarrow> wf (add b x)"
    and cap_add: "wf b \<Longrightarrow> cap (add b x) = cap b"
    and contents_add: "wf b \<Longrightarrow> contents (add b x) = lastn (cap b) (contents b @ [x])"
    and contents_bound: "wf b \<Longrightarrow> length (contents b) \<le> cap b"
begin

lemma add_all:
  "wf b \<Longrightarrow> wf (foldl add b xs) \<and> cap (foldl add b xs) = cap b \<and>
     contents (foldl add b xs) = lastn (cap b) (contents b @ xs)"
proof (induction xs arbitrary: b)
  case Nil
  then show ?case using contents_bound by (simp add: lastn_id)
next
  case (Cons x xs)
  then show ?case
    using Cons.IH[OF wf_add[OF Cons.prems, of x]] lastn_append_lastn[of "cap b" "contents b @ [x]" xs]
    by (simp add: cap_add contents_add)
qed

lemma add_all_empty: "wf b \<Longrightarrow> contents b = [] \<Longrightarrow> contents (foldl add b xs) = lastn (cap b) xs"
  using add_all by simp

end

section \<open>The ring buffer keeps the most recent values\<close>

text \<open>
  Either the zero value of the struct, or a buffer whose slots and indices are in range: every
  access of the methods is within \<^verbatim>\<open>values\<close>.
\<close>

definition wf_ring :: "'a ringBuffer option \<Rightarrow> bool" where
  "wf_ring r \<longleftrightarrow>
     (case r of
        None \<Rightarrow> True
      | Some b \<Rightarrow>
          length (rb_values b) = rb_capacity b \<and> rb_length b \<le> rb_capacity b \<and>
          (if rb_capacity b = 0 then rb_start b = 0 else rb_start b < rb_capacity b))"

lemma slot_neq:
  "i < j \<Longrightarrow> j < (c :: nat) \<Longrightarrow> (s + i) mod c \<noteq> (s + j) mod c"
proof
  assume ij: "i < j" "j < c" and "(s + i) mod c = (s + j) mod c"
  then have "c dvd (s + j) - (s + i)" by (metis mod_eq_dvd_iff_nat nat_add_left_cancel_le less_imp_le)
  then have "c dvd j - i" by simp
  with ij show False by (simp add: nat_dvd_not_less)
qed

lemma length_rbValues: "length (rbValues r) = rbLen r"
  by (cases r) (simp_all add: rbValues_def rbLen_def)

lemma rbValues_nth:
  "i < rb_length b \<Longrightarrow> rbValues (Some b) ! i = rb_values b ! ((rb_start b + i) mod rb_capacity b)"
  by (simp add: rbValues_def)

lemma rbAdd_grow:
  assumes wf: "wf_ring (Some b)" and room: "rb_length b < rb_capacity b"
  shows "rbValues (rbAdd (Some b) v) = rbValues (Some b) @ [v]"
proof (rule nth_equalityI)
  have l: "length (rb_values b) = rb_capacity b" and c: "0 < rb_capacity b"
    using wf room by (simp_all add: wf_ring_def)
  fix i assume "i < length (rbValues (rbAdd (Some b) v))"
  then have i: "i \<le> rb_length b" using room by (simp add: length_rbValues rbLen_def rbAdd_def Let_def)
  show "rbValues (rbAdd (Some b) v) ! i = (rbValues (Some b) @ [v]) ! i"
  proof (cases "i = rb_length b")
    case True
    then show ?thesis using room l c
      by (simp add: rbValues_def rbAdd_def Let_def nth_append)
  next
    case False
    with i have "i < rb_length b" by simp
    then show ?thesis using room l c slot_neq[of i "rb_length b" "rb_capacity b" "rb_start b"]
      by (simp add: rbValues_def rbAdd_def Let_def nth_append)
  qed
qed (use room in \<open>simp add: length_rbValues rbLen_def rbAdd_def Let_def\<close>)

lemma rbAdd_full:
  assumes wf: "wf_ring (Some b)" and full: "rb_length b = rb_capacity b" and pos: "0 < rb_capacity b"
  shows "rbValues (rbAdd (Some b) v) = tl (rbValues (Some b)) @ [v]"
proof (rule nth_equalityI)
  let ?c = "rb_capacity b" and ?s = "rb_start b"
  have l: "length (rb_values b) = ?c" and s: "?s < ?c" using wf pos by (simp_all add: wf_ring_def)
  fix i assume "i < length (rbValues (rbAdd (Some b) v))"
  then have i: "i < ?c" using full pos by (simp add: length_rbValues rbLen_def rbAdd_def Let_def)
  have lhs: "rbValues (rbAdd (Some b) v) ! i = ((rb_values b)[?s := v]) ! ((?s + Suc i) mod ?c)"
    using i full pos by (simp add: rbValues_def rbAdd_def mod_Suc_eq mod_simps)
  show "rbValues (rbAdd (Some b) v) ! i = (tl (rbValues (Some b)) @ [v]) ! i"
  proof (cases "Suc i = ?c")
    case True
    then have "(?s + Suc i) mod ?c = ?s" using s by simp
    then show ?thesis using lhs True[symmetric] full l s
      by (simp add: nth_append length_rbValues rbLen_def)
  next
    case False
    with i have si: "Suc i < ?c" by simp
    then have "(?s + Suc i) mod ?c \<noteq> ?s" using slot_neq[of 0 "Suc i" ?c ?s] s by simp
    moreover have "i < ?c - 1" using si by simp
    ultimately show ?thesis using lhs si full
      by (simp add: nth_append length_rbValues rbLen_def nth_tl rbValues_nth)
  qed
qed (use full pos in \<open>simp add: length_rbValues rbLen_def rbAdd_def Let_def\<close>)

lemma wf_rbAdd [step_inv]: "wf_ring r \<Longrightarrow> wf_ring (rbAdd r v)"
  by (cases r) (auto simp: wf_ring_def rbAdd_def Let_def)

lemma rbCapacity_rbAdd: "rbCapacity (rbAdd r v) = rbCapacity r"
  by (cases r) (simp_all add: rbCapacity_def rbAdd_def Let_def)

lemma rbAdd_recent:
  assumes "wf_ring r"
  shows "rbValues (rbAdd r v) = lastn (rbCapacity r) (rbValues r @ [v])"
proof (cases r)
  case None
  then show ?thesis by (simp add: rbValues_def rbAdd_def rbCapacity_def lastn_def)
next
  case (Some b)
  consider "rb_capacity b = 0" | "rb_length b < rb_capacity b" | "rb_length b = rb_capacity b" "0 < rb_capacity b"
    using assms Some by (fastforce simp: wf_ring_def)
  then show ?thesis
  proof cases
    case 1
    then show ?thesis using Some assms
      by (simp add: rbValues_def rbAdd_def rbCapacity_def lastn_def wf_ring_def)
  next
    case 2
    then show ?thesis using Some assms
      by (simp add: rbAdd_grow rbCapacity_def lastn_id length_rbValues rbLen_def)
  next
    case 3
    then show ?thesis using Some assms
      by (simp add: rbAdd_full rbCapacity_def lastn_snoc_full length_rbValues rbLen_def)
  qed
qed

lemma rbLen_bound: "wf_ring r \<Longrightarrow> rbLen r \<le> rbCapacity r"
  by (auto simp: wf_ring_def rbLen_def rbCapacity_def split: option.splits)

interpretation ring: recent_buffer wf_ring rbCapacity rbValues rbAdd
  by unfold_locales (simp_all add: wf_rbAdd rbCapacity_rbAdd rbAdd_recent length_rbValues rbLen_bound)

lemma rbAddAll_foldl: "rbAddAll r vs = foldl rbAdd r vs"
  by (induction r vs rule: rbAddAll.induct) simp_all

lemma length_zeroSlots [simp]: "length (zeroSlots zero s c n vs) = length vs"
  by (induction n) (simp_all add: zeroSlots_def)

lemma zeroSlots_other:
  "n \<le> k \<Longrightarrow> k < c \<Longrightarrow> zeroSlots zero s c n vs ! ((s + k) mod c) = vs ! ((s + k) mod c)"
proof (induction n)
  case (Suc n)
  then show ?case using slot_neq[of n k c s] by (simp add: zeroSlots_def)
qed (simp add: zeroSlots_def)

lemma wf_rbClear [step_inv]: "wf_ring r \<Longrightarrow> wf_ring (rbClear zero r)"
  by (cases r) (auto simp: wf_ring_def rbClear_def split: if_splits)

lemma wf_rbDrop [step_inv]: "wf_ring r \<Longrightarrow> wf_ring (snd (rbDrop zero r n))"
  using wf_rbClear[of r zero] by (cases r) (auto simp: wf_ring_def rbDrop_def split: if_splits)

lemma rbClear_values: "rbValues (rbClear zero r) = []"
  by (cases r) (simp_all add: rbValues_def rbClear_def)

lemma rbDrop_values:
  assumes wf: "wf_ring r" and n: "0 \<le> n"
  shows "fst (rbDrop zero r n) = None \<and> rbValues (snd (rbDrop zero r n)) = drop (nat n) (rbValues r)"
proof (cases r)
  case None
  then show ?thesis using n by (simp add: rbDrop_def rbValues_def)
next
  case (Some b)
  show ?thesis
  proof (cases "n = 0 \<or> int (rb_length b) \<le> n")
    case True
    then show ?thesis using n Some length_rbValues[of r]
      by (auto simp: rbDrop_def rbClear_values rbLen_def)
  next
    case False
    have "rbValues (snd (rbDrop zero r n)) = drop (nat n) (rbValues r)"
    proof (rule nth_equalityI)
      fix i assume "i < length (rbValues (snd (rbDrop zero r n)))"
      then have i: "nat n + i < rb_length b" using False n Some
        by (simp add: rbDrop_def length_rbValues rbLen_def)
      then have k: "nat n + i < rb_capacity b" and ix: "[0..<rb_length b - nat n] ! i = i"
        using wf Some by (simp_all add: wf_ring_def)
      show "rbValues (snd (rbDrop zero r n)) ! i = drop (nat n) (rbValues r) ! i"
        using i False n Some zeroSlots_other[OF _ k, of "nat n" zero "rb_start b" "rb_values b"] ix
        by (simp add: rbDrop_def rbValues_def mod_add_left_eq add.assoc)
    qed (use False n Some in \<open>simp add: rbDrop_def length_rbValues rbLen_def nat_diff_distrib\<close>)
    then show ?thesis using False n Some by (simp add: rbDrop_def)
  qed
qed

text \<open>
  C8. A ring buffer keeps the most recent values: after adding \<open>vs\<close> its values are the last
  \<^verbatim>\<open>capacity\<close> of the old values followed by \<open>vs\<close>; \<^verbatim>\<open>Drop\<close> removes the oldest \<open>n\<close>;
  \<^verbatim>\<open>At\<close> reads the position, with \<^verbatim>\<open>false\<close> outside; and the slots stay in range.
\<close>

theorem ring_buffer_recent:
  assumes wf: "wf_ring r" and n: "0 \<le> n"
  shows "wf_ring (rbAddAll r vs) \<and> wf_ring (snd (rbDrop zero r n)) \<and>
    rbValues (rbAddAll r vs) = lastn (rbCapacity r) (rbValues r @ vs) \<and>
    rbLen (rbAddAll r vs) = min (rbCapacity r) (rbLen r + length vs) \<and>
    fst (rbDrop zero r n) = None \<and>
    rbValues (snd (rbDrop zero r n)) = drop (nat n) (rbValues r) \<and>
    rbAt zero r i =
      (if 0 \<le> i \<and> i < int (rbLen r) then (rbValues r ! nat i, True) else (zero, False))"
proof (intro conjI)
  show vals: "rbValues (rbAddAll r vs) = lastn (rbCapacity r) (rbValues r @ vs)"
    "wf_ring (rbAddAll r vs)"
    using ring.add_all[OF wf] by (simp_all add: rbAddAll_foldl)
  show "rbLen (rbAddAll r vs) = min (rbCapacity r) (rbLen r + length vs)"
    using arg_cong[OF vals(1), of length] by (simp add: length_rbValues)
  show "fst (rbDrop zero r n) = None" "rbValues (snd (rbDrop zero r n)) = drop (nat n) (rbValues r)"
    using rbDrop_values[OF wf n] by auto
  show "rbAt zero r i =
      (if 0 \<le> i \<and> i < int (rbLen r) then (rbValues r ! nat i, True) else (zero, False))"
    by (cases r) (auto simp: rbAt_def rbLen_def rbValues_def)
qed (rule wf_rbDrop[OF wf])

theorem ring_buffer_recent_witness:
  "\<exists>r. NewRingBuffer (0 :: int) 3 = Inr r \<and>
     rbValues (rbAddAll (Some r) [1, 2, 3, 4, 5]) = [3, 4, 5]"
proof -
  let ?r = "\<lparr>rb_values = replicate 3 0, rb_start = 0, rb_length = 0, rb_capacity = 3\<rparr> :: int ringBuffer"
  have "wf_ring (Some ?r)" by (simp add: wf_ring_def)
  then have "rbValues (rbAddAll (Some ?r) [1, 2, 3, 4, 5]) =
      lastn (rbCapacity (Some ?r)) (rbValues (Some ?r) @ [1, 2, 3, 4, 5])"
    by (rule ring_buffer_recent[OF _ order_refl, THEN conjunct2, THEN conjunct2, THEN conjunct1])
  then show ?thesis
    by (simp add: NewRingBuffer_def rbCapacity_def rbValues_def lastn_def)
qed

section \<open>The bounded stack keeps the most recent values\<close>

definition wf_stack :: "'a boundedStack option \<Rightarrow> bool" where
  "wf_stack s \<longleftrightarrow> (case s of None \<Rightarrow> True | Some b \<Rightarrow> length (bs_values b) \<le> bs_capacity b)"

text \<open>The values bottom first; \<^verbatim>\<open>Values\<close> lists them top first.\<close>

definition bsContents :: "'a boundedStack option \<Rightarrow> 'a list" where
  "bsContents s = (case s of None \<Rightarrow> [] | Some b \<Rightarrow> bs_values b)"

lemma bsValues_rev: "bsValues s = rev (bsContents s)"
  by (cases s) (auto simp: bsValues_def bsContents_def rev_nth intro: nth_equalityI)

lemma take_fold_update: "take c (fold (\<lambda>i ws. ws[i := z]) [c..<n] ws) = take c ws"
  by (induction n) auto

lemma bsPush_recent:
  assumes "wf_stack s"
  shows "wf_stack (bsPush zero s v) \<and> bsCapacity (bsPush zero s v) = bsCapacity s \<and>
    bsContents (bsPush zero s v) = lastn (bsCapacity s) (bsContents s @ [v])"
proof (cases s)
  case None
  then show ?thesis by (simp add: bsPush_def wf_stack_def bsCapacity_def bsContents_def lastn_def)
next
  case (Some b)
  show ?thesis
  proof (cases "bs_capacity b < length (bs_values b) + 1 \<and> 0 < bs_capacity b")
    case True
    then have "length (bs_values b) = bs_capacity b" using assms Some by (simp add: wf_stack_def)
    then show ?thesis using True Some
      by (simp add: bsPush_def bsContents_def bsCapacity_def wf_stack_def Let_def copyDown_def
          take_fold_update lastn_def)
  next
    case False
    then show ?thesis using assms Some
      by (auto simp: bsPush_def bsContents_def bsCapacity_def wf_stack_def Let_def lastn_def)
  qed
qed

lemma bsLen_bound: "wf_stack s \<Longrightarrow> length (bsContents s) \<le> bsCapacity s"
  by (auto simp: wf_stack_def bsContents_def bsCapacity_def split: option.splits)

interpretation stack: recent_buffer wf_stack bsCapacity bsContents "bsPush zero" for zero
  by unfold_locales (simp_all add: bsPush_recent bsLen_bound)

lemma bsPushAll_foldl: "bsPushAll zero s vs = foldl (bsPush zero) s vs"
  by (induction zero s vs rule: bsPushAll.induct) simp_all

lemma length_bsContents: "length (bsContents s) = bsLen s"
  by (cases s) (simp_all add: bsContents_def bsLen_def)

text \<open>
  C26. A bounded stack keeps the most recent values: after pushing \<open>vs\<close> its values, top first,
  are the last \<^verbatim>\<open>capacity\<close> of the old ones and \<open>vs\<close>, reversed. \<^verbatim>\<open>Pop\<close> returns what
  \<^verbatim>\<open>Peek\<close> reads and removes it; \<^verbatim>\<open>Peek\<close> and \<^verbatim>\<open>At\<close> read without change; an empty stack
  answers \<^verbatim>\<open>false\<close>.
\<close>

theorem bounded_stack_recent:
  assumes wf: "wf_stack s"
  shows "wf_stack (bsPushAll zero s vs) \<and> wf_stack (snd (bsPop zero s)) \<and>
    bsValues (bsPushAll zero s vs) = rev (lastn (bsCapacity s) (rev (bsValues s) @ vs)) \<and>
    bsPop zero s =
      (bsPeek zero s,
       if bsEmpty s then s else map_option (\<lambda>b. b\<lparr>bs_values := butlast (bs_values b)\<rparr>) s) \<and>
    bsValues (snd (bsPop zero s)) = tl (bsValues s) \<and>
    bsPeek zero s = bsAt zero s 0 \<and>
    bsAt zero s i =
      (if 0 \<le> i \<and> i < int (bsLen s) then (bsValues s ! nat i, True) else (zero, False))"
proof (intro conjI)
  show "wf_stack (bsPushAll zero s vs)"
    "bsValues (bsPushAll zero s vs) = rev (lastn (bsCapacity s) (rev (bsValues s) @ vs))"
    using stack.add_all[OF wf, of zero vs] by (simp_all add: bsPushAll_foldl bsValues_rev)
  show pop: "bsPop zero s =
      (bsPeek zero s,
       if bsEmpty s then s else map_option (\<lambda>b. b\<lparr>bs_values := butlast (bs_values b)\<rparr>) s)"
    by (cases s) (auto simp: bsPop_def bsPeek_def bsEmpty_def bsLen_def Let_def butlast_conv_take)
  show "wf_stack (snd (bsPop zero s))"
    using wf unfolding pop by (cases s) (auto simp: wf_stack_def)
  show "bsValues (snd (bsPop zero s)) = tl (bsValues s)"
    unfolding pop
    by (cases s) (auto simp: bsValues_rev bsContents_def bsEmpty_def bsLen_def rev_swap
        butlast_rev[of "rev _", simplified])
  show "bsPeek zero s = bsAt zero s 0"
    by (cases s) (simp_all add: bsPeek_def bsAt_def)
  show "bsAt zero s i =
      (if 0 \<le> i \<and> i < int (bsLen s) then (bsValues s ! nat i, True) else (zero, False))"
    by (cases s) (auto simp: bsAt_def bsLen_def bsValues_def)
qed

theorem bounded_stack_recent_witness:
  "\<exists>s. NewBoundedStack 2 = Inr s \<and> bsValues (bsPushAll (0 :: int) (Some s) [1, 2, 3]) = [3, 2]"
proof -
  let ?s = "\<lparr>bs_values = [], bs_capacity = 2\<rparr> :: int boundedStack"
  have "wf_stack (Some ?s)" by (simp add: wf_stack_def)
  then have "bsValues (bsPushAll 0 (Some ?s) [1, 2, 3]) =
      rev (lastn (bsCapacity (Some ?s)) (rev (bsValues (Some ?s)) @ [1, 2, 3]))"
    by (rule bounded_stack_recent[THEN conjunct2, THEN conjunct2, THEN conjunct1])
  then show ?thesis by (simp add: NewBoundedStack_def bsCapacity_def bsValues_def lastn_def)
qed

end
