(* ===== verification/Slices.thy ===== *)
theory Slices
  imports Buffers "HOL-Library.Signed_Division" "HOL-Library.Multiset"
begin

text \<open>
  The slice, map, page and permutation helpers of package \<^verbatim>\<open>collections\<close>
  (\<^verbatim>\<open>collections/slices.go\<close>, \<^verbatim>\<open>maps.go\<close>, \<^verbatim>\<open>page.go\<close>, \<^verbatim>\<open>permutations.go\<close>). A slice is an
  optional list, \<open>None\<close> for nil; a nil function argument is \<open>None\<close>. Sizes and indices are
  64-bit integers, so sums wrap around (\<open>wrap64\<close>); a panic is \<open>None\<close> of the outer option.
\<close>

section \<open>Slices\<close>

type_synonym 'a slice = "'a list option"

type_synonym 'a result = "unit go_error + 'a"

text \<open>The slice expression \<^verbatim>\<open>values[lo:hi]\<close>, with its bounds check.\<close>

definition subslice :: "'a list \<Rightarrow> int \<Rightarrow> int \<Rightarrow> 'a list option" where
  "subslice vs lo hi =
     (if 0 \<le> lo \<and> lo \<le> hi \<and> hi \<le> int (length vs)
      then Some (take (nat (hi - lo)) (drop (nat lo) vs)) else None)"

partial_function (option) chunkLoop ::
  "'a list \<Rightarrow> int \<Rightarrow> int \<Rightarrow> 'a list list \<Rightarrow> 'a list list option" where
  [code]: "chunkLoop vs sz start chunks =
     (if start < int (length vs) then
        (let end1 = wrap64 (start + sz);
             end2 = (if int (length vs) < end1 then int (length vs) else end1)
         in case subslice vs start end2 of
              None \<Rightarrow> None
            | Some c \<Rightarrow> chunkLoop vs sz (wrap64 (start + sz)) (chunks @ [c]))
      else Some chunks)"

text \<open>\<^verbatim>\<open>make\<close> panics on a negative capacity.\<close>

definition Chunk :: "'a slice \<Rightarrow> int \<Rightarrow> 'a list slice result option" where
  "Chunk values sz =
     (if sz \<le> 0 then Some (Inl (invalidArg ''chunk size must be positive''))
      else case values of
             None \<Rightarrow> Some (Inr None)
           | Some vs \<Rightarrow>
               if length vs = 0 then Some (Inr (Some []))
               else if wrap64 (wrap64 (int (length vs) + sz) - 1) sdiv sz < 0 then None
               else map_option (\<lambda>cs. Inr (Some cs)) (chunkLoop vs sz 0 []))"

fun slidingLoop :: "'a list \<Rightarrow> int \<Rightarrow> bool \<Rightarrow> nat list \<Rightarrow> 'a list list \<Rightarrow> 'a list list option" where
  "slidingLoop vs sz partialWindows [] windows = Some windows"
| "slidingLoop vs sz partialWindows (start # starts) windows =
     (let end1 = wrap64 (int start + sz) in
      if int (length vs) < end1 \<and> \<not> partialWindows then Some windows
      else
        (let end2 = (if int (length vs) < end1 then int (length vs) else end1)
         in case subslice vs (int start) end2 of
              None \<Rightarrow> None
            | Some w \<Rightarrow> slidingLoop vs sz partialWindows starts (windows @ [w])))"

definition Sliding :: "'a slice \<Rightarrow> int \<Rightarrow> bool \<Rightarrow> 'a list slice result option" where
  "Sliding values sz partialWindows =
     (if sz \<le> 0 then Some (Inl (invalidArg ''sliding size must be positive''))
      else case values of
             None \<Rightarrow> Some (Inr None)
           | Some vs \<Rightarrow>
               if length vs = 0 then Some (Inr (Some []))
               else map_option (\<lambda>ws. Inr (Some ws)) (slidingLoop vs sz partialWindows [0..<length vs] []))"

text \<open>The loop of \<^verbatim>\<open>ChunkBy\<close>: \<open>current\<close> is \<^verbatim>\<open>values[start:index]\<close>.\<close>

fun chunkByLoop :: "('a \<Rightarrow> bool) \<Rightarrow> 'a list \<Rightarrow> 'a list list \<Rightarrow> 'a list \<Rightarrow> 'a list list" where
  "chunkByLoop startsNew current chunks [] = chunks @ [current]"
| "chunkByLoop startsNew current chunks (v # vs) =
     (if startsNew v then chunkByLoop startsNew [v] (chunks @ [current]) vs
      else chunkByLoop startsNew (current @ [v]) chunks vs)"

definition ChunkBy :: "'a slice \<Rightarrow> ('a \<Rightarrow> bool) option \<Rightarrow> 'a list slice result" where
  "ChunkBy values startsNew =
     (case startsNew of
        None \<Rightarrow> Inl (invalidArg ''startsNew must not be nil'')
      | Some f \<Rightarrow>
          (case values of
             None \<Rightarrow> Inr None
           | Some [] \<Rightarrow> Inr (Some [])
           | Some (v # vs) \<Rightarrow> Inr (Some (chunkByLoop f [v] [] vs))))"

definition SafeSubslice :: "'a slice \<Rightarrow> int \<Rightarrow> int \<Rightarrow> 'a slice option" where
  "SafeSubslice values from to =
     (case values of
        None \<Rightarrow> Some None
      | Some vs \<Rightarrow>
          let n = int (length vs);
              from1 = (if from < 0 then 0 else from);
              from2 = (if n < from1 then n else from1);
              to1 = (if to < from2 then from2 else to);
              to2 = (if n < to1 then n else to1)
          in map_option Some (subslice vs from2 to2))"

definition PadTo :: "'a slice \<Rightarrow> int \<Rightarrow> 'a \<Rightarrow> 'a slice result" where
  "PadTo values newSize item =
     (let vs = (case values of None \<Rightarrow> [] | Some vs \<Rightarrow> vs) in
      if newSize < 0 then Inl (invalidArg ''pad size must be non-negative'')
      else if newSize \<le> int (length vs) then Inr values
      else Inr (Some (vs @ map (\<lambda>index. item) [length vs..<nat newSize])))"

fun distinctLoop :: "('a \<Rightarrow> 'k) \<Rightarrow> 'k set \<Rightarrow> 'a list \<Rightarrow> 'a list \<Rightarrow> 'a list" where
  "distinctLoop key seen result [] = result"
| "distinctLoop key seen result (v # vs) =
     (let k = key v in
      if k \<in> seen then distinctLoop key seen result vs
      else distinctLoop key (insert k seen) (result @ [v]) vs)"

definition DistinctBy :: "'a slice \<Rightarrow> ('a \<Rightarrow> 'k) option \<Rightarrow> 'a slice result" where
  "DistinctBy values key =
     (case key of
        None \<Rightarrow> Inl (invalidArg ''key must not be nil'')
      | Some f \<Rightarrow>
          (case values of
             None \<Rightarrow> Inr None
           | Some vs \<Rightarrow> if length vs = 0 then Inr (Some []) else Inr (Some (distinctLoop f {} [] vs))))"

definition Distinct :: "'a slice \<Rightarrow> 'a slice" where
  "Distinct values =
     (case values of
        None \<Rightarrow> None
      | Some vs \<Rightarrow> if length vs = 0 then Some [] else Some (distinctLoop (\<lambda>v. v) {} [] vs))"

text \<open>A missing key reads as the zero value of the map's value type.\<close>

fun countLoop :: "('a \<Rightarrow> 'k) \<Rightarrow> ('k \<rightharpoonup> nat) \<Rightarrow> 'a list \<Rightarrow> ('k \<rightharpoonup> nat)" where
  "countLoop key counts [] = counts"
| "countLoop key counts (v # vs) =
     countLoop key (counts(key v \<mapsto> (case counts (key v) of None \<Rightarrow> 0 | Some c \<Rightarrow> c) + 1)) vs"

definition Count :: "'a slice \<Rightarrow> ('a \<rightharpoonup> nat) option" where
  "Count values = (case values of None \<Rightarrow> None | Some vs \<Rightarrow> Some (countLoop (\<lambda>v. v) Map.empty vs))"

definition CountBy :: "'a slice \<Rightarrow> ('a \<Rightarrow> 'k) option \<Rightarrow> ('k \<rightharpoonup> nat) option result" where
  "CountBy values key =
     (case key of
        None \<Rightarrow> Inl (invalidArg ''key must not be nil'')
      | Some f \<Rightarrow>
          (case values of None \<Rightarrow> Inr None | Some vs \<Rightarrow> Inr (Some (countLoop f Map.empty vs))))"

fun groupLoop :: "('a \<Rightarrow> 'k) \<Rightarrow> ('k \<rightharpoonup> 'a list) \<Rightarrow> 'a list \<Rightarrow> ('k \<rightharpoonup> 'a list)" where
  "groupLoop key groups [] = groups"
| "groupLoop key groups (v # vs) =
     (let k = key v in
      groupLoop key (groups(k \<mapsto> (case groups k of None \<Rightarrow> [] | Some g \<Rightarrow> g) @ [v])) vs)"

definition GroupBy :: "'a slice \<Rightarrow> ('a \<Rightarrow> 'k) option \<Rightarrow> ('k \<rightharpoonup> 'a list) option result" where
  "GroupBy values key =
     (case key of
        None \<Rightarrow> Inl (invalidArg ''key must not be nil'')
      | Some f \<Rightarrow>
          (case values of None \<Rightarrow> Inr None | Some vs \<Rightarrow> Inr (Some (groupLoop f Map.empty vs))))"

text \<open>The helpers with a callback: the callback acts on the caller's world.\<close>

fun mapErrLoop :: "('a \<Rightarrow> ('w, 'e + 'r) act) \<Rightarrow> 'r list \<Rightarrow> 'a list \<Rightarrow> ('w, 'e + 'r list) act" where
  "mapErrLoop mapper result [] w = (Inr result, w)"
| "mapErrLoop mapper result (v # vs) w =
     (case mapper v w of
        (Inl err, w') \<Rightarrow> (Inl err, w')
      | (Inr mapped, w') \<Rightarrow> mapErrLoop mapper (result @ [mapped]) vs w')"

definition MapErr ::
  "'a slice \<Rightarrow> ('a \<Rightarrow> ('w, unit go_error + 'r) act) option \<Rightarrow> ('w, 'r slice result) act" where
  "MapErr values mapper w =
     (case mapper of
        None \<Rightarrow> (Inl (invalidArg ''mapper must not be nil''), w)
      | Some f \<Rightarrow>
          (case values of
             None \<Rightarrow> (Inr None, w)
           | Some vs \<Rightarrow>
               (case mapErrLoop f [] vs w of
                  (Inl err, w') \<Rightarrow> (Inl err, w')
                | (Inr rs, w') \<Rightarrow> (Inr (Some rs), w'))))"

fun forEachLoop :: "('a \<Rightarrow> ('w, 'e option) act) \<Rightarrow> 'a list \<Rightarrow> ('w, 'e option) act" where
  "forEachLoop action [] w = (None, w)"
| "forEachLoop action (v # vs) w =
     (case action v w of (Some err, w') \<Rightarrow> (Some err, w') | (None, w') \<Rightarrow> forEachLoop action vs w')"

definition ForEachErr ::
  "'a slice \<Rightarrow> ('a \<Rightarrow> ('w, unit go_error option) act) option \<Rightarrow> ('w, unit go_error option) act" where
  "ForEachErr values action w =
     (case action of
        None \<Rightarrow> (Some (invalidArg ''action must not be nil''), w)
      | Some f \<Rightarrow> forEachLoop f (case values of None \<Rightarrow> [] | Some vs \<Rightarrow> vs) w)"

fun filterErrLoop :: "('a \<Rightarrow> ('w, 'e + bool) act) \<Rightarrow> 'a list \<Rightarrow> 'a list \<Rightarrow> ('w, 'e + 'a list) act" where
  "filterErrLoop predicate result [] w = (Inr result, w)"
| "filterErrLoop predicate result (v # vs) w =
     (case predicate v w of
        (Inl err, w') \<Rightarrow> (Inl err, w')
      | (Inr keep, w') \<Rightarrow> filterErrLoop predicate (if keep then result @ [v] else result) vs w')"

definition FilterErr ::
  "'a slice \<Rightarrow> ('a \<Rightarrow> ('w, unit go_error + bool) act) option \<Rightarrow> ('w, 'a slice result) act" where
  "FilterErr values predicate w =
     (case predicate of
        None \<Rightarrow> (Inl (invalidArg ''predicate must not be nil''), w)
      | Some f \<Rightarrow>
          (case values of
             None \<Rightarrow> (Inr None, w)
           | Some vs \<Rightarrow>
               (case filterErrLoop f [] vs w of
                  (Inl err, w') \<Rightarrow> (Inl err, w')
                | (Inr rs, w') \<Rightarrow> (Inr (Some rs), w'))))"

fun filterMapLoop :: "('a \<Rightarrow> 'r \<times> bool) \<Rightarrow> 'r list \<Rightarrow> 'a list \<Rightarrow> 'r list" where
  "filterMapLoop mapper result [] = result"
| "filterMapLoop mapper result (v # vs) =
     (let (mapped, ok) = mapper v
      in filterMapLoop mapper (if ok then result @ [mapped] else result) vs)"

definition FilterMap :: "'a slice \<Rightarrow> ('a \<Rightarrow> 'r \<times> bool) option \<Rightarrow> 'r slice result" where
  "FilterMap values mapper =
     (case mapper of
        None \<Rightarrow> Inl (invalidArg ''mapper must not be nil'')
      | Some f \<Rightarrow>
          (case values of None \<Rightarrow> Inr None | Some vs \<Rightarrow> Inr (Some (filterMapLoop f [] vs))))"

definition ZipWithIndex :: "'a slice \<Rightarrow> (nat \<times> 'a) slice" where
  "ZipWithIndex values =
     (case values of
        None \<Rightarrow> None
      | Some vs \<Rightarrow> Some (map (\<lambda>index. (index, vs ! index)) [0..<length vs]))"

section \<open>Pages\<close>

record 'a page =
  pg_items :: "'a slice"
  pg_page :: int
  pg_size :: int
  pg_total :: int
  pg_offset :: int

definition PageOf :: "'a slice \<Rightarrow> int \<Rightarrow> int \<Rightarrow> int \<Rightarrow> 'a page result" where
  "PageOf items pn sz tot =
     (if pn < 0 then Inl (invalidArg ''page must be non-negative'')
      else if sz \<le> 0 then Inl (invalidArg ''page size must be positive'')
      else if tot < 0 then Inl (invalidArg ''total must be non-negative'')
      else if maxInt64 sdiv sz < pn then Inl (invalidArg ''page offset overflows int64'')
      else Inr \<lparr>pg_items = items, pg_page = pn, pg_size = sz, pg_total = tot,
                pg_offset = wrap64 (pn * sz)\<rparr>)"

definition TotalPages :: "'a page \<Rightarrow> int" where
  "TotalPages p =
     (if pg_total p \<le> 0 \<or> pg_size p \<le> 0 then 0
      else
        let pages = pg_total p sdiv pg_size p
        in if pg_total p smod pg_size p \<noteq> 0 then wrap64 (pages + 1) else pages)"

definition HasNext :: "'a page \<Rightarrow> bool" where
  "HasNext p = (let totalPages = TotalPages p in 0 < totalPages \<and> pg_page p < wrap64 (totalPages - 1))"

definition HasPrevious :: "'a page \<Rightarrow> bool" where
  "HasPrevious p \<longleftrightarrow> 0 < pg_page p"

section \<open>Permutations\<close>

text \<open>
  The recursive generator and its inner loop over \<^verbatim>\<open>index\<close>. \<open>yield\<close> acts on the consumer's
  world and says whether to go on; the working array is threaded through. The loop's index
  starts at \<^verbatim>\<open>start\<close> and only grows.
\<close>

definition swapAt :: "nat \<Rightarrow> nat \<Rightarrow> 'a list \<Rightarrow> 'a list" where
  "swapAt i j xs = xs[i := xs ! j, j := xs ! i]"

function (sequential)
      generate :: "('a list \<Rightarrow> ('w, bool) act) \<Rightarrow> nat \<Rightarrow> nat \<Rightarrow> 'a list \<Rightarrow> 'w \<Rightarrow> bool \<times> 'a list \<times> 'w"
  and generateLoop ::
    "('a list \<Rightarrow> ('w, bool) act) \<Rightarrow> nat \<Rightarrow> nat \<Rightarrow> nat \<Rightarrow> 'a list \<Rightarrow> 'w \<Rightarrow> bool \<times> 'a list \<times> 'w" where
  "generate yield n start work w =
     (if start = n then (let (ok, w') = yield work w in (ok, work, w'))
      else generateLoop yield n start start work w)"
| "generateLoop yield n start index work w =
     (if start \<le> index \<and> index < n then
        (case generate yield n (start + 1) (swapAt start index work) w of
           (ok, work', w') \<Rightarrow>
             if \<not> ok then (False, swapAt start index work', w')
             else generateLoop yield n start (index + 1) (swapAt start index work') w')
      else (True, work, w))"
  by pat_completeness auto
termination
  by (relation "measures [\<lambda>x. (case x of Inl (y, n, s, k, w) \<Rightarrow> n - s | Inr (y, n, s, i, k, w) \<Rightarrow> n - s),
                          \<lambda>x. (case x of Inl (y, n, s, k, w) \<Rightarrow> n + 1 | Inr (y, n, s, i, k, w) \<Rightarrow> n - i)]")
    auto

definition Permutations :: "'a list \<Rightarrow> ('a list \<Rightarrow> ('w, bool) act) \<Rightarrow> 'w \<Rightarrow> 'w" where
  "Permutations values yield w =
     (if length values = 0 then snd (yield [] w)
      else snd (snd (generate yield (length values) 0 values w)))"

declare generate.simps [simp del] generateLoop.simps [simp del]

section \<open>Windows and chunks\<close>

lemma subslice_take:
  "0 \<le> lo \<Longrightarrow> lo \<le> hi \<Longrightarrow> hi \<le> int (length vs) \<Longrightarrow>
     subslice vs lo hi = Some (take (nat hi - nat lo) (drop (nat lo) vs))"
  by (simp add: subslice_def nat_diff_distrib)

lemma chunkLoop_pieces:
  assumes "0 < sz" "int (length vs) + sz - 1 \<le> maxInt64" "0 \<le> start"
  shows "chunkLoop vs sz start cs = Some (cs @ pieces (nat sz) (drop (nat start) vs))"
  using assms(3)
proof (induction "nat (int (length vs) - start)" arbitrary: start cs rule: less_induct)
  case less
  show ?case
  proof (cases "start < int (length vs)")
    case False
    then show ?thesis using less.prems by (subst chunkLoop.simps) simp
  next
    case True
    let ?e = "if int (length vs) < start + sz then int (length vs) else start + sz"
    have w: "wrap64 (start + sz) = start + sz"
      using True less.prems assms by (intro wrap64_id) (simp_all add: minInt64_def)
    have "subslice vs start ?e = Some (take (nat ?e - nat start) (drop (nat start) vs))"
      using True less.prems assms(1) by (intro subslice_take) simp_all
    also have "take (nat ?e - nat start) (drop (nat start) vs) = take (nat sz) (drop (nat start) vs)"
      using True less.prems assms(1) by (auto simp: nat_add_distrib)
    finally have sub: "subslice vs start ?e = Some (take (nat sz) (drop (nat start) vs))" .
    have rec: "chunkLoop vs sz (start + sz) cs' = Some (cs' @ pieces (nat sz) (drop (nat (start + sz)) vs))" for cs'
      using True less.prems assms(1) by (intro less.hyps) simp_all
    have "pieces (nat sz) (drop (nat start) vs) =
        take (nat sz) (drop (nat start) vs) # pieces (nat sz) (drop (nat (start + sz)) vs)"
      using True less.prems assms(1) pieces_step[of "nat sz" "drop (nat start) vs"]
      by (simp add: nat_add_distrib add.commute)
    then show ?thesis
      by (subst chunkLoop.simps) (simp only: True if_True Let_def w sub option.case rec append_assoc append_Cons append_Nil)
  qed
qed

lemma Chunk_pieces:
  assumes "0 < sz" "int (length vs) + sz - 1 \<le> maxInt64"
  shows "Chunk (Some vs) sz = Some (Inr (Some (pieces (nat sz) vs)))"
proof (cases "vs = []")
  case False
  have "wrap64 (int (length vs) + sz - 1) = int (length vs) + sz - 1"
    using assms False by (intro wrap64_id) (simp_all add: minInt64_def)
  then have "0 \<le> wrap64 (wrap64 (int (length vs) + sz) - 1) sdiv sz"
    using assms False pos_imp_zdiv_nonneg_iff[of sz "int (length vs) + sz - 1"]
    by (simp add: signed_divide_int_def sgn_if)
  then show ?thesis using assms False chunkLoop_pieces[OF assms, of 0 "[]"]
    by (simp add: Chunk_def)
qed (use assms in \<open>simp add: Chunk_def\<close>)

lemma slidingLoop_windows:
  assumes "0 < sz" "int (length vs) + sz - 1 \<le> maxInt64" "a \<le> length vs"
  shows "slidingLoop vs sz partialWindows [a..<length vs] ws =
    Some (ws @ map (\<lambda>i. take (nat sz) (drop i vs))
      [a..<(if partialWindows then length vs else max a (length vs + 1 - nat sz))])"
  using assms(3)
proof (induction "length vs - a" arbitrary: a ws)
  case 0
  then show ?case using assms(1) by simp
next
  case (Suc k)
  then have a: "a < length vs" and l: "[a..<length vs] = a # [Suc a..<length vs]"
    by (simp_all add: upt_conv_Cons)
  have w: "wrap64 (int a + sz) = int a + sz"
    using a assms by (intro wrap64_id) (simp_all add: minInt64_def)
  have sub: "subslice vs (int a) (if int (length vs) < int a + sz then int (length vs) else int a + sz) =
      Some (take (nat sz) (drop a vs))"
    using a assms(1) by (auto simp: subslice_take nat_add_distrib)
  have ih: "slidingLoop vs sz partialWindows [Suc a..<length vs] ws' =
      Some (ws' @ map (\<lambda>i. take (nat sz) (drop i vs))
        [Suc a..<(if partialWindows then length vs else max (Suc a) (length vs + 1 - nat sz))])" for ws'
    using Suc by (intro Suc.hyps) simp_all
  show ?case
  proof (cases "int (length vs) < int a + sz \<and> \<not> partialWindows")
    case True
    then have "max a (length vs + 1 - nat sz) = a" by linarith
    then show ?thesis using True w l by (simp add: Let_def)
  next
    case False
    have "slidingLoop vs sz partialWindows [a..<length vs] ws =
        slidingLoop vs sz partialWindows [Suc a..<length vs] (ws @ [take (nat sz) (drop a vs)])"
      using False unfolding l slidingLoop.simps Let_def w sub by auto
    moreover have "[a..<(if partialWindows then length vs else max a (length vs + 1 - nat sz))] =
        a # [Suc a..<(if partialWindows then length vs else max (Suc a) (length vs + 1 - nat sz))]"
      using False a assms(1) by (auto simp: upt_conv_Cons max_def)
    ultimately show ?thesis using ih by simp
  qed
qed

text \<open>
  C27. \<^verbatim>\<open>Chunk\<close> cuts a slice into consecutive pieces of the given size, the last one possibly
  shorter, that concatenate to the slice; \<^verbatim>\<open>Sliding\<close> lists the windows at every start, cut
  short at the end only when partial windows are asked for. Both hold as long as length plus
  size fits in 64 bits.
\<close>

theorem chunk_and_sliding:
  assumes "0 < sz" "int (length vs) + sz - 1 \<le> maxInt64"
  shows "(\<exists>cs. Chunk (Some vs) sz = Some (Inr (Some cs)) \<and> concat cs = vs \<and>
      (\<forall>c \<in> set cs. c \<noteq> [] \<and> length c \<le> nat sz) \<and> (\<forall>c \<in> set (butlast cs). length c = nat sz)) \<and>
    Sliding (Some vs) sz partialWindows =
      Some (Inr (Some (map (\<lambda>i. take (nat sz) (drop i vs))
        [0..<(if partialWindows then length vs else length vs + 1 - nat sz)])))"
proof
  show "\<exists>cs. Chunk (Some vs) sz = Some (Inr (Some cs)) \<and> concat cs = vs \<and>
      (\<forall>c \<in> set cs. c \<noteq> [] \<and> length c \<le> nat sz) \<and> (\<forall>c \<in> set (butlast cs). length c = nat sz)"
    using Chunk_pieces[OF assms] concat_pieces[of "nat sz" vs] pieces_bounds[of "nat sz" _ vs]
      pieces_full[of "nat sz" _ vs] assms(1)
    by (intro exI[of _ "pieces (nat sz) vs"]) simp
  show "Sliding (Some vs) sz partialWindows =
      Some (Inr (Some (map (\<lambda>i. take (nat sz) (drop i vs))
        [0..<(if partialWindows then length vs else length vs + 1 - nat sz)])))"
    using slidingLoop_windows[OF assms, of 0 partialWindows "[]"] assms(1)
    by (auto simp: Sliding_def)
qed

theorem chunk_and_sliding_witness:
  "\<exists>cs. Chunk (Some [1 :: int, 2, 3, 4, 5]) 2 = Some (Inr (Some cs)) \<and> concat cs = [1, 2, 3, 4, 5] \<and>
     Sliding (Some [1 :: int, 2, 3]) 2 True = Some (Inr (Some [[1, 2], [2, 3], [3]]))"
proof -
  have "Sliding (Some [1 :: int, 2, 3]) 2 True = Some (Inr (Some (map (\<lambda>i. take (nat 2) (drop i [1, 2, 3]))
        [0..<(if True then length [1 :: int, 2, 3] else length [1 :: int, 2, 3] + 1 - nat 2)])))"
    by (rule chunk_and_sliding[THEN conjunct2]) (simp_all add: maxInt64_def)
  moreover have "map (\<lambda>i. take (nat 2) (drop i [1 :: int, 2, 3])) [0..<3] = [[1, 2], [2, 3], [3]]"
    by (simp add: upt_rec[of 0 3] upt_rec[of 1 3] upt_rec[of 2 3] numeral_3_eq_3 numeral_2_eq_2)
  moreover have "\<exists>cs. Chunk (Some [1 :: int, 2, 3, 4, 5]) 2 = Some (Inr (Some cs)) \<and> concat cs = [1, 2, 3, 4, 5]"
    using chunk_and_sliding[of 2 "[1 :: int, 2, 3, 4, 5]" True] unfolding maxInt64_def by auto
  ultimately show ?thesis by simp
qed

text \<open>
  C28. With the largest size the sums of \<^verbatim>\<open>Chunk\<close> and \<^verbatim>\<open>Sliding\<close> wrap around and both panic on
  a slice of two elements: \<^verbatim>\<open>Chunk\<close> computes a negative capacity, \<^verbatim>\<open>Sliding\<close> with partial
  windows a negative slice end. Neither size is rejected by the validation.
\<close>

theorem chunk_sliding_overflow:
  "Chunk (Some [a, b]) maxInt64 = None \<and> Sliding (Some [a, b]) maxInt64 True = None"
proof
  have "wrap64 (int (length [a, b]) + maxInt64 - 1) sdiv maxInt64 < 0"
    by (simp add: wrap64_def maxInt64_def signed_divide_int_def)
  then show "Chunk (Some [a, b]) maxInt64 = None"
    by (simp add: Chunk_def maxInt64_def)
  show "Sliding (Some [a, b]) maxInt64 True = None"
    by (simp add: Sliding_def maxInt64_def wrap64_def upt_rec[of 0 2] upt_rec[of 1 2] subslice_def Let_def)
qed

section \<open>Grouping\<close>

lemma chunkByLoop_spec:
  assumes "cur \<noteq> []" "\<forall>x \<in> set (tl cur). \<not> f x"
  shows "\<exists>cs. chunkByLoop f cur done vs = done @ cs \<and> cs \<noteq> [] \<and> concat cs = cur @ vs \<and>
    hd (hd cs) = hd cur \<and> (\<forall>c \<in> set cs. c \<noteq> [] \<and> (\<forall>x \<in> set (tl c). \<not> f x)) \<and>
    (\<forall>c \<in> set (tl cs). f (hd c))"
  using assms
proof (induction vs arbitrary: cur "done")
  case (Cons v vs)
  show ?case
  proof (cases "f v")
    case True
    obtain cs where "chunkByLoop f [v] (done @ [cur]) vs = (done @ [cur]) @ cs" "cs \<noteq> []"
      "concat cs = [v] @ vs" "hd (hd cs) = v"
      "\<forall>c \<in> set cs. c \<noteq> [] \<and> (\<forall>x \<in> set (tl c). \<not> f x)" "\<forall>c \<in> set (tl cs). f (hd c)"
      using Cons.IH[of "[v]" "done @ [cur]"] by auto
    moreover from this True have "\<forall>c \<in> set cs. f (hd c)" by (cases cs) auto
    ultimately show ?thesis using True Cons.prems by (intro exI[of _ "cur # cs"]) auto
  next
    case False
    have "hd (cur @ [v]) = hd cur" "tl (cur @ [v]) = tl cur @ [v]" using Cons.prems(1) by auto
    then show ?thesis using Cons.IH[of "cur @ [v]" "done"] False Cons.prems by auto
  qed
qed auto

lemma distinctLoop_spec:
  assumes "seen = key ` set acc" "distinct (map key acc)"
  shows "\<exists>r. distinctLoop key seen acc vs = acc @ r \<and> distinct (map key (acc @ r)) \<and>
    key ` set (acc @ r) = key ` set acc \<union> key ` set vs \<and> set r \<subseteq> set vs \<and>
    (\<forall>v \<in> set r. find (\<lambda>x. key x = key v) vs = Some v)"
  using assms
proof (induction vs arbitrary: seen acc)
  case (Cons v vs)
  show ?case
  proof (cases "key v \<in> seen")
    case True
    then obtain r where r: "distinctLoop key seen acc vs = acc @ r" "distinct (map key (acc @ r))"
      "key ` set (acc @ r) = key ` set acc \<union> key ` set vs" "set r \<subseteq> set vs"
      "\<forall>v \<in> set r. find (\<lambda>x. key x = key v) vs = Some v"
      using Cons.IH[OF Cons.prems] by blast
    have "\<forall>x \<in> set r. key v \<noteq> key x" using r(2) True Cons.prems(1) by auto
    with r True Cons.prems(1) show ?thesis by (intro exI[of _ r]) auto
  next
    case False
    have "\<exists>r. distinctLoop key (insert (key v) seen) (acc @ [v]) vs = (acc @ [v]) @ r \<and>
        distinct (map key ((acc @ [v]) @ r)) \<and>
        key ` set ((acc @ [v]) @ r) = key ` set (acc @ [v]) \<union> key ` set vs \<and> set r \<subseteq> set vs \<and>
        (\<forall>v \<in> set r. find (\<lambda>x. key x = key v) vs = Some v)"
      using Cons.prems False by (intro Cons.IH) auto
    then obtain r where r: "distinctLoop key (insert (key v) seen) (acc @ [v]) vs = (acc @ [v]) @ r"
      "distinct (map key ((acc @ [v]) @ r))"
      "key ` set ((acc @ [v]) @ r) = key ` set (acc @ [v]) \<union> key ` set vs" "set r \<subseteq> set vs"
      "\<forall>v \<in> set r. find (\<lambda>x. key x = key v) vs = Some v" by blast
    have "\<forall>x \<in> set r. key v \<noteq> key x" using r(2) by auto
    with r False show ?thesis by (intro exI[of _ "v # r"]) (auto simp: Let_def)
  qed
qed auto

lemma groupLoop_spec:
  "groupLoop key groups vs k =
     (if k \<in> key ` set vs
      then Some ((case groups k of None \<Rightarrow> [] | Some g \<Rightarrow> g) @ filter (\<lambda>v. key v = k) vs)
      else groups k)"
proof (induction vs arbitrary: groups)
  case (Cons v vs)
  show ?case
    by (cases "key v = k") (auto simp: Cons Let_def empty_filter_conv image_iff)
qed simp

lemma countLoop_spec:
  "countLoop key counts vs k =
     (if k \<in> key ` set vs
      then Some ((case counts k of None \<Rightarrow> 0 | Some c \<Rightarrow> c) + length (filter (\<lambda>v. key v = k) vs))
      else counts k)"
proof (induction vs arbitrary: counts)
  case (Cons v vs)
  show ?case
    by (cases "key v = k") (auto simp: Cons filter_empty_conv image_iff)
qed simp

text \<open>
  The grouping helpers: \<^verbatim>\<open>GroupBy\<close> and \<^verbatim>\<open>CountBy\<close> hold, for exactly the keys that occur, the
  values with the key in order and their number; \<^verbatim>\<open>DistinctBy\<close> keeps the first value of every
  key; \<^verbatim>\<open>ChunkBy\<close> splits before each value that starts a new chunk and loses nothing.
\<close>

theorem grouping:
  "GroupBy (Some vs) (Some key) = Inr (Some (\<lambda>k. if k \<in> key ` set vs then Some (filter (\<lambda>v. key v = k) vs) else None)) \<and>
   CountBy (Some vs) (Some key) =
     Inr (Some (\<lambda>k. if k \<in> key ` set vs then Some (length (filter (\<lambda>v. key v = k) vs)) else None)) \<and>
   (\<exists>r. DistinctBy (Some vs) (Some key) = Inr (Some r) \<and> distinct (map key r) \<and>
      key ` set r = key ` set vs \<and> (\<forall>v \<in> set r. find (\<lambda>x. key x = key v) vs = Some v)) \<and>
   (\<exists>cs. ChunkBy (Some vs) (Some f) = Inr (Some cs) \<and> concat cs = vs \<and>
      (\<forall>c \<in> set cs. c \<noteq> [] \<and> (\<forall>x \<in> set (tl c). \<not> f x)) \<and> (\<forall>c \<in> set (tl cs). f (hd c)))"
proof (intro conjI)
  show "\<exists>r. DistinctBy (Some vs) (Some key) = Inr (Some r) \<and> distinct (map key r) \<and>
      key ` set r = key ` set vs \<and> (\<forall>v \<in> set r. find (\<lambda>x. key x = key v) vs = Some v)"
    using distinctLoop_spec[of "{}" key "[]" vs] by (auto simp: DistinctBy_def)
  show "\<exists>cs. ChunkBy (Some vs) (Some f) = Inr (Some cs) \<and> concat cs = vs \<and>
      (\<forall>c \<in> set cs. c \<noteq> [] \<and> (\<forall>x \<in> set (tl c). \<not> f x)) \<and> (\<forall>c \<in> set (tl cs). f (hd c))"
  proof (cases vs)
    case (Cons v vs')
    then show ?thesis using chunkByLoop_spec[of "[v]" f "[]" vs'] by (auto simp: ChunkBy_def)
  qed (simp add: ChunkBy_def)
qed (auto simp: GroupBy_def CountBy_def groupLoop_spec countLoop_spec)

theorem grouping_witness:
  "(\<exists>m. GroupBy (Some [3 :: int, 4, 5]) (Some even) = Inr (Some m) \<and> m False = Some [3, 5] \<and> m True = Some [4]) \<and>
   (\<exists>cs. ChunkBy (Some [3 :: int, 4, 5]) (Some even) = Inr (Some cs) \<and> concat cs = [3, 4, 5])"
  using grouping[of "[3 :: int, 4, 5]" even even] by auto

section \<open>Pages\<close>

lemma sdiv_pos: "0 \<le> (a :: int) \<Longrightarrow> 0 < b \<Longrightarrow> a sdiv b = a div b"
  by (auto simp: signed_divide_int_def sgn_if)

lemma smod_pos: "0 \<le> (a :: int) \<Longrightarrow> 0 < b \<Longrightarrow> a smod b = a mod b"
  by (auto simp: signed_modulo_int_def sgn_if)

lemma ceil_div_step: "0 < (s :: int) \<Longrightarrow> (p + 1) * s < t \<longleftrightarrow> p < (if t mod s \<noteq> 0 then t div s + 1 else t div s) - 1"
proof -
  assume s: "0 < s"
  have t: "t = t div s * s + t mod s" and m: "0 \<le> t mod s" "t mod s < s" using s by simp_all
  show ?thesis
  proof (cases "t mod s = 0")
    case True
    then have "(p + 1) * s < t \<longleftrightarrow> (p + 1) * s < t div s * s" using t by simp
    also have "\<dots> \<longleftrightarrow> p + 1 < t div s" using s by (simp add: mult_less_cancel_right)
    also have "\<dots> \<longleftrightarrow> p < t div s - 1" by linarith
    finally show ?thesis using True by simp
  next
    case False
    have "(p + 1) * s < t \<longleftrightarrow> p + 1 \<le> t div s"
    proof
      assume "(p + 1) * s < t"
      then have "(p + 1) * s div s \<le> t div s" using s by (intro zdiv_mono1) simp_all
      then show "p + 1 \<le> t div s" using s by simp
    next
      assume "p + 1 \<le> t div s"
      then have "(p + 1) * s \<le> t div s * s" using s by (intro mult_right_mono) simp_all
      then show "(p + 1) * s < t" using t m False by linarith
    qed
    then show ?thesis using False by auto
  qed
qed

lemma div_less_mult: "0 < (s :: int) \<Longrightarrow> t div s < p \<longleftrightarrow> t < p * s"
proof -
  assume s: "0 < s"
  have t: "t = t div s * s + t mod s" and m: "0 \<le> t mod s" "t mod s < s" using s by simp_all
  show ?thesis
  proof
    assume "t div s < p"
    then have "(t div s + 1) * s \<le> p * s" using s by (intro mult_right_mono) simp_all
    then show "t < p * s" using t m unfolding distrib_right by linarith
  next
    assume "t < p * s"
    then have "t div s * s < p * s" using t m by linarith
    then show "t div s < p" using s by (simp add: mult_less_cancel_right)
  qed
qed

lemma ceil_div: "0 < (s :: int) \<Longrightarrow> (t + s - 1) div s = (if t mod s \<noteq> 0 then t div s + 1 else t div s)"
proof -
  assume s: "0 < s"
  have "t + s - 1 = t div s * s + (t mod s + s - 1)" using div_mult_mod_eq[of t s] by linarith
  then have "(t + s - 1) div s = t div s + (t mod s + s - 1) div s" using s
    by (metis div_mult_self3 less_irrefl)
  moreover have "(t mod s + s - 1) div s = (if t mod s \<noteq> 0 then 1 else 0)"
  proof (cases "t mod s = 0")
    case False
    have "0 \<le> t mod s - 1" "t mod s - 1 < s" using False s pos_mod_sign[of s t] pos_mod_bound[of s t] by linarith+
    then have "(t mod s - 1) div s = 0" by (rule div_pos_pos_trivial)
    then have "(s + (t mod s - 1)) div s = 1" using s div_add_self1[of s "t mod s - 1"] by linarith
    then show ?thesis using False by (simp add: algebra_simps)
  qed (use s in \<open>simp add: div_pos_pos_trivial\<close>)
  ultimately show ?thesis by simp
qed

lemma PageOf_Inr:
  "PageOf items pn sz tot = Inr p \<longleftrightarrow>
     0 \<le> pn \<and> 0 < sz \<and> 0 \<le> tot \<and> pn * sz \<le> maxInt64 \<and>
     p = \<lparr>pg_items = items, pg_page = pn, pg_size = sz, pg_total = tot, pg_offset = pn * sz\<rparr>"
proof (cases "0 \<le> pn \<and> 0 < sz \<and> 0 \<le> tot")
  case True
  have "maxInt64 sdiv sz < pn \<longleftrightarrow> maxInt64 < pn * sz"
    using True by (simp add: sdiv_pos maxInt64_def div_less_mult)
  moreover have "pn * sz \<le> maxInt64 \<Longrightarrow> wrap64 (pn * sz) = pn * sz"
    using True by (intro wrap64_id) (simp_all add: minInt64_def order_trans[OF _ mult_nonneg_nonneg])
  ultimately show ?thesis using True by (auto simp: PageOf_def)
qed (auto simp: PageOf_def)

lemma TotalPages_ceil:
  assumes "0 < pg_size p" "0 \<le> pg_total p" "pg_total p \<le> maxInt64"
  shows "TotalPages p = (pg_total p + pg_size p - 1) div pg_size p"
proof (cases "pg_total p = 0")
  case True
  then show ?thesis using assms by (simp add: TotalPages_def div_pos_pos_trivial)
next
  case False
  have "pg_total p mod pg_size p \<noteq> 0 \<Longrightarrow> pg_total p div pg_size p < maxInt64"
    by (cases "pg_size p = 1") (use assms False int_div_less_self[of "pg_total p" "pg_size p"] in auto)
  then have "pg_total p mod pg_size p \<noteq> 0 \<Longrightarrow>
      wrap64 (pg_total p div pg_size p + 1) = pg_total p div pg_size p + 1"
    using assms pos_imp_zdiv_nonneg_iff[of "pg_size p" "pg_total p"]
    by (intro wrap64_id) (simp_all add: minInt64_def)
  then show ?thesis using assms False
    by (simp add: TotalPages_def Let_def sdiv_pos smod_pos ceil_div)
qed

lemma TotalPages_range:
  assumes "0 < pg_size p" "0 \<le> pg_total p" "pg_total p \<le> maxInt64"
  shows "0 \<le> TotalPages p \<and> TotalPages p \<le> maxInt64"
proof
  show "0 \<le> TotalPages p" using assms pos_imp_zdiv_nonneg_iff[of "pg_size p" "pg_total p + pg_size p - 1"]
    by (simp add: TotalPages_ceil)
  have "pg_total p div pg_size p \<le> pg_total p" using assms zdiv_mono2[of "pg_total p" 1 "pg_size p"] by simp
  then show "TotalPages p \<le> maxInt64"
    using assms wrap64_range[of "pg_total p sdiv pg_size p + 1"]
    by (auto simp: TotalPages_def Let_def sdiv_pos maxInt64_def)
qed

text \<open>
  C29. The arithmetic of a page that \<^verbatim>\<open>PageOf\<close> accepts: the offset is the product without
  wrap-around, the number of pages is the total divided by the size rounded up, and there is a
  next page exactly when items remain after this one. \<^verbatim>\<open>PageOf\<close> rejects a page exactly when
  an argument is out of range or the offset does not fit in 64 bits.
\<close>

theorem page_arithmetic:
  "(PageOf items pn sz tot = Inr p \<longrightarrow>
      pg_items p = items \<and> pg_offset p = pn * sz \<and> 0 \<le> pg_offset p \<and> pg_offset p \<le> maxInt64 \<and>
      (tot \<le> maxInt64 \<longrightarrow>
         TotalPages p = (tot + sz - 1) div sz \<and> (HasNext p \<longleftrightarrow> pg_offset p + sz < tot)) \<and>
      (HasPrevious p \<longleftrightarrow> 0 < pg_offset p)) \<and>
   ((\<exists>e. PageOf items pn sz tot = Inl e) \<longleftrightarrow>
      pn < 0 \<or> sz \<le> 0 \<or> tot < 0 \<or> maxInt64 < pn * sz)"
proof
  show "PageOf items pn sz tot = Inr p \<longrightarrow>
      pg_items p = items \<and> pg_offset p = pn * sz \<and> 0 \<le> pg_offset p \<and> pg_offset p \<le> maxInt64 \<and>
      (tot \<le> maxInt64 \<longrightarrow>
         TotalPages p = (tot + sz - 1) div sz \<and> (HasNext p \<longleftrightarrow> pg_offset p + sz < tot)) \<and>
      (HasPrevious p \<longleftrightarrow> 0 < pg_offset p)"
  proof
    assume "PageOf items pn sz tot = Inr p"
    then have a: "0 \<le> pn" "0 < sz" "0 \<le> tot" "pn * sz \<le> maxInt64"
      and p: "p = \<lparr>pg_items = items, pg_page = pn, pg_size = sz, pg_total = tot, pg_offset = pn * sz\<rparr>"
      by (auto simp: PageOf_Inr)
    have next_page: "TotalPages p = (tot + sz - 1) div sz \<and> (HasNext p \<longleftrightarrow> pg_offset p + sz < tot)"
      if "tot \<le> maxInt64"
    proof
      show tp: "TotalPages p = (tot + sz - 1) div sz" using TotalPages_ceil[of p] a that p by simp
      have r: "0 \<le> TotalPages p - 1 + 1" "TotalPages p \<le> maxInt64"
        using a wrap64_range tp ceil_div[of sz tot] TotalPages_range[of p] that p by auto
      then have "wrap64 (TotalPages p - 1) = TotalPages p - 1"
        by (intro wrap64_id) (simp_all add: minInt64_def)
      then have "HasNext p \<longleftrightarrow> pn < TotalPages p - 1" using a p by (auto simp: HasNext_def Let_def)
      also have "\<dots> \<longleftrightarrow> (pn + 1) * sz < tot" using tp a ceil_div_step[of sz pn tot] by (simp add: ceil_div)
      finally show "HasNext p \<longleftrightarrow> pg_offset p + sz < tot" using p by (simp add: distrib_right)
    qed
    then show "pg_items p = items \<and> pg_offset p = pn * sz \<and> 0 \<le> pg_offset p \<and> pg_offset p \<le> maxInt64 \<and>
      (tot \<le> maxInt64 \<longrightarrow>
         TotalPages p = (tot + sz - 1) div sz \<and> (HasNext p \<longleftrightarrow> pg_offset p + sz < tot)) \<and>
      (HasPrevious p \<longleftrightarrow> 0 < pg_offset p)"
      using a p by (auto simp: HasPrevious_def zero_less_mult_iff)
  qed
  show "(\<exists>e. PageOf items pn sz tot = Inl e) \<longleftrightarrow>
      pn < 0 \<or> sz \<le> 0 \<or> tot < 0 \<or> maxInt64 < pn * sz"
  proof -
    have "(\<exists>e. PageOf items pn sz tot = Inl e) \<longleftrightarrow> \<not> (\<exists>p. PageOf items pn sz tot = Inr p)"
      by (cases "PageOf items pn sz tot") auto
    then show ?thesis by (auto simp: PageOf_Inr not_le)
  qed
qed

theorem page_arithmetic_witness:
  "\<exists>p. PageOf (Some [7 :: int]) 2 10 25 = Inr p \<and> TotalPages p = 3 \<and> \<not> HasNext p"
proof -
  have ok: "PageOf (Some [7 :: int]) 2 10 25 =
      Inr \<lparr>pg_items = Some [7], pg_page = 2, pg_size = 10, pg_total = 25, pg_offset = 20\<rparr>"
    by (simp add: PageOf_Inr maxInt64_def)
  then show ?thesis
    using page_arithmetic[of "Some [7 :: int]" 2 10 25] by (simp add: maxInt64_def)
qed

section \<open>Permutations\<close>

text \<open>The permutations in the order of the generator, and feeding a list to a consumer.\<close>

function permsFrom :: "nat \<Rightarrow> 'a list \<Rightarrow> 'a list list" where
  "permsFrom start work =
     (if length work \<le> start then [work]
      else concat (map (\<lambda>i. permsFrom (Suc start) (swapAt start i work)) [start..<length work]))"
  by pat_completeness auto
termination
  by (relation "measure (\<lambda>(s, w). length w - s)") (auto simp: swapAt_def)

declare permsFrom.simps [simp del]

fun feed :: "('a \<Rightarrow> ('w, bool) act) \<Rightarrow> 'a list \<Rightarrow> ('w, bool) act" where
  "feed yield [] w = (True, w)"
| "feed yield (x # xs) w = (case yield x w of (ok, w') \<Rightarrow> if ok then feed yield xs w' else (False, w'))"

lemma feed_append:
  "feed yield (xs @ ys) w = (case feed yield xs w of (ok, w') \<Rightarrow> if ok then feed yield ys w' else (False, w'))"
  by (induction yield xs w rule: feed.induct) (auto split: prod.splits)

lemma length_swapAt [simp]: "length (swapAt i j xs) = length xs"
  by (simp add: swapAt_def)

lemma swapAt_swapAt: "i < length xs \<Longrightarrow> j < length xs \<Longrightarrow> swapAt i j (swapAt i j xs) = xs"
  by (auto simp: swapAt_def list_eq_iff_nth_eq nth_list_update)

lemma permsFrom_end: "length work \<le> start \<Longrightarrow> permsFrom start work = [work]"
  by (simp add: permsFrom.simps)

lemma permsFrom_step:
  "start < length work \<Longrightarrow>
     permsFrom start work = concat (map (\<lambda>i. permsFrom (Suc start) (swapAt start i work)) [start..<length work])"
  by (subst permsFrom.simps) simp

lemma generate_feed:
  "length work = n \<Longrightarrow> start \<le> n \<Longrightarrow>
     generate yield n start work w =
       (let f = feed yield (permsFrom start work) w in (fst f, work, snd f))"
  "length work = n \<Longrightarrow> start < n \<Longrightarrow> start \<le> index \<Longrightarrow>
     generateLoop yield n start index work w =
       (let f = feed yield (concat (map (\<lambda>i. permsFrom (Suc start) (swapAt start i work)) [index..<n])) w
        in (fst f, work, snd f))"
proof (induction yield n start work w and yield n start index work w rule: generate_generateLoop.induct)
  case (1 yield n start work w)
  then show ?case
    by (subst generate.simps) (auto simp: permsFrom_end permsFrom_step Let_def split: prod.splits)
next
  case (2 yield n start index work w)
  show ?case
  proof (cases "index < n")
    case False
    then show ?thesis by (subst generateLoop.simps) simp
  next
    case True
    let ?ps = "permsFrom (Suc start) (swapAt start index work)"
    have g: "generate yield n (Suc start) (swapAt start index work) w =
        (fst (feed yield ?ps w), swapAt start index work, snd (feed yield ?ps w))"
      using 2 True by (simp add: Let_def)
    have undo: "swapAt start index (swapAt start index work) = work"
      using 2(3,4) True by (intro swapAt_swapAt) simp_all
    have l: "[index..<n] = index # [Suc index..<n]" using True by (simp add: upt_conv_Cons)
    show ?thesis
    proof (cases "fst (feed yield ?ps w)")
      case ok: True
      have "generateLoop yield n start (index + 1) work (snd (feed yield ?ps w)) =
          (let f = feed yield (concat (map (\<lambda>i. permsFrom (Suc start) (swapAt start i work)) [Suc index..<n]))
                     (snd (feed yield ?ps w)) in (fst f, work, snd f))"
        using 2(2)[of True "(swapAt start index work, snd (feed yield ?ps w))" "swapAt start index work"
            "snd (feed yield ?ps w)"] 2(3-5) True g ok undo by simp
      then show ?thesis using 2(5) True g ok undo unfolding l
        by (subst generateLoop.simps) (simp add: feed_append case_prod_unfold)
    next
      case stop: False
      then show ?thesis using 2(5) True g undo unfolding l
        by (subst generateLoop.simps) (simp add: feed_append case_prod_unfold)
    qed
  qed
qed

lemma mset_swapAt: "i < length xs \<Longrightarrow> j < length xs \<Longrightarrow> mset (swapAt i j xs) = mset xs"
  by (simp add: swapAt_def mset_swap)

lemma take_swapAt: "i \<le> j \<Longrightarrow> take i (swapAt i j xs) = take i xs"
  by (simp add: swapAt_def)

lemma nth_swapAt: "i < length xs \<Longrightarrow> j < length xs \<Longrightarrow> swapAt i j xs ! i = xs ! j"
  by (cases "i = j") (simp_all add: swapAt_def)

lemma permsFrom_sound:
  "ys \<in> set (permsFrom start work) \<Longrightarrow> mset ys = mset work \<and> take start ys = take start work"
proof (induction start work arbitrary: ys rule: permsFrom.induct)
  case (1 start work)
  show ?case
  proof (cases "start < length work")
    case True
    with 1(2) obtain i where i: "start \<le> i" "i < length work"
      "ys \<in> set (permsFrom (Suc start) (swapAt start i work))"
      by (auto simp: permsFrom_step)
    then have ih: "mset ys = mset (swapAt start i work)" "take (Suc start) ys = take (Suc start) (swapAt start i work)"
      using 1(1) True by auto
    have "take start ys = take start (take (Suc start) ys)" by simp
    then have "take start ys = take start (swapAt start i work)" using ih(2) by simp
    then show ?thesis using i True ih(1) by (simp add: mset_swapAt take_swapAt)
  qed (use 1(2) in \<open>simp add: permsFrom_end\<close>)
qed

lemma permsFrom_complete:
  "mset ys = mset work \<Longrightarrow> take start ys = take start work \<Longrightarrow> ys \<in> set (permsFrom start work)"
proof (induction start work rule: permsFrom.induct)
  case (1 start work)
  have len: "length ys = length work" using 1(2) by (rule mset_eq_length)
  show ?case
  proof (cases "start < length work")
    case True
    have split: "mset (drop start ys) = mset (drop start work)"
      using 1(2,3) by (metis add_left_cancel append_take_drop_id mset_append)
    have "ys ! start \<in> set (drop start ys)" using True len by (simp add: Cons_nth_drop_Suc[symmetric])
    then have "ys ! start \<in> set (drop start work)" using split by (metis set_mset_mset)
    then obtain k where k: "k < length work - start" "work ! (start + k) = ys ! start"
      by (auto simp: in_set_conv_nth)
    let ?w = "swapAt start (start + k) work"
    have i: "start + k < length work" using k(1) True by simp
    have "take (Suc start) ys = take (Suc start) ?w"
      using True i len k(2) 1(3) by (simp add: take_Suc_conv_app_nth take_swapAt nth_swapAt)
    moreover have "mset ys = mset ?w" using 1(2) True i by (simp add: mset_swapAt)
    ultimately have "ys \<in> set (permsFrom (Suc start) ?w)" using 1(1)[of "start + k"] True i by simp
    then show ?thesis using True i by (auto simp: permsFrom_step intro!: bexI[of _ "start + k"])
  next
    case False
    then show ?thesis using 1(3) len by (simp add: permsFrom_end)
  qed
qed

lemma permsFrom_length: "start \<le> length work \<Longrightarrow> length (permsFrom start work) = fact (length work - start)"
proof (induction start work rule: permsFrom.induct)
  case (1 start work)
  show ?case
  proof (cases "start < length work")
    case True
    then have "length (permsFrom start work) = (\<Sum>i \<leftarrow> [start..<length work]. fact (length work - Suc start))"
      using 1(1) unfolding permsFrom_step[OF True] length_concat map_map comp_def
      by (intro arg_cong[of _ _ sum_list] map_cong) auto
    also have "\<dots> = (length work - start) * fact (length work - Suc start)"
      by (simp add: sum_list_triv)
    also have "\<dots> = fact (length work - start)" using True by (simp add: fact_reduce)
    finally show ?thesis .
  qed (simp add: permsFrom_end)
qed

lemma permsFrom_distinct: "distinct work \<Longrightarrow> distinct (permsFrom start work)"
proof (induction start work rule: permsFrom.induct)
  case (1 start work)
  show ?case
  proof (cases "start < length work")
    case True
    have nth: "ys ! start = work ! i" if "start \<le> i" "i < length work" "ys \<in> set (permsFrom (Suc start) (swapAt start i work))" for i ys
    proof -
      have "length ys = length work" and t: "take (Suc start) ys = take (Suc start) (swapAt start i work)"
        using permsFrom_sound[OF that(3)] mset_eq_length by fastforce+
      then show ?thesis using True that(2) by (metis nth_swapAt lessI nth_take)
    qed
    have ds: "distinct (swapAt start i work)" if "i < length work" for i
      using 1(2) that True mset_swapAt[of start work i] by (metis mset_eq_imp_distinct_iff)
    let ?P = "\<lambda>i. permsFrom (Suc start) (swapAt start i work)"
    have common: "i = j" if "start \<le> i" "i < length work" "start \<le> j" "j < length work"
      "ys \<in> set (?P i)" "ys \<in> set (?P j)" for i j ys
      using nth[OF that(1,2,5)] nth[OF that(3,4,6)] 1(2) that(2,4) by (simp add: nth_eq_iff_index_eq)
    have ne: "?P i \<noteq> []" for i
      using permsFrom_complete[of "swapAt start i work" "swapAt start i work" "Suc start"] by auto
    show ?thesis unfolding permsFrom_step[OF True]
    proof (rule distinct_concat)
      have "inj_on ?P {start..<length work}"
      proof (rule inj_onI)
        fix i j assume ij: "i \<in> {start..<length work}" "j \<in> {start..<length work}" "?P i = ?P j"
        have "hd (?P i) \<in> set (?P i)" using ne[of i] by simp
        then show "i = j" using common[of i j "hd (?P i)"] ij by simp
      qed
      then show "distinct (map ?P [start..<length work])" by (simp add: distinct_map)
      show "distinct ys" if "ys \<in> set (map ?P [start..<length work])" for ys
        using that 1(1) ds True by auto
      fix ys zs
      assume "ys \<in> set (map ?P [start..<length work])" "zs \<in> set (map ?P [start..<length work])" and ne': "ys \<noteq> zs"
      then obtain i j where ij: "start \<le> i" "i < length work" "start \<le> j" "j < length work" "ys = ?P i" "zs = ?P j"
        by auto
      then have "i \<noteq> j" using ne' by blast
      then show "set ys \<inter> set zs = {}" using common[OF ij(1-4)] ij(5,6) by blast
    qed
  qed (simp add: permsFrom_end)
qed

text \<open>
  C30. \<^verbatim>\<open>Permutations\<close> hands the consumer a fixed list of arrangements, in order, until it asks to
  stop: \<open>n!\<close> of them, exactly the rearrangements of the values, without repetition when the
  values are distinct.
\<close>

theorem permutations_complete:
  "\<exists>ps. length ps = fact (length values) \<and> set ps = {ys. mset ys = mset values} \<and>
     (distinct values \<longrightarrow> distinct ps) \<and>
     (\<forall>yield w. Permutations values yield w = snd (feed yield ps w))"
proof (intro exI[of _ "permsFrom 0 values"] conjI allI impI)
  show "length (permsFrom 0 values) = fact (length values)" using permsFrom_length[of 0 "values"] by simp
  show "set (permsFrom 0 values) = {ys. mset ys = mset values}"
  proof (intro set_eqI iffI CollectI)
    show "mset ys = mset values" if "ys \<in> set (permsFrom 0 values)" for ys
      using permsFrom_sound[OF that] by simp
    show "ys \<in> set (permsFrom 0 values)" if "ys \<in> {ys. mset ys = mset values}" for ys
      using that by (intro permsFrom_complete) simp_all
  qed
  show "Permutations values yield w = snd (feed yield (permsFrom 0 values) w)" for yield w
  proof (cases "values = []")
    case True
    then show ?thesis by (simp add: Permutations_def permsFrom_end case_prod_unfold)
  next
    case False
    then show ?thesis using generate_feed(1)[of "values" "length values" 0 yield w]
      by (simp add: Permutations_def Let_def)
  qed
qed (rule permsFrom_distinct)

theorem permutations_complete_witness:
  "\<exists>ps. length ps = 6 \<and> distinct ps \<and> [3, 1, 2] \<in> set ps \<and>
     (\<forall>yield w. Permutations [1 :: int, 2, 3] yield (w :: nat) = snd (feed yield ps w))"
proof -
  obtain ps where "length ps = fact (length [1 :: int, 2, 3])" "set ps = {ys. mset ys = mset [1 :: int, 2, 3]}"
    "distinct [1 :: int, 2, 3] \<longrightarrow> distinct ps"
    "\<forall>yield w. Permutations [1 :: int, 2, 3] yield (w :: nat) = snd (feed yield ps w)"
    using permutations_complete[of "[1 :: int, 2, 3]"] by blast
  moreover have "fact (length [1 :: int, 2, 3]) = (6 :: nat)" by (simp add: fact_numeral)
  moreover have "mset [3 :: int, 1, 2] = mset [1, 2, 3]" by (simp add: add_mset_commute)
  ultimately show ?thesis by (intro exI[of _ ps]) simp
qed

end
