(* ===== verification/Snowflake.thy ===== *)
theory Snowflake
  imports Go_Prelude "HOL-Library.Signed_Division"
begin

text \<open>
  Package \<^verbatim>\<open>id\<close>: its error values (\<^verbatim>\<open>id/errors.go\<close>) and the Snowflake generator
  (\<^verbatim>\<open>id/snowflake.go\<close>). The clock of a generator is an action on the caller's world, so the
  theorems hold for every sequence of clock readings, rollbacks included. The mutex makes a
  call of \<^verbatim>\<open>NextInt64\<close> atomic: concurrent callers run their calls in some order.
\<close>

unbundle bit_operations_syntax

section \<open>Errors\<close>

datatype idErrorKind =
    OptionError string
  | ParseError string "byte list"
  | EntropyError string
  | ClockRollbackError int int
  | SequenceExhaustedError int

type_synonym idError = "idErrorKind go_error"

definition ErrInvalidOptions :: string where
  "ErrInvalidOptions = ''id: invalid options''"

definition ErrInvalidID :: string where
  "ErrInvalidID = ''id: invalid id''"

definition ErrEntropy :: string where
  "ErrEntropy = ''id: entropy failure''"

definition ErrClockRollback :: string where
  "ErrClockRollback = ''id: clock rollback''"

definition ErrSequenceExhausted :: string where
  "ErrSequenceExhausted = ''id: sequence exhausted''"

text \<open>The \<^verbatim>\<open>Is\<close> methods; the wrapped error is followed by \<^const>\<open>errors_is\<close>.\<close>

fun idErrorIs :: "idErrorKind \<Rightarrow> string \<Rightarrow> bool" where
  "idErrorIs (OptionError opt) target = (target = ErrInvalidOptions)"
| "idErrorIs (ParseError kind v) target = (target = ErrInvalidID)"
| "idErrorIs (EntropyError kind) target = (target = ErrEntropy)"
| "idErrorIs (ClockRollbackError l n) target = (target = ErrClockRollback)"
| "idErrorIs (SequenceExhaustedError millis) target = (target = ErrSequenceExhausted)"

definition optionError :: "string \<Rightarrow> string \<Rightarrow> idError" where
  "optionError opt msg = Typed (OptionError opt) (Some (Message msg))"

definition parseError :: "string \<Rightarrow> byte list \<Rightarrow> string \<Rightarrow> idError" where
  "parseError kind v msg = Typed (ParseError kind v) (Some (Message msg))"

section \<open>Decimal numbers of \<^verbatim>\<open>strconv\<close>\<close>

fun decDigits :: "nat \<Rightarrow> byte list" where
  "decDigits n = (if n < 10 then [of_nat (48 + n)] else decDigits (n div 10) @ [of_nat (48 + n mod 10)])"

declare decDigits.simps [simp del]

definition formatInt :: "int \<Rightarrow> byte list" where
  "formatInt i = (if i < 0 then 0x2D # decDigits (nat (- i)) else decDigits (nat i))"

fun parseDigits :: "nat \<Rightarrow> byte list \<Rightarrow> nat option" where
  "parseDigits n [] = Some n"
| "parseDigits n (c # cs) = (if inRange 0x30 0x39 c then parseDigits (10 * n + (unat c - 48)) cs else None)"

text \<open>\<^verbatim>\<open>strconv.ParseInt(s, 10, 64)\<close>: an optional sign, at least one digit, and the 64-bit range.\<close>

definition parseInt :: "byte list \<Rightarrow> string + int" where
  "parseInt s =
     (let neg = (s \<noteq> [] \<and> hd s = 0x2D);
          digits = (if s \<noteq> [] \<and> (hd s = 0x2D \<or> hd s = 0x2B) then tl s else s)
      in if digits = [] then Inl ''invalid syntax''
         else case parseDigits 0 digits of
                None \<Rightarrow> Inl ''invalid syntax''
              | Some n \<Rightarrow>
                  let v = (if neg then - int n else int n)
                  in if minInt64 \<le> v \<and> v \<le> maxInt64 then Inr v else Inl ''value out of range'')"

section \<open>The generator\<close>

definition snowflakeMaxMachineID :: int where
  "snowflakeMaxMachineID = push_bit 10 1 - 1"

definition snowflakeMaxSequence :: int where
  "snowflakeMaxSequence = push_bit 12 1 - 1"

definition snowflakeMaxTimestamp :: int where
  "snowflakeMaxTimestamp = push_bit (63 - 22) 1 - 1"

text \<open>Nanoseconds from the zero time to 2020-01-01: 737424 days.\<close>

definition defaultSnowflakeEpoch :: int where
  "defaultSnowflakeEpoch = 737424 * 86400 * 1000000000"

record 'w snowflakeConfig =
  epoch :: int
  now :: "('w, int) act"

type_synonym 'w snowflakeOption = "'w snowflakeConfig \<Rightarrow> idError + 'w snowflakeConfig"

definition WithSnowflakeEpoch :: "int \<Rightarrow> 'w snowflakeOption" where
  "WithSnowflakeEpoch e c =
     (if e = 0 then Inl (optionError ''epoch'' ''must not be zero'') else Inr (c\<lparr>epoch := e\<rparr>))"

definition WithSnowflakeTime :: "('w, int) act option \<Rightarrow> 'w snowflakeOption" where
  "WithSnowflakeTime f c =
     (case f of None \<Rightarrow> Inl (optionError ''now'' ''must not be nil'') | Some g \<Rightarrow> Inr (c\<lparr>now := g\<rparr>))"

fun applyOptions :: "'w snowflakeOption option list \<Rightarrow> 'w snowflakeOption" where
  "applyOptions [] c = Inr c"
| "applyOptions (None # os) c = Inl (optionError ''option'' ''must not be nil'')"
| "applyOptions (Some f # os) c = (case f c of Inl e \<Rightarrow> Inl e | Inr c' \<Rightarrow> applyOptions os c')"

text \<open>\<open>timeNow\<close> is \<^verbatim>\<open>time.Now\<close>, the clock used when no option replaces it.\<close>

definition newSnowflakeConfig ::
  "('w, int) act \<Rightarrow> 'w snowflakeOption option list \<Rightarrow> idError + 'w snowflakeConfig" where
  "newSnowflakeConfig timeNow options = applyOptions options \<lparr>epoch = defaultSnowflakeEpoch, now = timeNow\<rparr>"

record 'w snowflakeGenerator =
  machineID :: int
  config :: "'w snowflakeConfig"
  lastMs :: int
  sequence :: int

definition NewSnowflakeGenerator ::
  "('w, int) act \<Rightarrow> int \<Rightarrow> 'w snowflakeOption option list \<Rightarrow> idError + 'w snowflakeGenerator" where
  "NewSnowflakeGenerator timeNow machine options =
     (if machine < 0 \<or> snowflakeMaxMachineID < machine
      then Inl (Typed (OptionError ''machineID'') (Some (Sentinel ErrInvalidOptions)))
      else case newSnowflakeConfig timeNow options of
             Inl e \<Rightarrow> Inl e
           | Inr c \<Rightarrow> Inr \<lparr>machineID = machine, config = c, lastMs = -1, sequence = 0\<rparr>)"

text \<open>The body of \<^verbatim>\<open>NextInt64\<close> after the clock was read.\<close>

definition nextAt :: "int \<Rightarrow> 'w snowflakeGenerator \<Rightarrow> (idError + int) \<times> 'w snowflakeGenerator" where
  "nextAt t g =
     (let nowMs = timeSub t (epoch (config g)) sdiv 1000000 in
      if nowMs < 0 then (Inl (optionError ''time'' ''before epoch''), g)
      else if snowflakeMaxTimestamp < nowMs then (Inl (optionError ''time'' ''outside 63-bit range''), g)
      else if nowMs < lastMs g then (Inl (Typed (ClockRollbackError (lastMs g) nowMs) None), g)
      else if nowMs = lastMs g \<and> sequence g = snowflakeMaxSequence
      then (Inl (Typed (SequenceExhaustedError nowMs) None), g)
      else
        let g' = (if nowMs = lastMs g then g\<lparr>sequence := sequence g + 1\<rparr>
                  else g\<lparr>sequence := 0, lastMs := nowMs\<rparr>)
        in (Inr (wrap64 (push_bit 22 nowMs) OR wrap64 (push_bit 12 (machineID g')) OR sequence g'), g'))"

definition NextInt64 ::
  "'w snowflakeGenerator option \<Rightarrow> ('w, (idError + int) \<times> 'w snowflakeGenerator option) act" where
  "NextInt64 g w =
     (case g of
        None \<Rightarrow> ((Inl (optionError ''generator'' ''must not be nil''), None), w)
      | Some g \<Rightarrow>
          let (t, w') = now (config g) w;
              (r, g') = nextAt t g
          in ((r, Some g'), w'))"

definition NextString ::
  "'w snowflakeGenerator option \<Rightarrow> ('w, (idError + byte list) \<times> 'w snowflakeGenerator option) act" where
  "NextString g w =
     (let ((r, g'), w') = NextInt64 g w
      in ((case r of Inl e \<Rightarrow> Inl e | Inr v \<Rightarrow> Inr (formatInt v), g'), w'))"

definition ParseSnowflake :: "byte list \<Rightarrow> idError + int" where
  "ParseSnowflake s =
     (case parseInt s of
        Inl msg \<Rightarrow> Inl (parseError ''snowflake'' s msg)
      | Inr v \<Rightarrow> if v < 0 then Inl (parseError ''snowflake'' s ''must be non-negative'') else Inr v)"

record snowflakeParts =
  part_time :: int
  part_machineID :: int
  part_sequence :: int

definition DecodeSnowflake ::
  "('w, int) act \<Rightarrow> int \<Rightarrow> 'w snowflakeOption option list \<Rightarrow> idError + snowflakeParts" where
  "DecodeSnowflake timeNow v options =
     (if v < 0 then Inl (parseError ''snowflake'' (formatInt v) ''must be non-negative'')
      else case newSnowflakeConfig timeNow options of
             Inl e \<Rightarrow> Inl e
           | Inr c \<Rightarrow>
               let timestamp = drop_bit 22 v;
                   machine = drop_bit 12 v AND snowflakeMaxMachineID;
                   sq = v AND snowflakeMaxSequence
               in Inr \<lparr>part_time = epoch c + wrap64 (timestamp * 1000000), part_machineID = machine,
                       part_sequence = sq\<rparr>)"

section \<open>The bit layout\<close>

lemma push_or_add: "0 \<le> b \<Longrightarrow> b < 2 ^ n \<Longrightarrow> push_bit n a OR b = a * 2 ^ n + (b :: int)"
proof -
  assume b: "0 \<le> b" "b < 2 ^ n"
  have "push_bit n a AND b = 0"
  proof (rule bit_eqI)
    fix m
    have "take_bit n b = b" using b by (simp add: take_bit_int_eq_self)
    then have "bit b m \<Longrightarrow> m < n" by (metis bit_take_bit_iff)
    then show "bit (push_bit n a AND b) m = bit (0 :: int) m" by (auto simp: bit_and_iff bit_push_bit_iff)
  qed
  then show ?thesis by (simp add: disjunctive_add_eq_or[symmetric] push_bit_eq_mult)
qed

definition packed :: "int \<Rightarrow> int \<Rightarrow> int \<Rightarrow> int" where
  "packed ms machine sq = ms * 2 ^ 22 + machine * 2 ^ 12 + sq"

definition in_layout :: "int \<Rightarrow> int \<Rightarrow> int \<Rightarrow> bool" where
  "in_layout ms machine sq \<longleftrightarrow>
     0 \<le> ms \<and> ms < 2 ^ 41 \<and> 0 \<le> machine \<and> machine < 2 ^ 10 \<and> 0 \<le> sq \<and> sq < 2 ^ 12"

lemma pack_layout:
  assumes "in_layout ms machine sq"
  shows "wrap64 (push_bit 22 ms) OR wrap64 (push_bit 12 machine) OR sq = packed ms machine sq"
proof -
  have w: "wrap64 (push_bit 22 ms) = push_bit 22 ms" "wrap64 (push_bit 12 machine) = push_bit 12 machine"
    using assms by (auto intro!: wrap64_id simp: in_layout_def push_bit_eq_mult minInt64_def maxInt64_def)
  have "push_bit 12 machine OR sq = machine * 2 ^ 12 + sq"
    using assms by (intro push_or_add) (simp_all add: in_layout_def)
  moreover have "push_bit 22 ms OR (machine * 2 ^ 12 + sq) = ms * 2 ^ 22 + (machine * 2 ^ 12 + sq)"
    using assms by (intro push_or_add) (simp_all add: in_layout_def)
  ultimately show ?thesis using w by (simp add: packed_def or.assoc)
qed

lemma packed_range: "in_layout ms machine sq \<Longrightarrow> 0 \<le> packed ms machine sq \<and> packed ms machine sq \<le> maxInt64"
  by (simp add: in_layout_def packed_def maxInt64_def)

lemma packed_less:
  "in_layout ms machine sq \<Longrightarrow> in_layout ms' machine sq' \<Longrightarrow> ms < ms' \<or> ms = ms' \<and> sq < sq' \<Longrightarrow>
     packed ms machine sq < packed ms' machine sq'"
  by (auto simp: in_layout_def packed_def)

lemma digit_split:
  "0 \<le> s \<Longrightarrow> s < 2 ^ 12 \<Longrightarrow> (x * 2 ^ 12 + s) div 2 ^ 12 = x \<and> (x * 2 ^ 12 + s) mod 2 ^ 12 = (s :: int)"
  by simp

lemma unpack:
  assumes "in_layout ms machine sq"
  shows "drop_bit 22 (packed ms machine sq) = ms"
    "drop_bit 12 (packed ms machine sq) AND snowflakeMaxMachineID = machine"
    "packed ms machine sq AND snowflakeMaxSequence = sq"
proof -
  have m: "snowflakeMaxMachineID = mask 10" "snowflakeMaxSequence = mask 12"
    by (simp_all add: snowflakeMaxMachineID_def snowflakeMaxSequence_def mask_eq_exp_minus_1)
  have p: "packed ms machine sq = (ms * 2 ^ 10 + machine) * 2 ^ 12 + sq" by (simp add: packed_def)
  have q: "packed ms machine sq div 2 ^ 12 = ms * 2 ^ 10 + machine" "packed ms machine sq mod 2 ^ 12 = sq"
    unfolding p using assms digit_split[of sq "ms * 2 ^ 10 + machine"] by (simp_all only: in_layout_def)
  have q2: "packed ms machine sq div 2 ^ 22 = ms"
    using assms q(1) zdiv_zmult2_eq[of "2 ^ 10" "packed ms machine sq" "2 ^ 12"] by (simp add: in_layout_def)
  show "drop_bit 22 (packed ms machine sq) = ms"
    using assms q2 by (simp add: drop_bit_eq_div)
  show "drop_bit 12 (packed ms machine sq) AND snowflakeMaxMachineID = machine"
    using assms q(1) unfolding m take_bit_eq_mask[symmetric]
    by (simp add: drop_bit_eq_div take_bit_eq_mod in_layout_def)
  show "packed ms machine sq AND snowflakeMaxSequence = sq"
    using q(2) unfolding m take_bit_eq_mask[symmetric] by (simp add: take_bit_eq_mod)
qed

section \<open>Uniqueness\<close>

text \<open>What \<^verbatim>\<open>NewSnowflakeGenerator\<close> establishes and every call keeps.\<close>

definition wf_generator :: "'w snowflakeGenerator \<Rightarrow> bool" where
  "wf_generator g \<longleftrightarrow>
     0 \<le> machineID g \<and> machineID g < 2 ^ 10 \<and> 0 \<le> sequence g \<and> sequence g < 2 ^ 12 \<and>
     -1 \<le> lastMs g \<and> lastMs g < 2 ^ 41"

definition millis :: "int \<Rightarrow> 'w snowflakeGenerator \<Rightarrow> int" where
  "millis t g = timeSub t (epoch (config g)) sdiv 1000000"

lemma wf_new:
  assumes "NewSnowflakeGenerator timeNow machine options = Inr g"
  shows "wf_generator g \<and> machineID g = machine \<and> lastMs g = -1 \<and>
    newSnowflakeConfig timeNow options = Inr (config g)"
  using assms
  by (auto simp: NewSnowflakeGenerator_def wf_generator_def snowflakeMaxMachineID_def
      split: if_splits sum.splits)

text \<open>A call either fails and changes nothing, or issues the next position of the layout.\<close>

lemma nextAt_cases:
  assumes wf: "wf_generator g" and step: "nextAt t g = (r, g')"
  obtains (fail) e where "r = Inl e" "g' = g"
  | (issue) "r = Inr (packed (lastMs g') (machineID g) (sequence g'))"
      "in_layout (lastMs g') (machineID g) (sequence g')" "wf_generator g'"
      "machineID g' = machineID g" "config g' = config g" "lastMs g' = millis t g"
      "lastMs g < lastMs g' \<and> sequence g' = 0 \<or> lastMs g = lastMs g' \<and> sequence g' = sequence g + 1"
proof (cases r)
  case (Inl e)
  then show thesis using step that(1)
    by (auto simp: nextAt_def Let_def split: if_splits)
next
  case (Inr v)
  let ?ms = "timeSub t (epoch (config g)) sdiv 1000000"
  have ok: "0 \<le> ?ms" "?ms < 2 ^ 41" "lastMs g \<le> ?ms" "\<not> (?ms = lastMs g \<and> sequence g = 2 ^ 12 - 1)"
    and g': "g' = (if ?ms = lastMs g then g\<lparr>sequence := sequence g + 1\<rparr>
                   else g\<lparr>sequence := 0, lastMs := ?ms\<rparr>)"
    and v: "v = wrap64 (push_bit 22 ?ms) OR wrap64 (push_bit 12 (machineID g')) OR sequence g'"
    using step Inr
    by (auto simp: nextAt_def Let_def snowflakeMaxTimestamp_def snowflakeMaxSequence_def split: if_splits)
  have lay: "in_layout ?ms (machineID g') (sequence g')"
    using wf ok g' by (auto simp: in_layout_def wf_generator_def)
  have "lastMs g' = ?ms" "machineID g' = machineID g" "config g' = config g" using g' by auto
  moreover have "wf_generator g'" using wf ok g' by (auto simp: wf_generator_def)
  moreover have "lastMs g < ?ms \<and> sequence g' = 0 \<or> lastMs g = ?ms \<and> sequence g' = sequence g + 1"
    using ok(3) g' by auto
  ultimately show thesis using that(2) Inr v pack_layout[OF lay] lay by (simp add: millis_def)
qed

text \<open>The successful results of a sequence of calls at the given clock readings.\<close>

fun issued :: "int list \<Rightarrow> 'w snowflakeGenerator \<Rightarrow> int list" where
  "issued [] g = []"
| "issued (t # ts) g =
     (case nextAt t g of (Inl e, g') \<Rightarrow> issued ts g' | (Inr v, g') \<Rightarrow> v # issued ts g')"

text \<open>The results of \<open>n\<close> calls of the generator, with the clock as an action on the world.\<close>

fun calls :: "nat \<Rightarrow> 'w snowflakeGenerator option \<Rightarrow> 'w \<Rightarrow> (idError + int) list" where
  "calls 0 g w = []"
| "calls (Suc n) g w = (case NextInt64 g w of ((r, g'), w') \<Rightarrow> r # calls n g' w')"

fun readings :: "nat \<Rightarrow> ('w, int) act \<Rightarrow> 'w \<Rightarrow> int list" where
  "readings 0 clock w = []"
| "readings (Suc n) clock w = (case clock w of (t, w') \<Rightarrow> t # readings n clock w')"

fun successes :: "('e + 'a) list \<Rightarrow> 'a list" where
  "successes [] = []"
| "successes (Inl e # rs) = successes rs"
| "successes (Inr v # rs) = v # successes rs"

lemma nextAt_config: "config (snd (nextAt t g)) = config g"
  by (auto simp: nextAt_def Let_def)

lemma calls_issued:
  "successes (calls n (Some g) w) = issued (readings n (now (config g)) w) g"
proof (induction n arbitrary: g w)
  case (Suc n)
  obtain t w' where t: "now (config g) w = (t, w')" by fastforce
  obtain r g' where r: "nextAt t g = (r, g')" by fastforce
  have "config g' = config g" using nextAt_config[of t g] r by simp
  then show ?case using Suc[of g' w'] t r by (cases r) (simp_all add: NextInt64_def)
qed simp

lemma issued_increasing:
  assumes "wf_generator g" "0 \<le> lastMs g \<Longrightarrow> x \<le> packed (lastMs g) (machineID g) (sequence g)" "x < 0 \<or> 0 \<le> lastMs g"
  shows "sorted_wrt (<) (issued ts g) \<and> (\<forall>v \<in> set (issued ts g). x < v \<and> v \<le> maxInt64)"
  using assms
proof (induction ts arbitrary: g x)
  case (Cons t ts)
  obtain r g' where step: "nextAt t g = (r, g')" by fastforce
  from Cons.prems(1) step show ?case
  proof (cases rule: nextAt_cases)
    case (fail e)
    then show ?thesis using Cons.IH[OF Cons.prems] step by simp
  next
    case issue
    let ?v = "packed (lastMs g') (machineID g) (sequence g')"
    have pos: "0 \<le> ?v" "?v \<le> maxInt64" "0 \<le> lastMs g'" using issue(2) packed_range by (auto simp: in_layout_def)
    have "x < ?v"
    proof (cases "0 \<le> lastMs g")
      case True
      then have "in_layout (lastMs g) (machineID g) (sequence g)"
        using Cons.prems(1) by (auto simp: in_layout_def wf_generator_def)
      then have "packed (lastMs g) (machineID g) (sequence g) < ?v"
        using issue(2,7) by (intro packed_less) auto
      then show ?thesis using Cons.prems(2) True by simp
    next
      case False
      then show ?thesis using Cons.prems(3) pos by auto
    qed
    moreover have "sorted_wrt (<) (issued ts g') \<and> (\<forall>v \<in> set (issued ts g'). ?v < v \<and> v \<le> maxInt64)"
      using issue pos by (intro Cons.IH) auto
    ultimately show ?thesis using step issue(1) pos by (auto dest: order.strict_trans)
  qed
qed simp

lemma issued_machine:
  "wf_generator g \<Longrightarrow> v \<in> set (issued ts g) \<Longrightarrow> drop_bit 12 v AND snowflakeMaxMachineID = machineID g"
proof (induction ts arbitrary: g)
  case (Cons t ts)
  obtain r g' where step: "nextAt t g = (r, g')" by fastforce
  from Cons.prems(1) step show ?case
  proof (cases rule: nextAt_cases)
    case (fail e)
    then show ?thesis using Cons step by simp
  next
    case issue
    then show ?thesis using Cons.IH[OF issue(3)] Cons.prems(2) step unpack(2)[OF issue(2)] by auto
  qed
qed simp

text \<open>
  C3. The ids a generator issues are strictly increasing, non-negative and fit in 63 bits, for
  every clock: whatever the readings, repeated or going backwards, no id is issued twice. Each
  id carries the machine id, so generators with different machine ids never issue the same id.
\<close>

theorem snowflake_increasing:
  assumes new: "NewSnowflakeGenerator timeNow machine options = Inr g"
  shows "sorted_wrt (<) (successes (calls n (Some g) w)) \<and>
    (\<forall>v \<in> set (successes (calls n (Some g) w)).
       0 \<le> v \<and> v \<le> maxInt64 \<and> drop_bit 12 v AND snowflakeMaxMachineID = machine)"
proof -
  have wf: "wf_generator g" "lastMs g = -1" "machineID g = machine" using wf_new[OF new] by auto
  have "sorted_wrt (<) (issued ts g) \<and> (\<forall>v \<in> set (issued ts g). -1 < v \<and> v \<le> maxInt64)" for ts
    using issued_increasing[of g "-1" ts] wf by simp
  then show ?thesis using issued_machine[OF wf(1)] wf(3) unfolding calls_issued by fastforce
qed

text \<open>A clock that goes one millisecond forward, then stands still, then goes back.\<close>

definition listClock :: "int list \<Rightarrow> int \<times> int list" where
  "listClock w = (case w of [] \<Rightarrow> (defaultSnowflakeEpoch, []) | t # ts \<Rightarrow> (t, ts))"

theorem snowflake_increasing_witness:
  "\<exists>g. NewSnowflakeGenerator listClock 5 [] = Inr g \<and>
     sorted_wrt (<) (successes (calls 3 (Some g)
       [defaultSnowflakeEpoch + 1000000, defaultSnowflakeEpoch + 1000000, defaultSnowflakeEpoch]))"
proof -
  have "NewSnowflakeGenerator listClock 5 [] =
      Inr \<lparr>machineID = 5, config = \<lparr>epoch = defaultSnowflakeEpoch, now = listClock\<rparr>, lastMs = -1, sequence = 0\<rparr>"
    by (simp add: NewSnowflakeGenerator_def newSnowflakeConfig_def snowflakeMaxMachineID_def)
  then show ?thesis using snowflake_increasing by fastforce
qed

section \<open>Decoding\<close>

lemma decDigits_range: "c \<in> set (decDigits n) \<Longrightarrow> inRange 0x30 0x39 c"
proof (induction n rule: decDigits.induct)
  case (1 n)
  have d: "inRange 0x30 0x39 (of_nat (48 + k) :: byte)" if "k < 10" for k
    using that unat_byte_of_nat[of "48 + k"] by (simp add: inRange_def del: of_nat_add)
  show ?case
  proof (cases "n < 10")
    case True
    then show ?thesis using 1(2) d[of n] by (simp add: decDigits.simps[of n])
  next
    case False
    then show ?thesis using 1(1)[OF False] 1(2) d[of "n mod 10"] by (auto simp: decDigits.simps[of n])
  qed
qed

lemma parse_decDigits: "parseDigits 0 (decDigits n @ cs) = parseDigits n cs"
proof (induction n arbitrary: cs rule: decDigits.induct)
  case (1 n)
  have d: "inRange 0x30 0x39 (of_nat (48 + k) :: byte) \<and> unat (of_nat (48 + k) :: byte) - 48 = k"
    if "k < 10" for k
    using that unat_byte_of_nat[of "48 + k"] by (simp add: inRange_def del: of_nat_add)
  show ?case
  proof (cases "n < 10")
    case True
    then show ?thesis using d[of n] by (simp add: decDigits.simps[of n] del: of_nat_add)
  next
    case False
    then show ?thesis using 1[OF False] d[of "n mod 10"]
      by (simp add: decDigits.simps[of n] del: of_nat_add)
  qed
qed

lemma decDigits_ne: "decDigits n \<noteq> []"
  by (subst decDigits.simps) simp

lemma parseInt_formatInt:
  assumes "0 \<le> v" "v \<le> maxInt64"
  shows "parseInt (formatInt v) = Inr v"
proof -
  have "hd (decDigits (nat v)) \<in> set (decDigits (nat v))" using decDigits_ne by simp
  then have r: "inRange 0x30 0x39 (hd (decDigits (nat v)))" by (rule decDigits_range)
  then have "hd (decDigits (nat v)) \<noteq> 0x2D" "hd (decDigits (nat v)) \<noteq> 0x2B"
    by (auto simp: inRange_def)
  then show ?thesis using assms decDigits_ne[of "nat v"] parse_decDigits[of "nat v" "[]"]
    by (simp add: formatInt_def parseInt_def minInt64_def)
qed

lemma millis_floor:
  assumes "epoch (config g) \<le> t" "0 \<le> millis t g" "millis t g < 2 ^ 41"
  shows "epoch (config g) + millis t g * 1000000 \<le> t \<and> t < epoch (config g) + (millis t g + 1) * 1000000"
proof -
  let ?d = "t - epoch (config g)"
  have sd: "0 \<le> a \<Longrightarrow> a sdiv 1000000 = a div 1000000" for a :: int
    by (auto simp: signed_divide_int_def sgn_if)
  have s: "timeSub t (epoch (config g)) = min maxInt64 ?d"
    using assms(1) by (simp add: timeSub_def minInt64_def maxInt64_def)
  have "?d \<le> maxInt64"
  proof (rule ccontr)
    assume "\<not> ?d \<le> maxInt64"
    then have "millis t g = maxInt64 div 1000000" using s by (simp add: millis_def sd maxInt64_def)
    then show False using assms(3) by (simp add: maxInt64_def)
  qed
  then have "millis t g = ?d div 1000000" using s assms(1) by (simp add: millis_def sd)
  then have "?d = millis t g * 1000000 + ?d mod 1000000" by (simp only: div_mult_mod_eq)
  moreover have "0 \<le> ?d mod 1000000" "?d mod 1000000 < 1000000" by simp_all
  ultimately show ?thesis unfolding distrib_right by linarith
qed

text \<open>The division truncates, so a reading less than a millisecond before the epoch counts as the epoch.\<close>

lemma millis_before:
  assumes "t < epoch (config g)" "0 \<le> millis t g"
  shows "millis t g = 0 \<and> epoch (config g) < t + 1000000"
proof -
  let ?d = "timeSub t (epoch (config g))"
  have neg: "?d < 0" using assms(1) by (simp add: timeSub_def minInt64_def maxInt64_def)
  then have m: "millis t g = - ((- ?d) div 1000000)" by (simp add: millis_def signed_divide_int_def)
  moreover have "0 \<le> (- ?d) div 1000000" using neg by (intro pos_imp_zdiv_nonneg_iff[THEN iffD2]) simp_all
  ultimately have "(- ?d) div 1000000 = 0" using assms(2) by simp
  moreover have "- ?d = (- ?d) div 1000000 * 1000000 + (- ?d) mod 1000000" by (simp only: div_mult_mod_eq)
  moreover have "(- ?d) mod 1000000 < 1000000" by simp
  ultimately have "- ?d < 1000000" by linarith
  then show ?thesis using m \<open>(- ?d) div 1000000 = 0\<close> assms(1)
    by (simp add: timeSub_def minInt64_def maxInt64_def max_def min_def split: if_splits)
qed

text \<open>
  C31. An issued id decodes to what went into it: the machine id, the sequence number, and the
  reading of the clock, rounded down to the millisecond when it is not before the epoch, and to the
  epoch when it is less than a millisecond before; no id is issued for earlier readings. The decimal
  text of the id parses back to it.
\<close>

theorem snowflake_decode:
  assumes wf: "wf_generator g" and cfg: "newSnowflakeConfig timeNow options = Inr (config g)"
    and read: "now (config g) w = (t, w1)"
    and nxt: "NextInt64 (Some g) w = ((Inr v, Some g'), w')"
  shows "\<exists>p. DecodeSnowflake timeNow v options = Inr p \<and>
      (if epoch (config g) \<le> t then part_time p \<le> t \<and> t < part_time p + 1000000
       else part_time p = epoch (config g) \<and> epoch (config g) < t + 1000000) \<and>
      part_machineID p = machineID g \<and> part_sequence p = sequence g' \<and>
      ParseSnowflake (formatInt v) = Inr v"
proof -
  have "nextAt t g = (Inr v, g')" using nxt read by (auto simp: NextInt64_def split: prod.splits)
  from wf this show ?thesis
  proof (cases rule: nextAt_cases)
    case issue
    let ?ms = "lastMs g'"
    have v: "v = packed ?ms (machineID g) (sequence g')" using issue(1) by simp
    have r: "0 \<le> v" "v \<le> maxInt64" using packed_range[OF issue(2)] v by auto
    have ms: "0 \<le> ?ms" "?ms < 2 ^ 41" using issue(2) by (simp_all add: in_layout_def)
    then have "wrap64 (?ms * 1000000) = ?ms * 1000000"
      by (intro wrap64_id) (simp_all add: minInt64_def maxInt64_def)
    then have "DecodeSnowflake timeNow v options =
        Inr \<lparr>part_time = epoch (config g) + ?ms * 1000000, part_machineID = machineID g, part_sequence = sequence g'\<rparr>"
      using r cfg unpack[OF issue(2)] v by (simp add: DecodeSnowflake_def Let_def)
    moreover have "if epoch (config g) \<le> t then epoch (config g) + ?ms * 1000000 \<le> t \<and> t < epoch (config g) + (?ms + 1) * 1000000
        else ?ms = 0 \<and> epoch (config g) < t + 1000000"
      using millis_floor[of g t] millis_before[of t g] issue(6) ms by auto
    moreover have "ParseSnowflake (formatInt v) = Inr v"
      using parseInt_formatInt[OF r] r(1) by (simp add: ParseSnowflake_def)
    ultimately show ?thesis by (auto simp: distrib_right split: if_splits)
  qed simp
qed

theorem snowflake_decode_witness:
  "let t = defaultSnowflakeEpoch + 7500000;
       g = \<lparr>machineID = 5, config = \<lparr>epoch = defaultSnowflakeEpoch, now = listClock\<rparr>, lastMs = 7, sequence = 2\<rparr>
   in \<exists>v p. fst (fst (NextInt64 (Some g) [t])) = Inr v \<and> DecodeSnowflake listClock v [] = Inr p \<and>
        part_time p \<le> t \<and> part_machineID p = 5 \<and> part_sequence p = 3"
proof -
  let ?t = "defaultSnowflakeEpoch + 7500000"
  let ?g = "\<lparr>machineID = 5, config = \<lparr>epoch = defaultSnowflakeEpoch, now = listClock\<rparr>, lastMs = 7, sequence = 2\<rparr>"
  have "timeSub ?t defaultSnowflakeEpoch sdiv 1000000 = 7"
    by (simp add: timeSub_def maxInt64_def minInt64_def signed_divide_int_def)
  then have n: "NextInt64 (Some ?g) [?t] =
      ((Inr (wrap64 (push_bit 22 7) OR wrap64 (push_bit 12 5) OR 3), Some (?g\<lparr>sequence := 3\<rparr>)), [])"
    by (simp add: NextInt64_def nextAt_def listClock_def Let_def snowflakeMaxTimestamp_def snowflakeMaxSequence_def)
  have "wf_generator ?g" "newSnowflakeConfig listClock [] = Inr (config ?g)" "now (config ?g) [?t] = (?t, [])"
    by (simp_all add: wf_generator_def newSnowflakeConfig_def listClock_def)
  from snowflake_decode[OF this n] show ?thesis unfolding Let_def n by auto
qed

section \<open>Failures\<close>

text \<open>
  A call fails exactly when the clock is outside the range of the timestamp, went back, or
  all 4096 ids of the millisecond are used; the error identifies which, and a failed call
  leaves the generator as it was.
\<close>

theorem snowflake_errors:
  assumes clock: "now (config g) w = (t, w1)"
  shows "\<exists>r g'. NextInt64 (Some g) w = ((r, Some g'), w1) \<and>
    (let ms = timeSub t (epoch (config g)) sdiv 1000000;
         outside = (ms < 0 \<or> snowflakeMaxTimestamp < ms);
         rollback = (\<not> outside \<and> ms < lastMs g);
         exhausted = (\<not> outside \<and> ms = lastMs g \<and> sequence g = 4095)
     in (case r of
           Inr v \<Rightarrow> \<not> outside \<and> \<not> rollback \<and> \<not> exhausted
         | Inl e \<Rightarrow> g' = g \<and> (outside \<longleftrightarrow> errors_is idErrorIs e ErrInvalidOptions) \<and>
             (rollback \<longleftrightarrow> errors_is idErrorIs e ErrClockRollback) \<and>
             (exhausted \<longleftrightarrow> errors_is idErrorIs e ErrSequenceExhausted) \<and>
             (outside \<or> rollback \<or> exhausted)))"
proof -
  have sent: "ErrClockRollback \<noteq> ErrInvalidOptions" "ErrSequenceExhausted \<noteq> ErrInvalidOptions"
    "ErrSequenceExhausted \<noteq> ErrClockRollback" "snowflakeMaxSequence = 4095"
    by (simp_all add: ErrClockRollback_def ErrInvalidOptions_def ErrSequenceExhausted_def
        snowflakeMaxSequence_def)
  show ?thesis using sent sent(1-3)[symmetric]
    by (cases "nextAt t g")
      (auto simp: NextInt64_def clock nextAt_def Let_def optionError_def split: if_splits)
qed

theorem snowflake_errors_witness:
  "\<exists>g'. fst (NextInt64 (Some \<lparr>machineID = 5, config = \<lparr>epoch = defaultSnowflakeEpoch, now = listClock\<rparr>,
        lastMs = 8, sequence = 2\<rparr>) [defaultSnowflakeEpoch + 7500000]) =
     (Inl (Typed (ClockRollbackError 8 7) None), g') \<and>
     errors_is idErrorIs (Typed (ClockRollbackError 8 7) None) ErrClockRollback"
proof -
  let ?t = "defaultSnowflakeEpoch + 7500000"
  let ?g = "\<lparr>machineID = 5, config = \<lparr>epoch = defaultSnowflakeEpoch, now = listClock\<rparr>, lastMs = 8, sequence = 2\<rparr>"
  have ms: "timeSub ?t defaultSnowflakeEpoch sdiv 1000000 = 7"
    by (simp add: timeSub_def maxInt64_def minInt64_def signed_divide_int_def)
  have n: "NextInt64 (Some ?g) [?t] = ((Inl (Typed (ClockRollbackError 8 7) None), Some ?g), [])"
    using ms by (simp add: NextInt64_def nextAt_def listClock_def Let_def snowflakeMaxTimestamp_def)
  have "now (config ?g) [?t] = (?t, [])" by (simp add: listClock_def)
  from snowflake_errors[of ?g, OF this] have "errors_is idErrorIs (Typed (ClockRollbackError 8 7) None) ErrClockRollback"
    unfolding n using ms by (auto simp: snowflakeMaxTimestamp_def Let_def)
  then show ?thesis unfolding n by simp
qed

end
