(* ===== verification/State_Machine.thy ===== *)
theory State_Machine
  imports Go_Prelude
begin

text \<open>
  Package \<^verbatim>\<open>state\<close> (\<^verbatim>\<open>state/machine.go\<close>, \<^verbatim>\<open>types.go\<close>, \<^verbatim>\<open>errors.go\<close>). \<^verbatim>\<open>Transition\<close> reads the
  current state, runs the guard without holding the lock and then compares and sets the state.
  The current state is therefore the first component of the store the callbacks act on: a
  guard or a context check may run while other goroutines change it. The step relation \<open>mstep\<close>
  interleaves any number of calls.
\<close>

section \<open>Model\<close>

definition ErrInvalidTransition :: string where
  "ErrInvalidTransition = ''invalid transition''"

definition ErrGuardRejected :: string where
  "ErrGuardRejected = ''guard rejected transition''"

definition ErrFinalState :: string where
  "ErrFinalState = ''state is final''"

definition ErrConcurrentTransition :: string where
  "ErrConcurrentTransition = ''concurrent transition conflict''"

definition ErrDuplicateTransition :: string where
  "ErrDuplicateTransition = ''duplicate transition''"

definition ErrUnknownInitialState :: string where
  "ErrUnknownInitialState = ''unknown initial state''"

lemmas state_sentinels = ErrInvalidTransition_def ErrGuardRejected_def ErrFinalState_def
  ErrConcurrentTransition_def ErrDuplicateTransition_def ErrUnknownInitialState_def

text \<open>A field the source leaves at its zero value is \<open>None\<close>; the cause is the error's second argument.\<close>

datatype ('s, 'e) transitionError =
  TransitionError (te_kind: string) (te_from: 's) (te_event: "'e option") (te_to: "'s option")

type_synonym ('s, 'e) stateError = "('s, 'e) transitionError go_error"

definition transitionErrorIs :: "('s, 'e) transitionError \<Rightarrow> string \<Rightarrow> bool" where
  "transitionErrorIs e target \<longleftrightarrow> target = te_kind e"

type_synonym ('s, 'e, 'w) guard = "'s \<Rightarrow> 'e \<Rightarrow> ('s \<times> 'w, ('s, 'e) stateError option) act"

record ('s, 'e, 'w) transition =
  tr_from :: 's
  tr_event :: 'e
  tr_to :: 's
  tr_guard :: "('s, 'e, 'w) guard option"

record ('s, 'e, 'w) transitionTarget =
  tg_to :: 's
  tg_guard :: "('s, 'e, 'w) guard option"

record ('s, 'e) transitionResult =
  res_previous :: 's
  res_event :: 'e
  res_current :: 's

text \<open>The fields of \<^verbatim>\<open>Machine\<close> that never change after \<^verbatim>\<open>NewMachine\<close>, and the initial state.\<close>

record ('s, 'e, 'w) machine =
  m_initial :: 's
  m_transitions :: "'s \<times> 'e \<rightharpoonup> ('s, 'e, 'w) transitionTarget"
  m_allowed :: "'s \<rightharpoonup> 'e list"
  m_finalStates :: "'s set"

type_synonym 's stateOption = "'s set \<Rightarrow> 's set"

definition WithFinalStates :: "'s list \<Rightarrow> 's stateOption" where
  "WithFinalStates states finalStates = fold insert states finalStates"

fun applyStateOptions :: "'s stateOption option list \<Rightarrow> 's set \<Rightarrow> 's set" where
  "applyStateOptions [] cfg = cfg"
| "applyStateOptions (None # os) cfg = applyStateOptions os cfg"
| "applyStateOptions (Some f # os) cfg = applyStateOptions os (f cfg)"

text \<open>Reading a missing key of \<^verbatim>\<open>allowed\<close> gives the nil slice.\<close>

definition eventsAt :: "('s \<rightharpoonup> 'e list) \<Rightarrow> 's \<Rightarrow> 'e list" where
  "eventsAt allowed s = (case allowed s of None \<Rightarrow> [] | Some es \<Rightarrow> es)"

fun registerAll ::
  "('s, 'e, 'w) transition list \<Rightarrow> ('s \<times> 'e \<rightharpoonup> ('s, 'e, 'w) transitionTarget) \<Rightarrow> ('s \<rightharpoonup> 'e list) \<Rightarrow> 's set \<Rightarrow>
   ('s, 'e) stateError + ('s \<times> 'e \<rightharpoonup> ('s, 'e, 'w) transitionTarget) \<times> ('s \<rightharpoonup> 'e list) \<times> 's set" where
  "registerAll [] registered allowed known = Inr (registered, allowed, known)"
| "registerAll (t # ts) registered allowed known =
     (let key = (tr_from t, tr_event t) in
      case registered key of
        Some x \<Rightarrow>
          Inl (Typed (TransitionError ErrDuplicateTransition (tr_from t) (Some (tr_event t)) (Some (tr_to t))) None)
      | None \<Rightarrow>
          registerAll ts
            (registered(key \<mapsto> \<lparr>tg_to = tr_to t, tg_guard = tr_guard t\<rparr>))
            (allowed(tr_from t \<mapsto> eventsAt allowed (tr_from t) @ [tr_event t]))
            (insert (tr_to t) (insert (tr_from t) known)))"

definition NewMachine ::
  "'s \<Rightarrow> ('s, 'e, 'w) transition list \<Rightarrow> 's stateOption option list \<Rightarrow>
   ('s, 'e) stateError + ('s, 'e, 'w) machine" where
  "NewMachine initial trs options =
     (let finalStates = applyStateOptions options {} in
      case registerAll trs Map.empty Map.empty finalStates of
        Inl e \<Rightarrow> Inl e
      | Inr (registered, allowed, known) \<Rightarrow>
          if initial \<notin> known
          then Inl (Typed (TransitionError ErrUnknownInitialState initial None None) None)
          else Inr \<lparr>m_initial = initial, m_transitions = registered, m_allowed = allowed,
                    m_finalStates = finalStates\<rparr>)"

definition lookup ::
  "('s, 'e, 'w) machine \<Rightarrow> 'e \<Rightarrow> 's \<Rightarrow> ('s, 'e) stateError + 's \<times> ('s, 'e, 'w) transitionTarget" where
  "lookup m event current =
     (let from = current in
      if from \<in> m_finalStates m
      then Inl (Typed (TransitionError ErrFinalState from (Some event) None) None)
      else case m_transitions m (from, event) of
             None \<Rightarrow> Inl (Typed (TransitionError ErrInvalidTransition from (Some event) None) None)
           | Some target \<Rightarrow> Inr (from, target))"

text \<open>The critical section at the end of \<^verbatim>\<open>Transition\<close>.\<close>

definition commit ::
  "'s \<Rightarrow> 'e \<Rightarrow> 's \<Rightarrow> 's \<Rightarrow> (('s, 'e) stateError + ('s, 'e) transitionResult) \<times> 's" where
  "commit from event to current =
     (if current \<noteq> from
      then (Inl (Typed (TransitionError ErrConcurrentTransition from (Some event) (Some to)) None), current)
      else (Inr \<lparr>res_previous = from, res_event = event, res_current = to\<rparr>, to))"

text \<open>The call of the guard, if there is one.\<close>

definition runGuard ::
  "('s, 'e, 'w) transitionTarget \<Rightarrow> 's \<Rightarrow> 'e \<Rightarrow> ('s \<times> 'w, ('s, 'e) stateError option) act" where
  "runGuard target from event \<sigma> =
     (case tg_guard target of
        None \<Rightarrow> (None, \<sigma>)
      | Some g \<Rightarrow>
          (case g from event \<sigma> of
             (None, \<sigma>') \<Rightarrow> (None, \<sigma>')
           | (Some err, \<sigma>') \<Rightarrow>
               (Some (Typed (TransitionError ErrGuardRejected from (Some event) (Some (tg_to target))) (Some err)), \<sigma>')))"

definition Transition ::
  "('s, 'e, 'w) machine \<Rightarrow> ('s \<times> 'w, ('s, 'e) stateError option) act \<Rightarrow> 'e \<Rightarrow>
   ('s \<times> 'w, ('s, 'e) stateError + ('s, 'e) transitionResult) act" where
  "Transition m ctxErr event \<sigma> =
     (case ctxErr \<sigma> of
        (Some err, \<sigma>1) \<Rightarrow> (Inl err, \<sigma>1)
      | (None, \<sigma>1) \<Rightarrow>
          (case lookup m event (fst \<sigma>1) of
             Inl err \<Rightarrow> (Inl err, \<sigma>1)
           | Inr (from, target) \<Rightarrow>
               (case runGuard target from event \<sigma>1 of
                  (Some err, \<sigma>2) \<Rightarrow> (Inl err, \<sigma>2)
                | (None, \<sigma>2) \<Rightarrow>
                    (case ctxErr \<sigma>2 of
                       (Some err, \<sigma>3) \<Rightarrow> (Inl err, \<sigma>3)
                     | (None, \<sigma>3) \<Rightarrow>
                         (case commit from event (tg_to target) (fst \<sigma>3) of
                            (r, current') \<Rightarrow> (r, (current', snd \<sigma>3)))))))"

definition CanTransition ::
  "('s, 'e, 'w) machine \<Rightarrow> ('s \<times> 'w, ('s, 'e) stateError option) act \<Rightarrow> 'e \<Rightarrow>
   ('s \<times> 'w, bool \<times> ('s, 'e) stateError option) act" where
  "CanTransition m ctxErr event \<sigma> =
     (case ctxErr \<sigma> of
        (Some err, \<sigma>1) \<Rightarrow> ((False, Some err), \<sigma>1)
      | (None, \<sigma>1) \<Rightarrow>
          (case lookup m event (fst \<sigma>1) of
             Inl err \<Rightarrow>
               if errors_is transitionErrorIs err ErrInvalidTransition \<or> errors_is transitionErrorIs err ErrFinalState
               then ((False, None), \<sigma>1) else ((False, Some err), \<sigma>1)
           | Inr (from, target) \<Rightarrow>
               if tg_guard target = None then ((True, None), \<sigma>1)
               else
                 (case runGuard target from event \<sigma>1 of
                    (Some err, \<sigma>2) \<Rightarrow> ((False, Some err), \<sigma>2)
                  | (None, \<sigma>2) \<Rightarrow>
                      (case ctxErr \<sigma>2 of
                         (Some err, \<sigma>3) \<Rightarrow> ((False, Some err), \<sigma>3)
                       | (None, \<sigma>3) \<Rightarrow> ((True, None), \<sigma>3)))))"

definition AllowedEvents :: "('s, 'e, 'w) machine \<Rightarrow> 's \<Rightarrow> 'e list" where
  "AllowedEvents m current =
     (if current \<in> m_finalStates m then []
      else eventsAt (m_allowed m) current)"

section \<open>Construction\<close>

text \<open>What \<^verbatim>\<open>registerAll\<close> accumulates, over any start of the accumulators.\<close>

definition reg_ok ::
  "('s \<times> 'e \<rightharpoonup> ('s, 'e, 'w) transitionTarget) \<Rightarrow> ('s \<rightharpoonup> 'e list) \<Rightarrow> 's set \<Rightarrow> bool" where
  "reg_ok registered allowed known \<longleftrightarrow>
     (\<forall>s. distinct (eventsAt allowed s)) \<and>
     (\<forall>s e. e \<in> set (eventsAt allowed s) \<longleftrightarrow> registered (s, e) \<noteq> None) \<and>
     (\<forall>s e t. registered (s, e) = Some t \<longrightarrow> s \<in> known \<and> tg_to t \<in> known)"

lemma registerAll_ok:
  assumes "reg_ok reg al kn" "registerAll ts reg al kn = Inr (reg', al', kn')"
  shows "reg_ok reg' al' kn' \<and> kn \<subseteq> kn'"
  using assms
proof (induction ts arbitrary: reg al kn)
  case (Cons t ts)
  then have new: "reg (tr_from t, tr_event t) = None" by (auto simp: Let_def split: option.splits)
  let ?reg = "reg((tr_from t, tr_event t) \<mapsto> \<lparr>tg_to = tr_to t, tg_guard = tr_guard t\<rparr>)"
  let ?al = "al(tr_from t \<mapsto> eventsAt al (tr_from t) @ [tr_event t])"
  have "tr_event t \<notin> set (eventsAt al (tr_from t))"
    using Cons.prems(1) new by (simp add: reg_ok_def)
  moreover have "eventsAt ?al s = (if s = tr_from t then eventsAt al s @ [tr_event t] else eventsAt al s)" for s
    by (simp add: eventsAt_def)
  ultimately have ok: "reg_ok ?reg ?al (insert (tr_to t) (insert (tr_from t) kn))"
    using Cons.prems(1) unfolding reg_ok_def by auto
  have "registerAll ts ?reg ?al (insert (tr_to t) (insert (tr_from t) kn)) = Inr (reg', al', kn')"
    using Cons.prems(2) new by (simp add: Let_def)
  from Cons.IH[OF ok this] show ?case by simp
qed simp

lemma registerAll_Inl:
  assumes "registerAll ts reg al kn = Inl e"
  shows "\<exists>t \<in> set ts. e = Typed (TransitionError ErrDuplicateTransition (tr_from t) (Some (tr_event t)) (Some (tr_to t))) None"
  using assms by (induction ts reg al kn rule: registerAll.induct) (auto simp: Let_def split: option.splits)

lemma registerAll_total:
  "(\<exists>x. registerAll ts reg al kn = Inr x) \<longleftrightarrow>
     distinct (map (\<lambda>t. (tr_from t, tr_event t)) ts) \<and> (\<forall>t \<in> set ts. reg (tr_from t, tr_event t) = None)"
proof (induction ts arbitrary: reg al kn)
  case (Cons t ts)
  show ?case
  proof (cases "reg (tr_from t, tr_event t)")
    case None
    then show ?thesis using Cons by (auto simp: Let_def image_iff)
  qed (simp add: Let_def)
qed simp

lemma registerAll_known:
  "registerAll ts reg al kn = Inr (reg', al', kn') \<Longrightarrow> kn' = kn \<union> tr_from ` set ts \<union> tr_to ` set ts"
  by (induction ts reg al kn rule: registerAll.induct) (auto simp: Let_def split: option.splits)

definition wf_machine :: "('s, 'e, 'w) machine \<Rightarrow> 's set \<Rightarrow> bool" where
  "wf_machine m known \<longleftrightarrow>
     reg_ok (m_transitions m) (m_allowed m) known \<and> m_initial m \<in> known \<and> m_finalStates m \<subseteq> known"

lemma NewMachine_wf:
  assumes "NewMachine initial trs options = Inr m"
  shows "\<exists>known. wf_machine m known \<and>
    known = applyStateOptions options {} \<union> tr_from ` set trs \<union> tr_to ` set trs"
proof -
  let ?f = "applyStateOptions options {}"
  obtain reg al kn where r: "registerAll trs Map.empty Map.empty ?f = Inr (reg, al, kn)"
    and m: "initial \<in> kn" "m = \<lparr>m_initial = initial, m_transitions = reg, m_allowed = al, m_finalStates = ?f\<rparr>"
    using assms by (auto simp: NewMachine_def Let_def split: sum.splits if_splits)
  have "reg_ok Map.empty Map.empty ?f" by (simp add: reg_ok_def eventsAt_def)
  then have "reg_ok reg al kn \<and> ?f \<subseteq> kn" using registerAll_ok r by blast
  then show ?thesis using m registerAll_known[OF r] by (auto simp: wf_machine_def)
qed

text \<open>
  \<^verbatim>\<open>NewMachine\<close> accepts a machine exactly when no two transitions share source and event and
  the initial state occurs in a transition or among the final states; the error says which of
  the two failed.
\<close>

theorem machine_construction:
  "let states = applyStateOptions options {} \<union> tr_from ` set trs \<union> tr_to ` set trs;
       dup = \<not> distinct (map (\<lambda>t. (tr_from t, tr_event t)) trs)
   in (case NewMachine initial trs options of
         Inr m \<Rightarrow> \<not> dup \<and> initial \<in> states \<and> m_initial m = initial
       | Inl e \<Rightarrow>
           (dup \<longleftrightarrow> errors_is transitionErrorIs e ErrDuplicateTransition) \<and>
           (\<not> dup \<longleftrightarrow> errors_is transitionErrorIs e ErrUnknownInitialState \<and> initial \<notin> states))"
proof -
  let ?f = "applyStateOptions options {}"
  have tot: "(\<exists>x. registerAll trs Map.empty Map.empty ?f = Inr x) \<longleftrightarrow>
      distinct (map (\<lambda>t. (tr_from t, tr_event t)) trs)"
    using registerAll_total[of trs Map.empty Map.empty ?f] by simp
  show ?thesis
  proof (cases "registerAll trs Map.empty Map.empty ?f")
    case (Inl e)
    then show ?thesis using tot registerAll_Inl[OF Inl]
      by (auto simp: NewMachine_def Let_def transitionErrorIs_def state_sentinels)
  next
    case (Inr x)
    obtain reg al kn where x: "x = (reg, al, kn)" by (cases x) auto
    then show ?thesis using tot Inr registerAll_known[of trs Map.empty Map.empty ?f reg al kn]
      by (auto simp: NewMachine_def Let_def transitionErrorIs_def state_sentinels)
  qed
qed

text \<open>
  \<^verbatim>\<open>AllowedEvents\<close> lists, without repetition, exactly the events for which \<^verbatim>\<open>Transition\<close> finds a
  target in the current state; it is empty in a final state.
\<close>

theorem allowed_events_exact:
  assumes "NewMachine initial trs options = Inr m"
  shows "distinct (AllowedEvents m s) \<and>
    (e \<in> set (AllowedEvents m s) \<longleftrightarrow> (\<exists>target. lookup m e s = Inr (s, target)))"
proof -
  obtain known where "wf_machine m known" using NewMachine_wf[OF assms] by blast
  then show ?thesis
    by (auto simp: AllowedEvents_def lookup_def Let_def wf_machine_def reg_ok_def split: option.splits)
qed

text \<open>A turnstile with a coin and a push, for the concrete instances.\<close>

definition turnstile :: "(nat, char, nat) transition list" where
  "turnstile =
     [\<lparr>tr_from = 0, tr_event = CHR ''c'', tr_to = 1, tr_guard = None\<rparr>,
      \<lparr>tr_from = 1, tr_event = CHR ''p'', tr_to = 0, tr_guard = None\<rparr>,
      \<lparr>tr_from = 1, tr_event = CHR ''x'', tr_to = 2, tr_guard = None\<rparr>]"

lemma turnstile_new: "\<exists>m. NewMachine 0 turnstile [Some (WithFinalStates [2])] = Inr m \<and> m_initial m = 0 \<and>
    m_finalStates m = {2} \<and> AllowedEvents m 1 = [CHR ''p'', CHR ''x''] \<and>
    lookup m (CHR ''c'') 0 = Inr (0, \<lparr>tg_to = 1, tg_guard = None\<rparr>) \<and>
    lookup m (CHR ''x'') 1 = Inr (1, \<lparr>tg_to = 2, tg_guard = None\<rparr>)"
  by (simp add: NewMachine_def turnstile_def WithFinalStates_def AllowedEvents_def eventsAt_def lookup_def)

theorem machine_construction_witness:
  "\<exists>m. NewMachine 0 turnstile [Some (WithFinalStates [2])] = Inr m \<and> m_initial m = 0"
proof -
  obtain m where "NewMachine 0 turnstile [Some (WithFinalStates [2])] = Inr m" using turnstile_new by blast
  then show ?thesis using machine_construction[of "[Some (WithFinalStates [2])]" turnstile 0] by (simp add: Let_def)
qed

theorem allowed_events_exact_witness:
  "\<exists>m. NewMachine 0 turnstile [Some (WithFinalStates [2])] = Inr m \<and> distinct (AllowedEvents m 1)"
proof -
  obtain m where "NewMachine 0 turnstile [Some (WithFinalStates [2])] = Inr m" using turnstile_new by blast
  then show ?thesis using allowed_events_exact[of 0 turnstile] by blast
qed

section \<open>Interleaved calls\<close>

text \<open>
  A configuration: the current state, the calls of \<^verbatim>\<open>Transition\<close> between lookup and commit (with
  the state and target they read), and the states the machine went through, latest first.
  Guards and context checks happen between the two and may fail, which drops the call.
\<close>

record ('s, 'e) mconf =
  mc_current :: 's
  mc_calls :: "('s \<times> 'e \<times> 's) list"
  mc_trace :: "'s list"

definition minit :: "('s, 'e, 'w) machine \<Rightarrow> ('s, 'e) mconf \<Rightarrow> bool" where
  "minit m c \<longleftrightarrow> c = \<lparr>mc_current = m_initial m, mc_calls = [], mc_trace = [m_initial m]\<rparr>"

inductive mstep :: "('s, 'e, 'w) machine \<Rightarrow> ('s, 'e) mconf \<Rightarrow> ('s, 'e) mconf \<Rightarrow> bool"
  for m :: "('s, 'e, 'w) machine" where
  start: "lookup m event (mc_current c) = Inr (from, target) \<Longrightarrow>
     mstep m c (c\<lparr>mc_calls := (from, event, tg_to target) # mc_calls c\<rparr>)"
| drop: "call \<in> set (mc_calls c) \<Longrightarrow> mstep m c (c\<lparr>mc_calls := remove1 call (mc_calls c)\<rparr>)"
| commit: "(from, event, to) \<in> set (mc_calls c) \<Longrightarrow>
     commit from event to (mc_current c) = (Inr r, current') \<Longrightarrow>
     mstep m c (c\<lparr>mc_current := current', mc_calls := remove1 (from, event, to) (mc_calls c),
                  mc_trace := current' # mc_trace c\<rparr>)"
| conflict: "(from, event, to) \<in> set (mc_calls c) \<Longrightarrow>
     commit from event to (mc_current c) = (Inl err, current') \<Longrightarrow>
     mstep m c (c\<lparr>mc_current := current', mc_calls := remove1 (from, event, to) (mc_calls c)\<rparr>)"

definition registered :: "('s, 'e, 'w) machine \<Rightarrow> 's \<Rightarrow> 's \<Rightarrow> bool" where
  "registered m s s' \<longleftrightarrow>
     s \<notin> m_finalStates m \<and> (\<exists>e t. m_transitions m (s, e) = Some t \<and> tg_to t = s')"

text \<open>Consecutive states of a trace, latest first, are registered transitions.\<close>

fun path :: "('s \<Rightarrow> 's \<Rightarrow> bool) \<Rightarrow> 's list \<Rightarrow> bool" where
  "path R [] = False"
| "path R [s] = True"
| "path R (s' # s # ss) = (R s s' \<and> path R (s # ss))"

definition minv :: "('s, 'e, 'w) machine \<Rightarrow> ('s, 'e) mconf \<Rightarrow> bool" where
  "minv m c \<longleftrightarrow>
     (\<forall>(from, event, to) \<in> set (mc_calls c).
        from \<notin> m_finalStates m \<and> (\<exists>t. m_transitions m (from, event) = Some t \<and> tg_to t = to)) \<and>
     mc_trace c \<noteq> [] \<and> hd (mc_trace c) = mc_current c \<and> last (mc_trace c) = m_initial m \<and>
     path (registered m) (mc_trace c)"

lemma minv_step:
  assumes inv: "minv m c" and step: "mstep m c c'"
  shows "minv m c'"
  using step
proof (cases rule: mstep.cases)
  case (start event f target)
  then show ?thesis using inv by (auto simp: minv_def lookup_def Let_def split: if_splits option.splits)
next
  case (drop call)
  then show ?thesis using inv set_remove1_subset[of call "mc_calls c"] by (auto simp: minv_def)
next
  case (commit f event to r current')
  then have s: "mc_current c = f" "current' = to" by (simp_all add: commit_def split: if_splits)
  have "registered m f to" using inv commit(2) by (fastforce simp: minv_def registered_def)
  then have "path (registered m) (to # mc_trace c)"
    using inv s(1) by (cases "mc_trace c") (simp_all add: minv_def)
  then show ?thesis using inv s commit(1) set_remove1_subset[of "(f, event, to)" "mc_calls c"]
    by (auto simp: minv_def)
next
  case (conflict f event to err current')
  then show ?thesis using inv set_remove1_subset[of "(f, event, to)" "mc_calls c"]
    by (auto simp: minv_def commit_def split: if_splits)
qed

interpretation mach: inductive_invariant "minit m" "mstep m" "minv m" for m :: "('s, 'e, 'w) machine"
proof unfold_locales
  show "minit m c \<Longrightarrow> minv m c" for c by (simp add: minit_def minv_def)
qed (rule minv_step)

lemma path_Cons: "path R (x # xs) \<longleftrightarrow> xs = [] \<or> R (hd xs) x \<and> path R xs"
  by (cases xs) auto

lemma path_final:
  "path (registered m) (ss @ s # ss') \<Longrightarrow> s \<in> m_finalStates m \<Longrightarrow> ss = []"
proof (induction ss)
  case (Cons y ys)
  then have "path (registered m) (ys @ s # ss')" and r: "registered m (hd (ys @ s # ss')) y"
    by (auto simp: path_Cons)
  with Cons have "ys = []" by simp
  then show ?case using r Cons.prems(2) by (simp add: registered_def)
qed simp

text \<open>
  C4. However calls of \<^verbatim>\<open>Transition\<close> interleave, the states the machine goes through form a path of
  registered transitions from the initial state, and a final state is never left: it can only
  be the latest state.
\<close>

theorem machine_safety:
  assumes "reach (minit m) (mstep m) c"
  shows "path (registered m) (mc_trace c) \<and> last (mc_trace c) = m_initial m \<and>
    hd (mc_trace c) = mc_current c \<and>
    (\<forall>s \<in> set (tl (mc_trace c)). s \<notin> m_finalStates m)"
proof -
  have inv: "minv m c" using assms by (rule mach.reach_inv)
  have "s \<notin> m_finalStates m" if "s \<in> set (tl (mc_trace c))" for s
  proof
    assume fin: "s \<in> m_finalStates m"
    obtain x xs where tr: "mc_trace c = x # xs" using inv by (cases "mc_trace c") (auto simp: minv_def)
    with that obtain ys zs where "xs = ys @ s # zs" by (auto dest: split_list)
    then have "path (registered m) ((x # ys) @ s # zs)" using inv tr by (auto simp: minv_def)
    then show False using path_final[OF _ fin] by blast
  qed
  then show ?thesis using inv by (simp add: minv_def)
qed

theorem machine_safety_witness:
  "\<exists>m c. NewMachine 0 turnstile [Some (WithFinalStates [2])] = Inr m \<and>
     reach (minit m) (mstep m) c \<and> mc_trace c = [1, 0] \<and> path (registered m) [1, 0]"
proof -
  obtain m where m: "NewMachine 0 turnstile [Some (WithFinalStates [2])] = Inr m" "m_initial m = 0"
    "lookup m (CHR ''c'') 0 = Inr (0, \<lparr>tg_to = 1, tg_guard = None\<rparr>)" using turnstile_new by blast
  let ?c0 = "\<lparr>mc_current = 0, mc_calls = [], mc_trace = [0]\<rparr> :: (nat, char) mconf"
  let ?c1 = "?c0\<lparr>mc_calls := [(0, CHR ''c'', 1)]\<rparr>"
  let ?c2 = "\<lparr>mc_current = 1, mc_calls = [], mc_trace = [1, 0]\<rparr> :: (nat, char) mconf"
  have "reach (minit m) (mstep m) ?c0" by (rule reach_init) (simp add: minit_def m)
  moreover have "mstep m ?c0 ?c1" using mstep.start[of m "CHR ''c''" ?c0] m(3) by simp
  moreover have "mstep m ?c1 ?c2"
    using mstep.commit[of 0 "CHR ''c''" 1 ?c1 "\<lparr>res_previous = 0, res_event = CHR ''c'', res_current = 1\<rparr>" 1 m]
    by (simp add: commit_def)
  ultimately have r: "reach (minit m) (mstep m) ?c2" by (blast intro: reach_step)
  from machine_safety[OF r] have "path (registered m) [1, 0]" by simp
  with r m(1) show ?thesis by fastforce
qed

section \<open>A single call\<close>

text \<open>Callbacks that leave the state alone: no other goroutine uses the machine meanwhile.\<close>

definition quiet :: "('s \<times> 'w, 'a) act \<Rightarrow> bool" where
  "quiet f \<longleftrightarrow> (\<forall>\<sigma>. fst (snd (f \<sigma>)) = fst \<sigma>)"

definition quietGuards :: "('s, 'e, 'w) machine \<Rightarrow> bool" where
  "quietGuards m \<longleftrightarrow> (\<forall>k t g s e. m_transitions m k = Some t \<longrightarrow> tg_guard t = Some g \<longrightarrow> quiet (g s e))"

lemma quietD: "quiet f \<Longrightarrow> f \<sigma> = (x, \<sigma>') \<Longrightarrow> fst \<sigma>' = fst \<sigma>"
  unfolding quiet_def by (metis snd_conv)

lemma lookup_Inr:
  "lookup m event s = Inr (s', target) \<longleftrightarrow>
     s' = s \<and> s \<notin> m_finalStates m \<and> m_transitions m (s, event) = Some target"
  by (auto simp: lookup_def Let_def split: option.splits)

lemma quiet_runGuard:
  assumes "quietGuards m" "m_transitions m k = Some target"
  shows "quiet (runGuard target s event)"
proof (cases "tg_guard target")
  case (Some g)
  then have "quiet (g s event)" using assms by (cases k) (auto simp: quietGuards_def)
  then have "fst (snd (runGuard target s event \<sigma>)) = fst \<sigma>" for \<sigma>
    using Some quietD[of "g s event" \<sigma>] by (auto simp: runGuard_def split: prod.splits option.splits)
  then show ?thesis by (simp add: quiet_def)
qed (simp add: quiet_def runGuard_def)

text \<open>A call whose lookup succeeded: the guard or the context refuses it, or it commits.\<close>

lemma Transition_found:
  assumes ctx: "quiet ctxErr" and wf: "wf_ctx ctxErr" and guards: "quietGuards m"
    and call: "Transition m ctxErr event \<sigma> = (r, \<sigma>')" and 1: "ctxErr \<sigma> = (None, \<sigma>1)"
    and l: "lookup m event (fst \<sigma>) = Inr (fst \<sigma>, target)"
  shows "(\<exists>e. r = Inl e \<and> fst \<sigma>' = fst \<sigma> \<and> (\<nexists>s ev to cause. e = Typed (TransitionError ErrConcurrentTransition s ev to) cause)) \<or>
    r = Inr \<lparr>res_previous = fst \<sigma>, res_event = event, res_current = fst \<sigma>'\<rparr> \<and> tg_to target = fst \<sigma>' \<and>
    fst (CanTransition m ctxErr event \<sigma>) = (True, None)"
proof -
  have t: "m_transitions m (fst \<sigma>, event) = Some target" using l by (simp add: lookup_Inr)
  have s1: "fst \<sigma>1 = fst \<sigma>" using quietD[OF ctx 1] .
  obtain g \<sigma>2 where 2: "runGuard target (fst \<sigma>) event \<sigma>1 = (g, \<sigma>2)" by (rule prod.exhaust[of "runGuard target (fst \<sigma>) event \<sigma>1"])
  have s2: "fst \<sigma>2 = fst \<sigma>" using quietD[OF quiet_runGuard[OF guards t] 2] s1 by simp
  obtain c3 \<sigma>3 where 3: "ctxErr \<sigma>2 = (c3, \<sigma>3)" by (rule prod.exhaust[of "ctxErr \<sigma>2"])
  have s3: "fst \<sigma>3 = fst \<sigma>" using quietD[OF ctx 3] s2 by simp
  have g: "\<exists>k c. e = Typed (TransitionError ErrGuardRejected k (Some event) (Some (tg_to target))) (Some c)"
    if "g = Some e" for e
    using 2 that by (auto simp: runGuard_def split: option.splits prod.splits)
  consider e where "g = Some e" | e where "g = None" "c3 = Some e" | "g = None" "c3 = None" by (cases g; cases c3) auto
  then show ?thesis
  proof cases
    case 1
    then show ?thesis using call assms(5) l s1 2 s2 g[OF 1] by (auto simp: Transition_def state_sentinels)
  next
    case 2
    then show ?thesis using call assms(5) l s1 \<open>runGuard _ _ _ _ = _\<close> 3 s3 wf_ctxD[OF wf, of \<sigma>2] by (auto simp: Transition_def)
  next
    case 3
    then have "fst (CanTransition m ctxErr event \<sigma>) = (True, None)"
      using assms(5) l s1 2 \<open>ctxErr \<sigma>2 = _\<close> by (simp add: CanTransition_def)
    then show ?thesis using 3 call assms(5) l s1 2 \<open>ctxErr \<sigma>2 = _\<close> s3 t by (auto simp: Transition_def commit_def)
  qed
qed

text \<open>
  C32. Without interference a call of \<^verbatim>\<open>Transition\<close> either moves the machine along a registered
  transition for the event and reports the two states, or returns an error and leaves the
  state; it never reports a concurrent transition, and it fails whenever \<^verbatim>\<open>CanTransition\<close>
  answers no.
\<close>

theorem transition_sequential:
  assumes ctx: "quiet ctxErr" and wf: "wf_ctx ctxErr" and guards: "quietGuards m"
    and call: "Transition m ctxErr event \<sigma> = (r, \<sigma>')"
  shows "(case r of
      Inr q \<Rightarrow> q = \<lparr>res_previous = fst \<sigma>, res_event = event, res_current = fst \<sigma>'\<rparr> \<and>
        fst \<sigma> \<notin> m_finalStates m \<and>
        (\<exists>t. m_transitions m (fst \<sigma>, event) = Some t \<and> tg_to t = fst \<sigma>') \<and>
        fst (CanTransition m ctxErr event \<sigma>) = (True, None)
    | Inl e \<Rightarrow> fst \<sigma>' = fst \<sigma> \<and>
        (\<nexists>s ev to cause. e = Typed (TransitionError ErrConcurrentTransition s ev to) cause))"
proof -
  obtain c1 \<sigma>1 where 1: "ctxErr \<sigma> = (c1, \<sigma>1)" by (rule prod.exhaust[of "ctxErr \<sigma>"])
  have s1: "fst \<sigma>1 = fst \<sigma>" using quietD[OF ctx 1] .
  consider e where "c1 = Some e" | e where "c1 = None" "lookup m event (fst \<sigma>) = Inl e"
    | origin target where "c1 = None" "lookup m event (fst \<sigma>) = Inr (origin, target)"
    by (cases c1; cases "lookup m event (fst \<sigma>)") auto
  then show ?thesis
  proof cases
    case 1
    then show ?thesis using call \<open>ctxErr \<sigma> = _\<close> s1 wf_ctxD[OF wf, of \<sigma>] by (auto simp: Transition_def)
  next
    case 2
    then have "\<nexists>s ev to cause. e = Typed (TransitionError ErrConcurrentTransition s ev to) cause"
      by (auto simp: lookup_def Let_def state_sentinels split: option.splits if_splits)
    then show ?thesis using call \<open>ctxErr \<sigma> = _\<close> s1 2 by (auto simp: Transition_def)
  next
    case 3
    then have t: "origin = fst \<sigma>" "fst \<sigma> \<notin> m_finalStates m" "m_transitions m (fst \<sigma>, event) = Some target"
      by (simp_all add: lookup_Inr)
    then show ?thesis using Transition_found[OF ctx wf guards call, of \<sigma>1 target] 1 3 by auto
  qed
qed

theorem transition_sequential_witness:
  "\<exists>m \<sigma>'. NewMachine 0 turnstile [Some (WithFinalStates [2])] = Inr m \<and>
     Transition m (\<lambda>\<sigma>. (None, \<sigma>)) (CHR ''c'') (0, 7) =
       (Inr \<lparr>res_previous = 0, res_event = CHR ''c'', res_current = 1\<rparr>, \<sigma>') \<and> fst \<sigma>' = 1"
proof -
  obtain m where m: "NewMachine 0 turnstile [Some (WithFinalStates [2])] = Inr m"
    "lookup m (CHR ''c'') 0 = Inr (0, \<lparr>tg_to = 1, tg_guard = None\<rparr>)" using turnstile_new by blast
  have q: "quiet (\<lambda>\<sigma> :: nat \<times> nat. (None :: (nat, char) stateError option, \<sigma>))" by (simp add: quiet_def)
  have w: "wf_ctx (\<lambda>\<sigma> :: nat \<times> nat. (None :: (nat, char) stateError option, \<sigma>))" by (simp add: wf_ctx_def)
  have g: "quietGuards m" using m(1)
    by (auto simp: quietGuards_def NewMachine_def turnstile_def split: if_splits)
  have t: "Transition m (\<lambda>\<sigma>. (None, \<sigma>)) (CHR ''c'') (0, 7) =
      (Inr \<lparr>res_previous = 0, res_event = CHR ''c'', res_current = 1\<rparr>, (1, 7))"
    using m(2) by (simp add: Transition_def runGuard_def commit_def)
  from transition_sequential[OF q w g t] m(1) t show ?thesis by auto
qed

end
