(* ===== verification/Resilience.thy ===== *)
theory Resilience
  imports Go_Prelude
begin

text \<open>
  The shared parts of package \<^verbatim>\<open>resilience\<close>: errors (\<^verbatim>\<open>resilience/errors.go\<close>), events
  (\<^verbatim>\<open>events.go\<close>), operations and their composition (\<^verbatim>\<open>policy.go\<close>). A context is what the code
  observes of it, the action that reads its error. An operation acts on a store \<open>'s\<close> and returns
  a value and an error, or panics (\<open>None\<close>).
\<close>

section \<open>Errors\<close>

datatype circuitState = CircuitStateClosed | CircuitStateOpen | CircuitStateHalfOpen

definition ErrRetryExhausted :: string where
  "ErrRetryExhausted = ''retry attempts exhausted''"

definition ErrTimeout :: string where
  "ErrTimeout = ''operation timed out''"

definition ErrCircuitOpen :: string where
  "ErrCircuitOpen = ''circuit breaker is open''"

definition ErrBulkheadRejected :: string where
  "ErrBulkheadRejected = ''bulkhead rejected call''"

definition ErrNonRetryable :: string where
  "ErrNonRetryable = ''resilience operation is non-retryable''"

lemmas resilience_sentinels = ErrRetryExhausted_def ErrTimeout_def ErrCircuitOpen_def
  ErrBulkheadRejected_def ErrNonRetryable_def ctxCanceled_def ctxDeadlineExceeded_def

datatype resErrorKind =
    NonRetryableError
  | RetryError (re_policyName: string) (re_attempts: int)
  | TimeoutError (to_policyName: string) (to_timeout: int)
  | CircuitOpenError (co_policyName: string) (co_state: circuitState)
  | BulkheadRejectedError (br_policyName: string)

type_synonym resError = "resErrorKind go_error"

text \<open>The \<^verbatim>\<open>Is\<close> methods of the five structs.\<close>

fun resErrorIs :: "resErrorKind \<Rightarrow> string \<Rightarrow> bool" where
  "resErrorIs NonRetryableError target = (target = ErrNonRetryable)"
| "resErrorIs (RetryError name attempts) target = (target = ErrRetryExhausted)"
| "resErrorIs (TimeoutError name t) target = (target = ErrTimeout)"
| "resErrorIs (CircuitOpenError name st) target = (target = ErrCircuitOpen)"
| "resErrorIs (BulkheadRejectedError name) target = (target = ErrBulkheadRejected)"

abbreviation resIs :: "resError \<Rightarrow> string \<Rightarrow> bool" where
  "resIs \<equiv> errors_is resErrorIs"

definition IsNonRetryable :: "resError option \<Rightarrow> bool" where
  "IsNonRetryable err = (case err of None \<Rightarrow> False | Some e \<Rightarrow> resIs e ErrNonRetryable)"

definition NonRetryable :: "resError option \<Rightarrow> resError option" where
  "NonRetryable err =
     (case err of
        None \<Rightarrow> None
      | Some e \<Rightarrow> if IsNonRetryable err then err else Some (Typed NonRetryableError (Some e)))"

text \<open>\<^verbatim>\<open>errors.As\<close>: some error of the tree is a struct of the wanted type.\<close>

fun errors_as :: "('x \<Rightarrow> bool) \<Rightarrow> 'x go_error \<Rightarrow> bool" where
  "errors_as P (Sentinel s) = False"
| "errors_as P (Message m) = False"
| "errors_as P (Wrapped m es) = (\<exists>e \<in> set es. errors_as P e)"
| "errors_as P (Typed x c) = (P x \<or> (case c of None \<Rightarrow> False | Some e \<Rightarrow> errors_as P e))"

definition isTimeoutError :: "resError \<Rightarrow> bool" where
  "isTimeoutError e = errors_as is_TimeoutError e"

section \<open>Events\<close>

datatype eventKind =
    EventSuccess | EventRetry | EventTimeout | EventCircuitStateTransition | EventCircuitRejected
  | EventBulkheadAccepted | EventBulkheadRejected | EventFailure

datatype eventCategory =
    EventCategorySuccess | EventCategoryRetry | EventCategoryAdmission | EventCategoryTimeout
  | EventCategoryRejection | EventCategoryTransition | EventCategoryFailure

datatype errorCategory =
    ErrorCategoryNone | ErrorCategoryTimeout | ErrorCategoryCircuitOpen | ErrorCategoryBulkheadRejected
  | ErrorCategoryRetryExhausted | ErrorCategoryContextCanceled | ErrorCategoryContextDeadline
  | ErrorCategoryFailure

text \<open>A state the source leaves empty is \<open>None\<close>.\<close>

record event =
  PolicyName :: string
  PolicyType :: string
  Kind :: eventKind
  Category :: eventCategory
  Attempt :: int
  Delay :: int
  Timeout :: int
  Err :: "resError option"
  ErrorCategory :: errorCategory
  State :: "circuitState option"
  PreviousState :: "circuitState option"
  InFlight :: int

text \<open>An event with the fields a struct literal does not mention at their zero values.\<close>

definition newEvent :: "string \<Rightarrow> string \<Rightarrow> eventKind \<Rightarrow> eventCategory \<Rightarrow> event" where
  "newEvent name ptype kind cat =
     \<lparr>PolicyName = name, PolicyType = ptype, Kind = kind, Category = cat, Attempt = 0, Delay = 0,
      Timeout = 0, Err = None, ErrorCategory = ErrorCategoryNone, State = None, PreviousState = None,
      InFlight = 0\<rparr>"

definition categorizeError :: "resError option \<Rightarrow> errorCategory" where
  "categorizeError err =
     (case err of
        None \<Rightarrow> ErrorCategoryNone
      | Some e \<Rightarrow>
          if resIs e ErrRetryExhausted then ErrorCategoryRetryExhausted
          else if resIs e ErrTimeout then ErrorCategoryTimeout
          else if resIs e ErrCircuitOpen then ErrorCategoryCircuitOpen
          else if resIs e ErrBulkheadRejected then ErrorCategoryBulkheadRejected
          else if resIs e ctxCanceled then ErrorCategoryContextCanceled
          else if resIs e ctxDeadlineExceeded then ErrorCategoryContextDeadline
          else ErrorCategoryFailure)"

text \<open>A context is read through its error; an event handler acts on the store.\<close>

type_synonym 's ctxt = "('s, resError option) act"

type_synonym 's eventHandler = "'s ctxt \<Rightarrow> event \<Rightarrow> 's \<Rightarrow> 's"

definition emitEvent :: "'s ctxt \<Rightarrow> 's eventHandler option \<Rightarrow> event \<Rightarrow> 's \<Rightarrow> 's" where
  "emitEvent ctx handler ev s = (case handler of None \<Rightarrow> s | Some h \<Rightarrow> h ctx ev s)"

definition withErr :: "resError \<Rightarrow> event \<Rightarrow> event" where
  "withErr e ev = ev\<lparr>Err := Some e, ErrorCategory := categorizeError (Some e)\<rparr>"

section \<open>Operations and composition\<close>

type_synonym ('s, 'a) operation = "'s ctxt \<Rightarrow> ('s, ('a \<times> resError option) option) act"

text \<open>\<^verbatim>\<open>context.Background\<close>, which stands in for a nil context.\<close>

definition background :: "'s ctxt" where
  "background s = (None, s)"

definition orBackground :: "'s ctxt option \<Rightarrow> 's ctxt" where
  "orBackground ctx = (case ctx of None \<Rightarrow> background | Some c \<Rightarrow> c)"

definition runOperation ::
  "'a \<Rightarrow> 's ctxt \<Rightarrow> ('s, 'a) operation option \<Rightarrow> ('s, ('a \<times> resError option) option) act" where
  "runOperation zero ctx operation s =
     (case operation of
        None \<Rightarrow> (Some (zero, Some (Message ''operation must not be nil'')), s)
      | Some op \<Rightarrow>
          (case ctx s of
             (Some err, s') \<Rightarrow> (Some (zero, Some err), s')
           | (None, s') \<Rightarrow> op ctx s'))"

type_synonym ('s, 'a) policy = "('s, 'a) operation option \<Rightarrow> ('s, 'a) operation option"

text \<open>The loop of \<^verbatim>\<open>Compose\<close> runs from the last policy to the first; nil policies are skipped.\<close>

fun composeFrom :: "('s, 'a) policy option list \<Rightarrow> ('s, 'a) operation option \<Rightarrow> ('s, 'a) operation option" where
  "composeFrom [] wrapped = wrapped"
| "composeFrom (None # ps) wrapped = composeFrom ps wrapped"
| "composeFrom (Some p # ps) wrapped = composeFrom ps (p wrapped)"

definition Compose :: "('s, 'a) policy option list \<Rightarrow> ('s, 'a) policy" where
  "Compose policies operation = composeFrom (rev policies) operation"

definition Run ::
  "'a \<Rightarrow> 's ctxt option \<Rightarrow> ('s, 'a) operation option \<Rightarrow> ('s, 'a) policy option list \<Rightarrow>
   ('s, ('a \<times> resError option) option) act" where
  "Run zero ctx operation policies s =
     (let wrapped = Compose policies operation in runOperation zero (orBackground ctx) wrapped s)"

lemma composeFrom_append: "composeFrom (ps @ qs) op = composeFrom qs (composeFrom ps op)"
  by (induction ps op rule: composeFrom.induct) simp_all

lemma composeFrom_foldl:
  "composeFrom ps op = foldl (\<lambda>w p. case p of None \<Rightarrow> w | Some f \<Rightarrow> f w) op ps"
  by (induction ps op rule: composeFrom.induct) simp_all

text \<open>The first policy of the list is the outermost, and composition is associative.\<close>

lemma Compose_Cons: "Compose (p # ps) op = (case p of None \<Rightarrow> Compose ps op | Some f \<Rightarrow> f (Compose ps op))"
  by (cases p) (simp_all add: Compose_def composeFrom_append)

lemma Compose_append: "Compose (ps @ qs) op = Compose ps (Compose qs op)"
  by (simp add: Compose_def composeFrom_append)

end
