(* ===== verification/Circuit_Breaker.thy ===== *)
theory Circuit_Breaker
  imports Resilience
begin

text \<open>
  The circuit breaker of package \<^verbatim>\<open>resilience\<close> (\<^verbatim>\<open>resilience/circuit_breaker.go\<close>). The mutable
  fields of \<^verbatim>\<open>CircuitBreakerPolicy\<close> are the record \<open>circuit\<close>; \<open>beforeLocked\<close> and \<open>afterLocked\<close>
  are the critical sections of \<^verbatim>\<open>beforeCall\<close> and \<^verbatim>\<open>afterCall\<close>. The operation runs between them
  without the lock, so \<open>Apply\<close> acts on a store whose first component is the breaker, and the
  step relation \<open>cbstep\<close> interleaves the sections of any number of calls.
\<close>

section \<open>Model\<close>

record 's circuitOptions =
  cb_Name :: string
  cb_FailureThreshold :: int
  cb_SuccessThreshold :: int
  cb_OpenTimeout :: int
  cb_HalfOpenMaxConcurrent :: int
  cb_FailureIf :: "(resError option \<Rightarrow> bool) option"
  cb_Now :: "('s, int) act option"
  cb_OnEvent :: "'s eventHandler option"

record circuit =
  c_state :: circuitState
  c_failureCount :: int
  c_successCount :: int
  c_openedAt :: int
  c_halfOpenInFlight :: int

definition defaultFailurePredicate :: "resError option \<Rightarrow> bool" where
  "defaultFailurePredicate err =
     (case err of
        None \<Rightarrow> False
      | Some e \<Rightarrow>
          if IsNonRetryable err then True
          else if resIs e ctxCanceled then False
          else True)"

definition NewCircuitBreaker ::
  "('s, int) act \<Rightarrow> 's circuitOptions \<Rightarrow> string + 's circuitOptions \<times> circuit" where
  "NewCircuitBreaker timeNow options =
     (if cb_FailureThreshold options \<le> 0 then Inl ''failure threshold must be positive''
      else
        let options1 = (if cb_SuccessThreshold options \<le> 0 then options\<lparr>cb_SuccessThreshold := 1\<rparr> else options)
        in if cb_OpenTimeout options1 \<le> 0 then Inl ''open timeout must be positive''
           else
             let options2 = (if cb_HalfOpenMaxConcurrent options1 \<le> 0
                             then options1\<lparr>cb_HalfOpenMaxConcurrent := 1\<rparr> else options1);
                 options3 = (if cb_FailureIf options2 = None
                             then options2\<lparr>cb_FailureIf := Some defaultFailurePredicate\<rparr> else options2);
                 options4 = (case cb_Now options3 of
                               None \<Rightarrow> options3\<lparr>cb_Now := Some timeNow\<rparr> | Some f \<Rightarrow> options3)
             in Inr (options4, \<lparr>c_state = CircuitStateClosed, c_failureCount = 0, c_successCount = 0,
                               c_openedAt = 0, c_halfOpenInFlight = 0\<rparr>))"

definition PolicyTypeCircuitBreaker :: string where
  "PolicyTypeCircuitBreaker = ''circuit_breaker''"

definition transitionLocked ::
  "'s circuitOptions \<Rightarrow> circuitState \<Rightarrow> int \<Rightarrow> circuit \<Rightarrow> event option \<times> circuit" where
  "transitionLocked options nxt now c =
     (let previous = c_state c in
      if previous = nxt then (None, c)
      else
        let c1 = c\<lparr>c_state := nxt, c_failureCount := 0, c_successCount := 0, c_halfOpenInFlight := 0\<rparr>;
            c2 = (if nxt = CircuitStateOpen then c1\<lparr>c_openedAt := now\<rparr> else c1)
        in (Some ((newEvent (cb_Name options) PolicyTypeCircuitBreaker EventCircuitStateTransition
                     EventCategoryTransition)\<lparr>State := Some nxt, PreviousState := Some previous\<rparr>), c2))"

definition rejectionEvent :: "'s circuitOptions \<Rightarrow> circuit \<Rightarrow> event" where
  "rejectionEvent options c =
     withErr (Typed (CircuitOpenError (cb_Name options) (c_state c)) None)
       ((newEvent (cb_Name options) PolicyTypeCircuitBreaker EventCircuitRejected EventCategoryRejection)
          \<lparr>State := Some (c_state c)\<rparr>)"

text \<open>The result of the admission: the state the call runs in, or the rejection error.\<close>

definition beforeLocked ::
  "'s circuitOptions \<Rightarrow> int \<Rightarrow> circuit \<Rightarrow> (resError + circuitState) \<times> event option \<times> circuit" where
  "beforeLocked options now c =
     (let (transition, c1) =
            (if c_state c = CircuitStateOpen \<and> cb_OpenTimeout options \<le> timeSub now (c_openedAt c)
             then transitionLocked options CircuitStateHalfOpen now c else (None, c))
      in if c_state c1 = CircuitStateOpen then
           (Inl (Typed (CircuitOpenError (cb_Name options) (c_state c1)) None), Some (rejectionEvent options c1), c1)
         else if c_state c1 = CircuitStateHalfOpen then
           (if cb_HalfOpenMaxConcurrent options \<le> c_halfOpenInFlight c1 then
              (Inl (Typed (CircuitOpenError (cb_Name options) (c_state c1)) None),
               Some ((rejectionEvent options c1)\<lparr>InFlight := c_halfOpenInFlight c1\<rparr>), c1)
            else (Inr (c_state c1), transition, c1\<lparr>c_halfOpenInFlight := c_halfOpenInFlight c1 + 1\<rparr>))
         else (Inr (c_state c1), transition, c1))"

definition afterLocked ::
  "'s circuitOptions \<Rightarrow> int \<Rightarrow> circuitState \<Rightarrow> bool \<Rightarrow> circuit \<Rightarrow> event option \<times> circuit" where
  "afterLocked options now callState failed c =
     (case callState of
        CircuitStateClosed \<Rightarrow>
          if failed then
            let c1 = c\<lparr>c_failureCount := c_failureCount c + 1\<rparr>
            in if cb_FailureThreshold options \<le> c_failureCount c1
               then transitionLocked options CircuitStateOpen now c1 else (None, c1)
          else (None, c\<lparr>c_failureCount := 0\<rparr>)
      | CircuitStateHalfOpen \<Rightarrow>
          let c1 = (if 0 < c_halfOpenInFlight c then c\<lparr>c_halfOpenInFlight := c_halfOpenInFlight c - 1\<rparr> else c)
          in if failed then transitionLocked options CircuitStateOpen now c1
             else
               let c2 = c1\<lparr>c_successCount := c_successCount c1 + 1\<rparr>
               in if cb_SuccessThreshold options \<le> c_successCount c2
                  then transitionLocked options CircuitStateClosed now c2 else (None, c2)
      | CircuitStateOpen \<Rightarrow> (None, c))"

text \<open>The clock of the options; \<^verbatim>\<open>NewCircuitBreaker\<close> never leaves it nil.\<close>

definition readNow :: "'s circuitOptions \<Rightarrow> ('s, int) act" where
  "readNow options s = (case cb_Now options of None \<Rightarrow> (0, s) | Some f \<Rightarrow> f s)"

definition emitOption :: "'s ctxt \<Rightarrow> 's eventHandler option \<Rightarrow> event option \<Rightarrow> 's \<Rightarrow> 's" where
  "emitOption ctx handler ev s = (case ev of None \<Rightarrow> s | Some e \<Rightarrow> emitEvent ctx handler e s)"

definition beforeCall ::
  "(circuit \<times> 'w) circuitOptions \<Rightarrow> (circuit \<times> 'w) ctxt \<Rightarrow> (circuit \<times> 'w, resError + circuitState) act" where
  "beforeCall options ctx \<sigma> =
     (case readNow options \<sigma> of
        (now, \<sigma>1) \<Rightarrow>
          (case beforeLocked options now (fst \<sigma>1) of
             (r, ev, c') \<Rightarrow> (r, emitOption ctx (cb_OnEvent options) ev (c', snd \<sigma>1))))"

definition afterCall ::
  "(circuit \<times> 'w) circuitOptions \<Rightarrow> (circuit \<times> 'w) ctxt \<Rightarrow> circuitState \<Rightarrow> bool \<Rightarrow> circuit \<times> 'w \<Rightarrow> circuit \<times> 'w" where
  "afterCall options ctx callState failed \<sigma> =
     (case readNow options \<sigma> of
        (now, \<sigma>1) \<Rightarrow>
          (case afterLocked options now callState failed (fst \<sigma>1) of
             (ev, c') \<Rightarrow> emitOption ctx (cb_OnEvent options) ev (c', snd \<sigma>1)))"

definition failureIf :: "'s circuitOptions \<Rightarrow> resError option \<Rightarrow> bool" where
  "failureIf options err = (case cb_FailureIf options of None \<Rightarrow> False | Some f \<Rightarrow> f err)"

text \<open>A panic of the operation runs the deferred \<^verbatim>\<open>afterCall\<close> with a failure and goes on.\<close>

definition Apply ::
  "'a \<Rightarrow> (circuit \<times> 'w) circuitOptions \<Rightarrow> (circuit \<times> 'w, 'a) policy" where
  "Apply zero options operation = Some (\<lambda>ctx \<sigma>.
     (case beforeCall options ctx \<sigma> of
        (Inl err, \<sigma>1) \<Rightarrow> (Some (zero, Some err), \<sigma>1)
      | (Inr callState, \<sigma>1) \<Rightarrow>
          (case runOperation zero ctx operation \<sigma>1 of
             (None, \<sigma>2) \<Rightarrow> (None, afterCall options ctx callState True \<sigma>2)
           | (Some (v, err), \<sigma>2) \<Rightarrow>
               (Some (v, err), afterCall options ctx callState (failureIf options err) \<sigma>2))))"

section \<open>Interleaved calls\<close>

text \<open>A configuration: the breaker and the states in which the running calls were admitted.\<close>

record cbconf =
  cf_circuit :: circuit
  cf_running :: "circuitState list"

definition cbinit :: "cbconf \<Rightarrow> bool" where
  "cbinit k \<longleftrightarrow> k = \<lparr>cf_circuit = \<lparr>c_state = CircuitStateClosed, c_failureCount = 0, c_successCount = 0,
     c_openedAt = 0, c_halfOpenInFlight = 0\<rparr>, cf_running = []\<rparr>"

inductive cbstep :: "'s circuitOptions \<Rightarrow> cbconf \<Rightarrow> cbconf \<Rightarrow> bool" for options :: "'s circuitOptions" where
  admit: "beforeLocked options now (cf_circuit k) = (Inr st, ev, c') \<Longrightarrow>
     cbstep options k (k\<lparr>cf_circuit := c', cf_running := st # cf_running k\<rparr>)"
| reject: "beforeLocked options now (cf_circuit k) = (Inl err, ev, c') \<Longrightarrow>
     cbstep options k (k\<lparr>cf_circuit := c'\<rparr>)"
| finish: "st \<in> set (cf_running k) \<Longrightarrow> afterLocked options now st failed (cf_circuit k) = (ev, c') \<Longrightarrow>
     cbstep options k (k\<lparr>cf_circuit := c', cf_running := remove1 st (cf_running k)\<rparr>)"

text \<open>What \<^verbatim>\<open>NewCircuitBreaker\<close> makes of the options.\<close>

definition wf_options :: "'s circuitOptions \<Rightarrow> bool" where
  "wf_options options \<longleftrightarrow>
     0 < cb_FailureThreshold options \<and> 0 < cb_SuccessThreshold options \<and> 0 < cb_OpenTimeout options \<and>
     0 < cb_HalfOpenMaxConcurrent options"

lemma NewCircuitBreaker_wf:
  "NewCircuitBreaker timeNow options = Inr (options', c) \<Longrightarrow>
     wf_options options' \<and> cbinit \<lparr>cf_circuit = c, cf_running = []\<rparr>"
  by (auto simp: NewCircuitBreaker_def wf_options_def cbinit_def Let_def split: if_splits option.splits)

definition wf_circuit :: "'s circuitOptions \<Rightarrow> circuit \<Rightarrow> bool" where
  "wf_circuit options c \<longleftrightarrow>
     0 \<le> c_failureCount c \<and> 0 \<le> c_successCount c \<and>
     0 \<le> c_halfOpenInFlight c \<and> c_halfOpenInFlight c \<le> cb_HalfOpenMaxConcurrent options \<and>
     (c_state c \<noteq> CircuitStateOpen \<longrightarrow> c_failureCount c < cb_FailureThreshold options) \<and>
     (c_state c \<noteq> CircuitStateClosed \<longrightarrow> c_successCount c < cb_SuccessThreshold options) \<and>
     (c_state c \<noteq> CircuitStateHalfOpen \<longrightarrow> c_halfOpenInFlight c = 0)"

lemmas circuit_defs = beforeLocked_def afterLocked_def transitionLocked_def

lemma wf_transitionLocked:
  assumes "wf_options options" "0 \<le> c_failureCount c" "0 \<le> c_successCount c" "c_state c \<noteq> nxt"
  shows "wf_circuit options (snd (transitionLocked options nxt now c))"
  using assms by (auto simp: wf_circuit_def wf_options_def transitionLocked_def Let_def)

lemma wf_beforeLocked [step_inv]:
  "wf_options options \<Longrightarrow> wf_circuit options c \<Longrightarrow> beforeLocked options now c = (r, ev, c') \<Longrightarrow> wf_circuit options c'"
  by (auto simp: wf_circuit_def wf_options_def circuit_defs Let_def split: if_splits)

lemma wf_afterLocked [step_inv]:
  "wf_options options \<Longrightarrow> wf_circuit options c \<Longrightarrow> afterLocked options now st failed c = (ev, c') \<Longrightarrow> wf_circuit options c'"
  by (cases "c_state c"; cases st)
    (auto simp: wf_circuit_def wf_options_def circuit_defs Let_def split: if_splits)

lemma cbstep_wf:
  assumes "wf_options options" "wf_circuit options (cf_circuit k)" "cbstep options k k'"
  shows "wf_circuit options (cf_circuit k')"
  using assms(3) by (cases rule: cbstep.cases) (use assms(1,2) in \<open>auto dest: step_inv\<close>)

interpretation breaker: inductive_invariant cbinit "cbstep options"
    "\<lambda>k. wf_options options \<longrightarrow> wf_circuit options (cf_circuit k)" for options :: "'s circuitOptions"
proof unfold_locales
  show "cbinit k \<Longrightarrow> wf_options options \<longrightarrow> wf_circuit options (cf_circuit k)" for k
    by (auto simp: cbinit_def wf_circuit_def wf_options_def)
qed (blast intro: cbstep_wf)

text \<open>
  C13. Invariant of the breaker under every interleaving of calls and every clock: at most
  \<^verbatim>\<open>HalfOpenMaxConcurrent\<close> probes are counted, and only in the half-open state; outside the open
  state the failure count, outside the closed state the success count is below its threshold.
\<close>

theorem circuit_invariant:
  assumes new: "NewCircuitBreaker timeNow options0 = Inr (options, c0)"
    and run: "reach cbinit (cbstep options) k"
  shows "wf_circuit options (cf_circuit k)"
  using breaker.reach_inv[OF run] NewCircuitBreaker_wf[OF new] by simp

text \<open>Options for the concrete instances: two failures open, one success closes, two probes.\<close>

definition sampleOptions :: "nat circuitOptions" where
  "sampleOptions = \<lparr>cb_Name = ''sample'', cb_FailureThreshold = 2, cb_SuccessThreshold = 0, cb_OpenTimeout = 10,
     cb_HalfOpenMaxConcurrent = 2, cb_FailureIf = None, cb_Now = None, cb_OnEvent = None\<rparr>"

definition sampleClock :: "nat \<Rightarrow> int \<times> nat" where
  "sampleClock w = (int w, w + 1)"

definition sampleDefaults :: "nat circuitOptions" where
  "sampleDefaults = sampleOptions\<lparr>cb_SuccessThreshold := 1, cb_FailureIf := Some defaultFailurePredicate,
     cb_Now := Some sampleClock\<rparr>"

definition closedCircuit :: circuit where
  "closedCircuit = \<lparr>c_state = CircuitStateClosed, c_failureCount = 0, c_successCount = 0, c_openedAt = 0,
     c_halfOpenInFlight = 0\<rparr>"

lemma sample_new: "NewCircuitBreaker sampleClock sampleOptions = Inr (sampleDefaults, closedCircuit)"
  by (simp add: NewCircuitBreaker_def sampleOptions_def sampleDefaults_def closedCircuit_def Let_def)

theorem circuit_invariant_witness:
  "reach cbinit (cbstep sampleDefaults) \<lparr>cf_circuit = closedCircuit, cf_running = [CircuitStateClosed]\<rparr> \<and>
   wf_circuit sampleDefaults closedCircuit"
proof -
  have "reach cbinit (cbstep sampleDefaults) \<lparr>cf_circuit = closedCircuit, cf_running = []\<rparr>"
    by (rule reach_init) (simp add: cbinit_def closedCircuit_def)
  moreover have "cbstep sampleDefaults \<lparr>cf_circuit = closedCircuit, cf_running = []\<rparr>
      \<lparr>cf_circuit = closedCircuit, cf_running = [CircuitStateClosed]\<rparr>"
    using cbstep.admit[of sampleDefaults 0 "\<lparr>cf_circuit = closedCircuit, cf_running = []\<rparr>"]
    by (simp add: beforeLocked_def closedCircuit_def)
  ultimately have r: "reach cbinit (cbstep sampleDefaults) \<lparr>cf_circuit = closedCircuit, cf_running = [CircuitStateClosed]\<rparr>"
    by (rule reach_step)
  from circuit_invariant[OF sample_new r] r show ?thesis by simp
qed

section \<open>Admission\<close>

text \<open>
  Admission: a call is rejected exactly when the breaker is open and the open timeout has not
  passed, or half-open with all probes taken; a rejection is \<^verbatim>\<open>ErrCircuitOpen\<close> and changes
  nothing; an admitted call runs in the closed state, or as one more counted probe.
\<close>

theorem circuit_admission:
  assumes opts: "wf_options options" "cb_OpenTimeout options \<le> maxInt64" and wf: "wf_circuit options c"
    and before: "beforeLocked options now c = (r, ev, c')"
  shows "case r of
      Inl e \<Rightarrow> c' = c \<and> resIs e ErrCircuitOpen \<and>
        (c_state c = CircuitStateOpen \<and> now - c_openedAt c < cb_OpenTimeout options \<or>
         c_state c = CircuitStateHalfOpen \<and> c_halfOpenInFlight c = cb_HalfOpenMaxConcurrent options)
    | Inr st \<Rightarrow> st = c_state c' \<and> st \<noteq> CircuitStateOpen \<and>
        (c_state c = CircuitStateOpen \<longrightarrow> cb_OpenTimeout options \<le> now - c_openedAt c \<and>
           st = CircuitStateHalfOpen \<and> c_halfOpenInFlight c' = 1) \<and>
        (c_state c = CircuitStateClosed \<longrightarrow> c' = c) \<and>
        (c_state c = CircuitStateHalfOpen \<longrightarrow> c' = c\<lparr>c_halfOpenInFlight := c_halfOpenInFlight c + 1\<rparr> \<and>
           c_halfOpenInFlight c < cb_HalfOpenMaxConcurrent options)"
proof -
  have "cb_OpenTimeout options \<le> timeSub now (c_openedAt c) \<longleftrightarrow> cb_OpenTimeout options \<le> now - c_openedAt c"
    using opts by (intro timeSub_ge_iff) (auto simp: wf_options_def minInt64_def)
  then show ?thesis using opts wf before
    by (cases "c_state c") (auto simp: wf_circuit_def wf_options_def circuit_defs Let_def split: if_splits)
qed

theorem circuit_admission_witness:
  "let c = closedCircuit\<lparr>c_state := CircuitStateOpen, c_openedAt := 5\<rparr>
   in \<exists>e ev. beforeLocked sampleDefaults 14 c = (Inl e, ev, c) \<and> resIs e ErrCircuitOpen"
proof -
  let ?c = "closedCircuit\<lparr>c_state := CircuitStateOpen, c_openedAt := 5\<rparr>"
  have o: "wf_options sampleDefaults" "cb_OpenTimeout sampleDefaults \<le> maxInt64" "wf_circuit sampleDefaults ?c"
    by (simp_all add: wf_options_def wf_circuit_def sampleDefaults_def sampleOptions_def closedCircuit_def maxInt64_def)
  have b: "beforeLocked sampleDefaults 14 ?c =
      (Inl (Typed (CircuitOpenError ''sample'' CircuitStateOpen) None), Some (rejectionEvent sampleDefaults ?c), ?c)"
    by (simp add: beforeLocked_def closedCircuit_def sampleDefaults_def sampleOptions_def timeSub_def
        minInt64_def maxInt64_def)
  from circuit_admission[OF o b] b show ?thesis by (simp add: Let_def)
qed

section \<open>Sequential use\<close>

text \<open>
  The automaton the breaker promises to its callers: consecutive failures while closed, the
  instant it opened, or the successes of the current probing.
\<close>

datatype breaker = Closed int | Opened int | Probing int

definition absBreaker :: "circuit \<Rightarrow> breaker" where
  "absBreaker c =
     (case c_state c of
        CircuitStateClosed \<Rightarrow> Closed (c_failureCount c)
      | CircuitStateOpen \<Rightarrow> Opened (c_openedAt c)
      | CircuitStateHalfOpen \<Rightarrow> Probing (c_successCount c))"

text \<open>One call that starts at \<open>t1\<close>, ends at \<open>t2\<close> and fails or not, when it is admitted.\<close>

fun promised :: "'s circuitOptions \<Rightarrow> int \<times> bool \<times> int \<Rightarrow> breaker \<Rightarrow> breaker" where
  "promised options (t1, failed, t2) (Closed n) =
     (if \<not> failed then Closed 0
      else if cb_FailureThreshold options \<le> n + 1 then Opened t2 else Closed (n + 1))"
| "promised options (t1, failed, t2) (Opened t) =
     (if t1 - t < cb_OpenTimeout options then Opened t
      else if failed then Opened t2
      else if cb_SuccessThreshold options \<le> 1 then Closed 0 else Probing 1)"
| "promised options (t1, failed, t2) (Probing n) =
     (if failed then Opened t2
      else if cb_SuccessThreshold options \<le> n + 1 then Closed 0 else Probing (n + 1))"

definition seqCall :: "'s circuitOptions \<Rightarrow> int \<times> bool \<times> int \<Rightarrow> circuit \<Rightarrow> circuit" where
  "seqCall options call c =
     (case call of
        (t1, failed, t2) \<Rightarrow>
          (case beforeLocked options t1 c of
             (Inl err, ev, c') \<Rightarrow> c'
           | (Inr st, ev, c') \<Rightarrow> snd (afterLocked options t2 st failed c')))"

text \<open>No call is running, and the counters of the other states are zero.\<close>

definition settled :: "'s circuitOptions \<Rightarrow> circuit \<Rightarrow> bool" where
  "settled options c \<longleftrightarrow> wf_circuit options c \<and> c_halfOpenInFlight c = 0"

lemma seqCall_settled:
  assumes "wf_options options" "settled options c"
  shows "settled options (seqCall options call c)"
proof -
  obtain t1 failed t2 where call: "call = (t1, failed, t2)" by (cases call) auto
  obtain r ev c1 where b: "beforeLocked options t1 c = (r, ev, c1)" by (cases "beforeLocked options t1 c") auto
  have wf1: "wf_circuit options c1" using assms b by (auto simp: settled_def intro: wf_beforeLocked)
  then have "wf_circuit options (snd (afterLocked options t2 st failed c1))" for st
    by (rule wf_afterLocked[OF assms(1) _ surjective_pairing])
  then have "wf_circuit options (seqCall options call c)" using b wf1
    by (cases r) (simp_all add: call seqCall_def)
  moreover have "c_halfOpenInFlight (seqCall options call c) = 0"
    using assms by (cases "c_state c")
      (auto simp: call seqCall_def settled_def wf_circuit_def wf_options_def circuit_defs Let_def split: if_splits)
  ultimately show ?thesis by (simp add: settled_def)
qed

lemma seqCall_abs:
  assumes opts: "wf_options options" "cb_OpenTimeout options \<le> maxInt64" and "settled options c"
  shows "absBreaker (seqCall options call c) = promised options call (absBreaker c)"
proof -
  obtain t1 failed t2 where call: "call = (t1, failed, t2)" by (cases call) auto
  have "cb_OpenTimeout options \<le> timeSub t1 (c_openedAt c) \<longleftrightarrow> cb_OpenTimeout options \<le> t1 - c_openedAt c"
    using opts by (intro timeSub_ge_iff) (auto simp: wf_options_def minInt64_def)
  then show ?thesis using assms
    by (cases "c_state c")
      (auto simp: call absBreaker_def seqCall_def settled_def wf_circuit_def wf_options_def circuit_defs Let_def)
qed

text \<open>
  C2. Used one call at a time, the breaker refines the promised automaton: it opens at the
  threshold of consecutive failures, stays open for the timeout whatever is called, then probes,
  and closes or opens again by the outcome of the probes.
\<close>

theorem circuit_refines:
  assumes new: "NewCircuitBreaker timeNow options0 = Inr (options, c0)"
    and range: "cb_OpenTimeout options \<le> maxInt64"
  shows "absBreaker (fold (seqCall options) calls c0) = fold (promised options) calls (Closed 0)"
proof -
  have opts: "wf_options options" using NewCircuitBreaker_wf[OF new] by simp
  have c0: "c0 = \<lparr>c_state = CircuitStateClosed, c_failureCount = 0, c_successCount = 0, c_openedAt = 0,
      c_halfOpenInFlight = 0\<rparr>"
    using NewCircuitBreaker_wf[OF new] by (simp add: cbinit_def)
  have "settled options c \<Longrightarrow> absBreaker (fold (seqCall options) calls c) = fold (promised options) calls (absBreaker c)" for c
    by (induction calls arbitrary: c) (simp_all add: seqCall_abs[OF opts range] seqCall_settled[OF opts])
  moreover have "settled options c0" using opts
    by (auto simp: c0 settled_def wf_circuit_def wf_options_def)
  ultimately show ?thesis by (simp add: absBreaker_def c0)
qed

theorem circuit_refines_witness:
  "absBreaker (fold (seqCall sampleDefaults) [(0, True, 1), (2, True, 3), (4, True, 5), (13, False, 14)] closedCircuit) =
     Closed 0 \<and>
   absBreaker (fold (seqCall sampleDefaults) [(0, True, 1), (2, True, 3), (4, True, 5)] closedCircuit) = Opened 3"
proof -
  have r: "cb_OpenTimeout sampleDefaults \<le> maxInt64"
    by (simp add: sampleDefaults_def sampleOptions_def maxInt64_def)
  show ?thesis unfolding circuit_refines[OF sample_new r]
    by (simp add: sampleDefaults_def sampleOptions_def)
qed

section \<open>Stale probes\<close>

lemma cb_run:
  assumes "reach cbinit (cbstep options) k" "cbstep options k k'"
  shows "reach cbinit (cbstep options) k'"
  using assms by (rule reach_step)

text \<open>
  C33. With two concurrent probes the promise fails: after one probe fails and opens the breaker,
  the success of the other, still running probe closes it at the same instant, without any open
  interval.
\<close>

theorem circuit_stale_probe:
  assumes opts: "cb_FailureThreshold options = 1" "cb_SuccessThreshold options = 1"
    "cb_HalfOpenMaxConcurrent options = 2" "0 < cb_OpenTimeout options" "cb_OpenTimeout options \<le> maxInt64"
  shows "\<exists>k ev c'. reach cbinit (cbstep options) k \<and> CircuitStateHalfOpen \<in> set (cf_running k) \<and>
    c_state (cf_circuit k) = CircuitStateOpen \<and>
    afterLocked options (c_openedAt (cf_circuit k)) CircuitStateHalfOpen False (cf_circuit k) = (ev, c') \<and>
    c_state c' = CircuitStateClosed"
proof -
  let ?T = "cb_OpenTimeout options"
  let ?C = "\<lambda>st n t0. \<lparr>c_state = st, c_failureCount = 0, c_successCount = 0, c_openedAt = t0, c_halfOpenInFlight = n\<rparr>"
  let ?k = "\<lambda>c r. \<lparr>cf_circuit = c, cf_running = r\<rparr>"
  have late: "?T \<le> timeSub ?T 0" using opts by (simp add: timeSub_def maxInt64_def minInt64_def)
  have 0: "reach cbinit (cbstep options) (?k (?C CircuitStateClosed 0 0) [])"
    by (rule reach_init) (simp add: cbinit_def)
  have 1: "reach cbinit (cbstep options) (?k (?C CircuitStateClosed 0 0) [CircuitStateClosed])"
    using cb_run[OF 0 cbstep.admit[of options 0]] by (simp add: circuit_defs)
  have 2: "reach cbinit (cbstep options) (?k (?C CircuitStateOpen 0 0) [])"
    using cb_run[OF 1 cbstep.finish[of CircuitStateClosed _ options 0 True]] opts
    by (simp add: circuit_defs Let_def)
  have 3: "reach cbinit (cbstep options) (?k (?C CircuitStateHalfOpen 1 0) [CircuitStateHalfOpen])"
    using cb_run[OF 2 cbstep.admit[of options ?T]] opts late by (simp add: circuit_defs Let_def)
  have 4: "reach cbinit (cbstep options) (?k (?C CircuitStateHalfOpen 2 0) [CircuitStateHalfOpen, CircuitStateHalfOpen])"
    using cb_run[OF 3 cbstep.admit[of options ?T]] opts by (simp add: circuit_defs Let_def)
  have 5: "reach cbinit (cbstep options) (?k (?C CircuitStateOpen 0 ?T) [CircuitStateHalfOpen])"
    using cb_run[OF 4 cbstep.finish[of CircuitStateHalfOpen _ options ?T True]] opts
    by (simp add: circuit_defs Let_def)
  show ?thesis using 5 opts
    by (intro exI[of _ "?k (?C CircuitStateOpen 0 ?T) [CircuitStateHalfOpen]"])
      (simp add: circuit_defs Let_def)
qed

theorem circuit_stale_probe_witness:
  "\<exists>k. reach cbinit (cbstep (sampleDefaults\<lparr>cb_FailureThreshold := 1\<rparr>)) k \<and>
     c_state (cf_circuit k) = CircuitStateOpen"
proof -
  have "\<exists>k ev c'. reach cbinit (cbstep (sampleDefaults\<lparr>cb_FailureThreshold := 1\<rparr>)) k \<and>
      CircuitStateHalfOpen \<in> set (cf_running k) \<and> c_state (cf_circuit k) = CircuitStateOpen \<and>
      afterLocked (sampleDefaults\<lparr>cb_FailureThreshold := 1\<rparr>) (c_openedAt (cf_circuit k)) CircuitStateHalfOpen
        False (cf_circuit k) = (ev, c') \<and> c_state c' = CircuitStateClosed"
    by (rule circuit_stale_probe) (simp_all add: sampleDefaults_def sampleOptions_def maxInt64_def)
  then show ?thesis by blast
qed

end
