(* ===== verification/Policies.thy ===== *)
theory Policies
  imports Resilience "HOL-Library.Multiset"
begin

text \<open>
  The bulkhead, retry and timeout policies of package \<^verbatim>\<open>resilience\<close> (\<^verbatim>\<open>resilience/bulkhead.go\<close>,
  \<^verbatim>\<open>retry.go\<close>, \<^verbatim>\<open>timeout.go\<close>) and the constant backoffs of \<^verbatim>\<open>backoff.go\<close>. The permits of a
  bulkhead are the first component of its store. The choices of the Go runtime, which ready
  case a \<^verbatim>\<open>select\<close> takes, are actions on the store that the definitions take as arguments.
\<close>

section \<open>Bulkhead\<close>

record 's bulkheadOptions =
  bh_Name :: string
  bh_MaxConcurrent :: int
  bh_Wait :: bool
  bh_OnEvent :: "'s eventHandler option"


definition PolicyTypeBulkhead :: string where
  "PolicyTypeBulkhead = ''bulkhead''"

text \<open>Sending to the permit channel succeeds while its buffer has room.\<close>

definition trySend :: "'s bulkheadOptions \<Rightarrow> nat \<Rightarrow> nat option" where
  "trySend options permits = (if int permits < bh_MaxConcurrent options then Some (permits + 1) else None)"

definition emitAccepted ::
  "(nat \<times> 'w) bulkheadOptions \<Rightarrow> (nat \<times> 'w) ctxt \<Rightarrow> nat \<times> 'w \<Rightarrow> nat \<times> 'w" where
  "emitAccepted options ctx \<sigma> =
     emitEvent ctx (bh_OnEvent options)
       ((newEvent (bh_Name options) PolicyTypeBulkhead EventBulkheadAccepted EventCategoryAdmission)
          \<lparr>InFlight := int (fst \<sigma>)\<rparr>) \<sigma>"

text \<open>
  In waiting mode \<open>selects\<close> is the blocking \<^verbatim>\<open>select\<close>: other goroutines act on the store until it
  takes the send (\<open>True\<close>, the permit is added by the caller) or the done channel (\<open>False\<close>).
\<close>

definition acquire ::
  "(nat \<times> 'w) bulkheadOptions \<Rightarrow> (nat \<times> 'w, bool) act \<Rightarrow> (nat \<times> 'w) ctxt \<Rightarrow> (nat \<times> 'w, resError option) act" where
  "acquire options selects ctx \<sigma> =
     (case ctx \<sigma> of
        (Some err, \<sigma>1) \<Rightarrow> (Some err, \<sigma>1)
      | (None, \<sigma>1) \<Rightarrow>
          if bh_Wait options then
            (case selects \<sigma>1 of
               (True, \<sigma>2) \<Rightarrow> (None, emitAccepted options ctx (fst \<sigma>2 + 1, snd \<sigma>2))
             | (False, \<sigma>2) \<Rightarrow> ctx \<sigma>2)
          else
            (case trySend options (fst \<sigma>1) of
               Some permits \<Rightarrow> (None, emitAccepted options ctx (permits, snd \<sigma>1))
             | None \<Rightarrow>
                 let rejection = Typed (BulkheadRejectedError (bh_Name options)) None
                 in (Some rejection,
                     emitEvent ctx (bh_OnEvent options)
                       (withErr rejection
                          ((newEvent (bh_Name options) PolicyTypeBulkhead EventBulkheadRejected EventCategoryRejection)
                             \<lparr>InFlight := int (fst \<sigma>1)\<rparr>)) \<sigma>1)))"

definition release :: "nat \<times> 'w \<Rightarrow> nat \<times> 'w" where
  "release \<sigma> = (fst \<sigma> - 1, snd \<sigma>)"

definition bulkheadApply ::
  "'a \<Rightarrow> (nat \<times> 'w) bulkheadOptions \<Rightarrow> (nat \<times> 'w, bool) act \<Rightarrow> (nat \<times> 'w, 'a) policy" where
  "bulkheadApply zero options selects operation = Some (\<lambda>ctx \<sigma>.
     (case acquire options selects ctx \<sigma> of
        (Some err, \<sigma>1) \<Rightarrow> (Some (zero, Some err), \<sigma>1)
      | (None, \<sigma>1) \<Rightarrow>
          (case runOperation zero ctx operation \<sigma>1 of
             (None, \<sigma>2) \<Rightarrow> (None, release \<sigma>2)
           | (Some (v, err), \<sigma>2) \<Rightarrow>
               (Some (v, err),
                release
                  (if err = None
                   then emitEvent ctx (bh_OnEvent options)
                          ((newEvent (bh_Name options) PolicyTypeBulkhead EventSuccess EventCategorySuccess)
                             \<lparr>InFlight := int (fst \<sigma>2)\<rparr>) \<sigma>2
                   else \<sigma>2)))))"

section \<open>Backoff and retry\<close>

definition NoBackoff :: "int \<Rightarrow> int" where
  "NoBackoff attempt = 0"

definition ConstantBackoff :: "int \<Rightarrow> int \<Rightarrow> int" where
  "ConstantBackoff delay attempt = (if delay < 0 then 0 else delay)"

definition retryAllButCanceled :: "resError option \<Rightarrow> bool" where
  "retryAllButCanceled err =
     (case err of
        None \<Rightarrow> False
      | Some e \<Rightarrow>
          if resIs e ctxCanceled then False
          else if isTimeoutError e then True
          else \<not> resIs e ctxDeadlineExceeded)"

text \<open>\<open>timerFirst\<close> says whether the timer fires before the context is done.\<close>

definition realSleeper :: "(int \<Rightarrow> ('s, bool) act) \<Rightarrow> 's ctxt \<Rightarrow> int \<Rightarrow> ('s, resError option) act" where
  "realSleeper timerFirst ctx delay s =
     (if delay \<le> 0 then ctx s
      else case timerFirst delay s of (True, s') \<Rightarrow> (None, s') | (False, s') \<Rightarrow> ctx s')"

record 's retryOptions =
  rt_Name :: string
  rt_MaxAttempts :: int
  rt_Backoff :: "(int \<Rightarrow> int) option"
  rt_RetryIf :: "(resError option \<Rightarrow> bool) option"
  rt_Sleeper :: "('s ctxt \<Rightarrow> int \<Rightarrow> ('s, resError option) act) option"
  rt_OnEvent :: "'s eventHandler option"

definition NewRetry :: "(int \<Rightarrow> ('s, bool) act) \<Rightarrow> 's retryOptions \<Rightarrow> string + 's retryOptions" where
  "NewRetry timerFirst options =
     (if rt_MaxAttempts options \<le> 0 then Inl ''max attempts must be positive''
      else
        let options1 = (case rt_Backoff options of
                          None \<Rightarrow> options\<lparr>rt_Backoff := Some NoBackoff\<rparr> | Some f \<Rightarrow> options);
            options2 = (case rt_RetryIf options1 of
                          None \<Rightarrow> options1\<lparr>rt_RetryIf := Some retryAllButCanceled\<rparr> | Some f \<Rightarrow> options1);
            options3 = (case rt_Sleeper options2 of
                          None \<Rightarrow> options2\<lparr>rt_Sleeper := Some (realSleeper timerFirst)\<rparr> | Some f \<Rightarrow> options2)
        in Inr options3)"

text \<open>The fields \<^verbatim>\<open>NewRetry\<close> never leaves nil.\<close>

definition retryIf :: "'s retryOptions \<Rightarrow> resError option \<Rightarrow> bool" where
  "retryIf options err = (case rt_RetryIf options of None \<Rightarrow> False | Some f \<Rightarrow> f err)"

definition backoffDelay :: "'s retryOptions \<Rightarrow> int \<Rightarrow> int" where
  "backoffDelay options attempt = (case rt_Backoff options of None \<Rightarrow> 0 | Some f \<Rightarrow> f attempt)"

definition sleepFor :: "'s retryOptions \<Rightarrow> 's ctxt \<Rightarrow> int \<Rightarrow> ('s, resError option) act" where
  "sleepFor options ctx delay s = (case rt_Sleeper options of None \<Rightarrow> (None, s) | Some f \<Rightarrow> f ctx delay s)"

definition PolicyTypeRetry :: string where
  "PolicyTypeRetry = ''retry''"

definition retryFailure :: "'s retryOptions \<Rightarrow> int \<Rightarrow> resError \<Rightarrow> event" where
  "retryFailure options attempt e =
     withErr e ((newEvent (rt_Name options) PolicyTypeRetry EventFailure EventCategoryFailure)\<lparr>Attempt := attempt\<rparr>)"

text \<open>The loop of \<^verbatim>\<open>Apply\<close> from \<open>attempt\<close> on, with the error of the attempt before.\<close>

function retryLoop ::
  "'a \<Rightarrow> 's retryOptions \<Rightarrow> ('s, 'a) operation option \<Rightarrow> 's ctxt \<Rightarrow> int \<Rightarrow> resError option \<Rightarrow>
   ('s, ('a \<times> resError option) option) act" where
  "retryLoop zero options operation ctx attempt lastErr s =
     (if attempt \<le> rt_MaxAttempts options then
        (case ctx s of
           (Some err, s1) \<Rightarrow> (Some (zero, Some err), s1)
         | (None, s1) \<Rightarrow>
             (case runOperation zero ctx operation s1 of
                (None, s2) \<Rightarrow> (None, s2)
              | (Some (v, None), s2) \<Rightarrow>
                  (Some (v, None),
                   emitEvent ctx (rt_OnEvent options)
                     ((newEvent (rt_Name options) PolicyTypeRetry EventSuccess EventCategorySuccess)\<lparr>Attempt := attempt\<rparr>) s2)
              | (Some (v, Some err), s2) \<Rightarrow>
                  if IsNonRetryable (Some err) \<or> \<not> retryIf options (Some err) then
                    (Some (zero, Some err), emitEvent ctx (rt_OnEvent options) (retryFailure options attempt err) s2)
                  else if attempt = rt_MaxAttempts options then
                    (let retryErr = Typed (RetryError (rt_Name options) attempt) (Some err)
                     in (Some (zero, Some retryErr),
                         emitEvent ctx (rt_OnEvent options) (retryFailure options attempt retryErr) s2))
                  else
                    (let delay = backoffDelay options attempt;
                         s3 = emitEvent ctx (rt_OnEvent options)
                                (withErr err ((newEvent (rt_Name options) PolicyTypeRetry EventRetry EventCategoryRetry)
                                   \<lparr>Attempt := attempt, Delay := delay\<rparr>)) s2
                     in case sleepFor options ctx delay s3 of
                          (Some e, s4) \<Rightarrow> (Some (zero, Some e), s4)
                        | (None, s4) \<Rightarrow> retryLoop zero options operation ctx (attempt + 1) (Some err) s4)))
      else (Some (zero, Some (Typed (RetryError (rt_Name options) (rt_MaxAttempts options)) lastErr)), s))"
  by pat_completeness auto
termination
  by (relation "measure (\<lambda>(z, p, op, ctx, a, l, s). nat (rt_MaxAttempts p + 1 - a))") auto

declare retryLoop.simps [simp del]

definition retryApply :: "'a \<Rightarrow> 's retryOptions \<Rightarrow> ('s, 'a) policy" where
  "retryApply zero options operation = Some (\<lambda>ctx s. retryLoop zero options operation ctx 1 None s)"

section \<open>Timeout\<close>

record 's timeoutOptions =
  tm_Name :: string
  tm_Timeout :: int
  tm_OnEvent :: "'s eventHandler option"

definition NewTimeout :: "'s timeoutOptions \<Rightarrow> string + 's timeoutOptions" where
  "NewTimeout options = (if tm_Timeout options \<le> 0 then Inl ''timeout must be positive'' else Inr options)"

definition PolicyTypeTimeout :: string where
  "PolicyTypeTimeout = ''timeout''"

text \<open>
  \<open>withTimeout\<close> is \<^verbatim>\<open>context.WithTimeout\<close>: the derived context and its cancel function, which
  is deferred and so runs on every way out, a panic included.
\<close>

definition timeoutApply ::
  "'a \<Rightarrow> ('s ctxt \<Rightarrow> int \<Rightarrow> ('s, 's ctxt \<times> ('s \<Rightarrow> 's)) act) \<Rightarrow> 's timeoutOptions \<Rightarrow> ('s, 'a) policy" where
  "timeoutApply zero withTimeout options operation = Some (\<lambda>ctx s.
     (case withTimeout ctx (tm_Timeout options) s of
        ((timeoutCtx, cancel), s1) \<Rightarrow>
          (case runOperation zero timeoutCtx operation s1 of
             (None, s2) \<Rightarrow> (None, cancel s2)
           | (Some (v, None), s2) \<Rightarrow>
               (Some (v, None),
                cancel (emitEvent ctx (tm_OnEvent options)
                  ((newEvent (tm_Name options) PolicyTypeTimeout EventSuccess EventCategorySuccess)
                     \<lparr>Timeout := tm_Timeout options\<rparr>) s2))
           | (Some (v, Some err), s2) \<Rightarrow>
               if \<not> resIs err ctxDeadlineExceeded then (Some (v, Some err), cancel s2)
               else
                 (case timeoutCtx s2 of
                    (terr, s3) \<Rightarrow>
                      if terr \<noteq> Some (Sentinel ctxDeadlineExceeded) then (Some (v, Some err), cancel s3)
                      else
                        (case ctx s3 of
                           (Some perr, s4) \<Rightarrow> (Some (v, Some err), cancel s4)
                         | (None, s4) \<Rightarrow>
                             (let timeoutErr = Typed (TimeoutError (tm_Name options) (tm_Timeout options)) (Some err)
                              in (Some (v, Some timeoutErr),
                                  cancel (emitEvent ctx (tm_OnEvent options)
                                    (withErr timeoutErr ((newEvent (tm_Name options) PolicyTypeTimeout EventTimeout
                                       EventCategoryTimeout)\<lparr>Timeout := tm_Timeout options\<rparr>)) s4))))))))"

section \<open>Bulkhead under interleaving\<close>











section \<open>Apply takes the steps\<close>
















text \<open>One place, and an operation during which another call comes in.\<close>

definition oneSlot :: "(nat \<times> nat) bulkheadOptions" where
  "oneSlot = \<lparr>bh_Name = ''one'', bh_MaxConcurrent = 1, bh_Wait = False, bh_OnEvent = None\<rparr>"

definition countCall :: "(nat \<times> nat, nat) operation" where
  "countCall ctx \<sigma> = (Some (7, None), (fst \<sigma>, snd \<sigma> + 1))"




section \<open>Permits of one call\<close>

text \<open>The number in the first component of the store is left alone.\<close>

definition keepsCount :: "(nat \<times> 'w, 'r) act \<Rightarrow> bool" where
  "keepsCount f \<longleftrightarrow> (\<forall>\<sigma>. fst (snd (f \<sigma>)) = fst \<sigma>)"

definition quietHandler :: "(nat \<times> 'w) eventHandler option \<Rightarrow> bool" where
  "quietHandler h \<longleftrightarrow> (\<forall>ctx ev \<sigma>. fst (emitEvent ctx h ev \<sigma>) = fst \<sigma>)"

lemma quietHandlerD: "quietHandler h \<Longrightarrow> fst (emitEvent ctx h ev \<sigma>) = fst \<sigma>"
  unfolding quietHandler_def by blast

lemma keepsCountD: "keepsCount f \<Longrightarrow> f \<sigma> = (r, \<sigma>') \<Longrightarrow> fst \<sigma>' = fst \<sigma>"
  by (metis keepsCount_def snd_conv)

lemma runOperation_keeps:
  assumes "keepsCount ctx" "keepsCount (op ctx)"
  shows "keepsCount (runOperation zero ctx (Some op))"
  using assms by (auto simp: keepsCount_def runOperation_def split: prod.splits option.splits) (metis snd_conv fst_conv)+

text \<open>
  What a blocking \<^verbatim>\<open>select\<close> that returns promises, in waiting mode: it takes the send only when the
  channel has room, the done channel only when the context has an error, and adds no permit itself.
\<close>

definition selectLaw :: "'s bulkheadOptions \<Rightarrow> (nat \<times> 'w) ctxt \<Rightarrow> (nat \<times> 'w, bool) act \<Rightarrow> bool" where
  "selectLaw options ctx selects \<longleftrightarrow> bh_Wait options \<longrightarrow> keepsCount selects \<and>
     (\<forall>\<sigma> \<sigma>'. selects \<sigma> = (True, \<sigma>') \<longrightarrow> int (fst \<sigma>') < bh_MaxConcurrent options) \<and>
     (\<forall>\<sigma> \<sigma>'. selects \<sigma> = (False, \<sigma>') \<longrightarrow> fst (ctx \<sigma>') \<noteq> None)"

lemma acquire_permits:
  assumes keeps: "keepsCount ctx" "quietHandler (bh_OnEvent options)"
    and sel: "selectLaw options ctx selects" and acq: "acquire options selects ctx \<sigma> = (r, \<sigma>')"
  shows "fst \<sigma>' = (if r = None then fst \<sigma> + 1 else fst \<sigma>) \<and>
    (r = None \<longrightarrow> int (fst \<sigma>) < bh_MaxConcurrent options)"
proof -
  obtain e \<sigma>1 where s1: "ctx \<sigma> = (e, \<sigma>1)" by (rule prod.exhaust)
  have k1: "fst \<sigma>1 = fst \<sigma>" using keepsCountD[OF keeps(1) s1] .
  obtain b \<sigma>2 where s2: "selects \<sigma>1 = (b, \<sigma>2)" by (rule prod.exhaust)
  obtain e3 \<sigma>3 where s3: "ctx \<sigma>2 = (e3, \<sigma>3)" by (rule prod.exhaust)
  have k2: "bh_Wait options \<Longrightarrow> fst \<sigma>2 = fst \<sigma>"
    using sel keepsCountD[of selects, OF _ s2] k1 by (auto simp: selectLaw_def)
  have k3: "fst \<sigma>3 = fst \<sigma>2" using keepsCountD[OF keeps(1) s3] .
  have room: "bh_Wait options \<Longrightarrow> b \<Longrightarrow> int (fst \<sigma>) < bh_MaxConcurrent options"
    using sel s2 k2 unfolding selectLaw_def by metis
  have closed: "bh_Wait options \<Longrightarrow> \<not> b \<Longrightarrow> e3 \<noteq> None" using sel s2 s3 unfolding selectLaw_def by (metis fst_conv)
  from acq keeps(2) k1 k2 k3 room closed show ?thesis
    by (cases e; cases b)
      (auto simp: acquire_def s1 s2 s3 emitAccepted_def quietHandlerD trySend_def Let_def
        split: option.splits if_splits)
qed

text \<open>
  No call leaks or loses a permit: whether the operation succeeds, fails or panics, and
  whether it is admitted at all, the permits after the call are those before it. With no place
  free and no waiting the operation is not run, and the caller gets the rejection or the error
  of the context.
\<close>

theorem bulkhead_no_leak:
  assumes keeps: "keepsCount ctx" "keepsCount (op ctx)"
      "quietHandler (bh_OnEvent options)" and sel: "selectLaw options ctx selects"
    and wrap: "bulkheadApply zero options selects (Some op) = Some w" and call: "w ctx \<sigma> = (r, \<sigma>')"
  shows "fst \<sigma>' = fst \<sigma> \<and>
    (\<not> bh_Wait options \<and> bh_MaxConcurrent options \<le> int (fst \<sigma>) \<longrightarrow>
       (\<exists>e. r = Some (zero, Some e) \<and> (resIs e ErrBulkheadRejected \<or> fst (ctx \<sigma>) = Some e)))"
proof -
  obtain e \<sigma>1 where acquired: "acquire options selects ctx \<sigma> = (e, \<sigma>1)" by (rule prod.exhaust)
  note acq = acquire_permits[OF keeps(1,3) sel acquired]
  obtain x \<sigma>2 where run: "runOperation zero ctx (Some op) \<sigma>1 = (x, \<sigma>2)" by (rule prod.exhaust)
  have k2: "fst \<sigma>2 = fst \<sigma>1" using keepsCountD[OF runOperation_keeps[of ctx op, OF keeps(1,2)] run] .
  have w: "w ctx \<sigma> = (case e of Some err \<Rightarrow> (Some (zero, Some err), \<sigma>1)
      | None \<Rightarrow> (case x of None \<Rightarrow> (None, release \<sigma>2)
          | Some (v, err) \<Rightarrow> (Some (v, err), release (if err = None then emitEvent ctx (bh_OnEvent options)
              ((newEvent (bh_Name options) PolicyTypeBulkhead EventSuccess EventCategorySuccess)
                 \<lparr>InFlight := int (fst \<sigma>2)\<rparr>) \<sigma>2 else \<sigma>2))))"
    using wrap by (auto simp: bulkheadApply_def acquired run split: option.splits)
  have "fst \<sigma>' = fst \<sigma>" using call acq k2 keeps(3) unfolding w
    by (auto simp: release_def quietHandlerD split: option.splits prod.splits)
  moreover have "\<exists>e. r = Some (zero, Some e) \<and> (resIs e ErrBulkheadRejected \<or> fst (ctx \<sigma>) = Some e)"
    if full: "\<not> bh_Wait options \<and> bh_MaxConcurrent options \<le> int (fst \<sigma>)"
  proof -
    from full acq obtain err where e: "e = Some err" by (cases e) auto
    have "resIs err ErrBulkheadRejected \<or> fst (ctx \<sigma>) = Some err"
      using acquired full by (auto simp: acquire_def e Let_def split: prod.splits option.splits)
    with call show ?thesis unfolding w by (auto simp: e)
  qed
  ultimately show ?thesis by blast
qed

text \<open>One place, taken: the operation, which would count its call, is not run.\<close>

theorem bulkhead_no_leak_witness:
  "\<exists>w e n. bulkheadApply 0 oneSlot (Pair True) (Some countCall) = Some w \<and>
     w background (1, 5) = (Some (0, Some e), (1, n)) \<and> resIs e ErrBulkheadRejected"
proof -
  obtain w where w: "bulkheadApply 0 oneSlot (Pair True) (Some countCall) = Some w" by (simp add: bulkheadApply_def)
  obtain r p n where c: "w background (1, 5) = (r, (p, n))" by (metis surj_pair)
  have h: "keepsCount background" "keepsCount (countCall background)" "quietHandler (bh_OnEvent oneSlot)"
    "selectLaw oneSlot background (Pair True)"
    by (simp_all add: keepsCount_def countCall_def quietHandler_def emitEvent_def oneSlot_def selectLaw_def background_def)
  have "p = 1 \<and> (\<exists>e. r = Some (0, Some e) \<and> resIs e ErrBulkheadRejected)"
    using bulkhead_no_leak[OF h w c] by (simp add: oneSlot_def background_def)
  with w c show ?thesis by auto
qed

section \<open>Attempts of a retry\<close>

lemma retryLoop_bound:
  assumes keeps: "keepsCount ctx" "quietHandler (rt_OnEvent options)" "\<And>d. keepsCount (sleepFor options ctx d)"
    and op: "\<And>\<sigma>. fst (snd (op ctx \<sigma>)) = fst \<sigma> + 1"
  shows "fst (snd (retryLoop zero options (Some op) ctx attempt lastErr \<sigma>)) \<le>
    fst \<sigma> + nat (rt_MaxAttempts options + 1 - attempt)"
proof (induction "nat (rt_MaxAttempts options + 1 - attempt)" arbitrary: attempt lastErr \<sigma>)
  case 0
  then show ?case by (subst retryLoop.simps) simp
next
  case (Suc n)
  then have le: "attempt \<le> rt_MaxAttempts options" and n: "n = nat (rt_MaxAttempts options + 1 - (attempt + 1))"
    by simp_all
  have IH: "fst (snd (retryLoop zero options (Some op) ctx (attempt + 1) le \<sigma>)) \<le> fst \<sigma> + n" for le \<sigma>
    using Suc.hyps(1)[OF n, of le \<sigma>] n by simp
  obtain e1 \<sigma>1 where s1: "ctx \<sigma> = (e1, \<sigma>1)" by (rule prod.exhaust)
  obtain r \<sigma>3 where s3: "runOperation zero ctx (Some op) \<sigma>1 = (r, \<sigma>3)" by (rule prod.exhaust)
  have k1: "fst \<sigma>1 = fst \<sigma>" using keepsCountD[OF keeps(1) s1] .
  have k3: "fst \<sigma>3 \<le> fst \<sigma> + 1"
    using s3 op k1 keepsCountD[OF keeps(1), of \<sigma>1]
    by (auto simp: runOperation_def split: prod.splits option.splits) (metis Suc_eq_plus1 fst_conv le_refl snd_conv)
  have tail: "fst (snd (case sleepFor options ctx d s of (Some e, s4) \<Rightarrow> (Some (zero, Some e), s4)
      | (None, s4) \<Rightarrow> retryLoop zero options (Some op) ctx (attempt + 1) err s4)) \<le> fst \<sigma> + Suc n"
    if s: "fst s \<le> fst \<sigma> + 1" for d s err
  proof -
    obtain e s4 where s4: "sleepFor options ctx d s = (e, s4)" by (rule prod.exhaust)
    have "fst s4 = fst s" by (rule keepsCountD[OF keeps(3) s4])
    then show ?thesis using s IH[of err s4] by (cases e) (simp_all add: s4)
  qed
  have quiet: "fst (emitEvent ctx (rt_OnEvent options) ev \<sigma>3) \<le> fst \<sigma> + Suc n" for ev
    using k3 quietHandlerD[OF keeps(2)] by (simp add: le_trans)
  note tail' = tail[of "emitEvent ctx (rt_OnEvent options) ev \<sigma>3" for ev, unfolded quietHandlerD[OF keeps(2)], OF k3]
  consider "e1 \<noteq> None" | "e1 = None" "r = None" | v where "e1 = None" "r = Some (v, None)"
    | v err where "e1 = None" "r = Some (v, Some err)" by (metis option.exhaust prod.exhaust)
  then have "fst (snd (retryLoop zero options (Some op) ctx attempt lastErr \<sigma>)) \<le> fst \<sigma> + Suc n"
  proof cases
    case 1
    then show ?thesis using le k1 by (subst retryLoop.simps) (auto simp: s1)
  next
    case 2
    then show ?thesis using le k3 by (subst retryLoop.simps) (simp add: s1 s3)
  next
    case 3
    then show ?thesis using le quiet by (subst retryLoop.simps) (simp add: s1 s3)
  next
    case 4
    then show ?thesis using le by (subst retryLoop.simps) (simp add: s1 s3 Let_def quiet[simplified] tail'[simplified])
  qed
  then show ?case using Suc.hyps(2) by simp
qed

text \<open>
  A retry ends: whatever the operation, the context, the sleeper and the handler do, the
  operation is called at most \<^verbatim>\<open>MaxAttempts\<close> times, and not at all when the context already has
  an error.
\<close>

theorem retry_attempt_bound:
  assumes new: "NewRetry timerFirst options0 = Inr options"
    and keeps: "keepsCount ctx" "quietHandler (rt_OnEvent options)" "\<And>d. keepsCount (sleepFor options ctx d)"
    and op: "\<And>\<sigma>. fst (snd (op ctx \<sigma>)) = fst \<sigma> + 1"
    and wrap: "retryApply zero options (Some op) = Some w" and call: "w ctx \<sigma> = (r, \<sigma>')"
  shows "int (fst \<sigma>') \<le> int (fst \<sigma>) + rt_MaxAttempts options \<and>
    (fst (ctx \<sigma>) \<noteq> None \<longrightarrow> fst \<sigma>' = fst \<sigma> \<and> r = Some (zero, fst (ctx \<sigma>)))"
proof -
  have pos: "0 < rt_MaxAttempts options"
    using new by (auto simp: NewRetry_def Let_def split: if_splits option.splits)
  have w: "retryLoop zero options (Some op) ctx 1 None \<sigma> = (r, \<sigma>')"
    using wrap call by (auto simp: retryApply_def)
  have "fst \<sigma>' \<le> fst \<sigma> + nat (rt_MaxAttempts options)"
    using retryLoop_bound[of ctx options op zero 1 None \<sigma>] keeps op w by simp
  moreover have "fst \<sigma>' = fst \<sigma> \<and> r = Some (zero, fst (ctx \<sigma>))" if "fst (ctx \<sigma>) \<noteq> None"
  proof -
    obtain x \<sigma>1 where c: "ctx \<sigma> = (x, \<sigma>1)" by (rule prod.exhaust)
    with that obtain e where x: "x = Some e" by auto
    have "retryLoop zero options (Some op) ctx 1 None \<sigma> = (Some (zero, Some e), \<sigma>1)"
      using pos by (subst retryLoop.simps) (simp add: c x)
    then show ?thesis using w keepsCountD[OF keeps(1) c] by (simp add: c x)
  qed
  ultimately show ?thesis using pos by auto
qed

text \<open>Two attempts of an operation that counts its calls and always fails.\<close>

definition countFail :: "(nat \<times> nat, nat) operation" where
  "countFail ctx \<sigma> = (Some (0, Some (Message ''boom'')), (fst \<sigma> + 1, snd \<sigma>))"

definition twice :: "'s retryOptions" where
  "twice = \<lparr>rt_Name = ''twice'', rt_MaxAttempts = 2, rt_Backoff = Some NoBackoff,
     rt_RetryIf = Some retryAllButCanceled, rt_Sleeper = Some (\<lambda>ctx d s. (None, s)), rt_OnEvent = None\<rparr>"

lemma twice_new: "NewRetry timerFirst twice = Inr twice"
  by (simp add: NewRetry_def twice_def)

theorem retry_attempt_bound_witness:
  "\<exists>w r \<sigma>'. retryApply 0 twice (Some countFail) = Some w \<and> w background (0, 5) = (r, \<sigma>') \<and> fst \<sigma>' \<le> 2"
proof -
  obtain w where w: "retryApply 0 twice (Some countFail) = Some w" by (simp add: retryApply_def)
  obtain r \<sigma>' where c: "w background (0, 5) = (r, \<sigma>')" by (rule prod.exhaust)
  have k: "keepsCount background" "quietHandler (rt_OnEvent twice)"
    by (simp_all add: keepsCount_def quietHandler_def background_def emitEvent_def twice_def)
  have sl: "keepsCount (sleepFor twice background d)" for d
    by (simp add: keepsCount_def sleepFor_def twice_def)
  have op: "fst (snd (countFail background \<sigma>)) = fst \<sigma> + 1" for \<sigma> by (simp add: countFail_def)
  have "fst \<sigma>' \<le> 2"
    using retry_attempt_bound[OF twice_new k sl op w c] by (simp add: twice_def)
  with w c show ?thesis by blast
qed

section \<open>Outcome of a retry\<close>

text \<open>The operation of a scenario hands out prepared results; the store is what is left of them.\<close>

definition scripted :: "(('a \<times> resError option) list, 'a) operation" where
  "scripted ctx rs = (case rs of [] \<Rightarrow> (None, []) | r # rs' \<Rightarrow> (Some r, rs'))"

definition endsRetry :: "'s retryOptions \<Rightarrow> 'a \<times> resError option \<Rightarrow> bool" where
  "endsRetry options r = (snd r = None \<or> IsNonRetryable (snd r) \<or> \<not> retryIf options (snd r))"

text \<open>
  The outcome over prepared results: the first result among \<open>n\<close> that ends the retry, otherwise
  the exhaustion error around the last error.
\<close>

definition retryOutcome ::
  "'a \<Rightarrow> 's retryOptions \<Rightarrow> nat \<Rightarrow> ('a \<times> resError option) list \<Rightarrow> ('a \<times> resError option) \<times> ('a \<times> resError option) list" where
  "retryOutcome zero options n rs =
     (let failed = takeWhile (\<lambda>r. \<not> endsRetry options r) (take n rs); k = length failed
      in if k < n then (if snd (rs ! k) = None then rs ! k else (zero, snd (rs ! k)), drop (k + 1) rs)
         else ((zero, Some (Typed (RetryError (rt_Name options) (rt_MaxAttempts options)) (snd (last failed)))), drop n rs))"

lemma retryOutcome_ends:
  "endsRetry options r \<Longrightarrow> retryOutcome zero options (Suc n) (r # rs) = (if snd r = None then r else (zero, snd r), rs)"
  by (simp add: retryOutcome_def)

lemma retryOutcome_again:
  "\<not> endsRetry options r \<Longrightarrow> 0 < n \<Longrightarrow> retryOutcome zero options (Suc n) (r # rs) = retryOutcome zero options n rs"
  by (auto simp: retryOutcome_def Let_def)

lemma retryLoop_outcome:
  assumes quiet: "rt_OnEvent options = None" "\<And>d s. sleepFor options background d s = (None, s)"
  shows "nat (rt_MaxAttempts options + 1 - attempt) = Suc n \<Longrightarrow> Suc n \<le> length rs \<Longrightarrow>
    retryLoop zero options (Some scripted) background attempt lastErr rs =
      (case retryOutcome zero options (Suc n) rs of (r, rs') \<Rightarrow> (Some r, rs'))"
proof (induction n arbitrary: attempt lastErr rs)
  case (0 attempt lastErr rs)
  then obtain v e rs' where rs: "rs = (v, e) # rs'" by (metis Suc_le_length_iff surj_pair)
  have "attempt = rt_MaxAttempts options" using 0 by simp
  then show ?case
    by (subst retryLoop.simps) (cases e; auto simp: rs background_def runOperation_def scripted_def
        emitEvent_def quiet Let_def retryOutcome_def endsRetry_def)
next
  case (Suc n attempt lastErr rs)
  from Suc.prems(2) obtain v e rs' where rs: "rs = (v, e) # rs'" by (metis Suc_le_length_iff surj_pair)
  have lt: "attempt < rt_MaxAttempts options" using Suc.prems by simp
  have IH: "retryLoop zero options (Some scripted) background (attempt + 1) (Some err) rs' =
      (case retryOutcome zero options (Suc n) rs' of (r, rs') \<Rightarrow> (Some r, rs'))" for err
    using Suc.IH[of "attempt + 1" rs' "Some err"] Suc.prems rs by simp
  show ?case
  proof (cases "endsRetry options (v, e)")
    case True
    then show ?thesis using lt unfolding rs retryOutcome_ends[OF True]
      by (subst retryLoop.simps) (cases e; auto simp: background_def runOperation_def scripted_def
          emitEvent_def quiet Let_def endsRetry_def)
  next
    case False
    then obtain err where e: "e = Some err" by (auto simp: endsRetry_def)
    show ?thesis using lt False unfolding rs retryOutcome_again[OF False zero_less_Suc] IH[symmetric, of err]
      by (subst retryLoop.simps) (simp add: e background_def runOperation_def scripted_def
          emitEvent_def quiet Let_def endsRetry_def)
  qed
qed

text \<open>
  C7. Without cancellation a retry hands back the first result, among \<^verbatim>\<open>MaxAttempts\<close> many, that
  is a success, non-retryable or refused by \<^verbatim>\<open>RetryIf\<close>, with a failure passed on unwrapped, and
  the later results are never asked for; when all attempts fail and ask for a retry it returns a
  \<^verbatim>\<open>RetryError\<close> with the number of attempts and the last error as its cause.
\<close>

theorem retry_outcome:
  assumes new: "NewRetry timerFirst options0 = Inr options"
    and quiet: "rt_OnEvent options = None" "\<And>d s. sleepFor options background d s = (None, s)"
    and enough: "rt_MaxAttempts options \<le> int (length rs)"
    and wrap: "retryApply zero options (Some scripted) = Some w"
  shows "w background rs =
    (case retryOutcome zero options (nat (rt_MaxAttempts options)) rs of (r, rs') \<Rightarrow> (Some r, rs'))"
proof -
  have "0 < rt_MaxAttempts options"
    using new by (auto simp: NewRetry_def Let_def split: if_splits option.splits)
  then obtain n where n: "nat (rt_MaxAttempts options) = Suc n" by (metis gr0_implies_Suc zero_less_nat_eq)
  have "retryLoop zero options (Some scripted) background 1 None rs =
      (case retryOutcome zero options (Suc n) rs of (r, rs') \<Rightarrow> (Some r, rs'))"
    by (rule retryLoop_outcome[OF quiet]) (use n enough in auto)
  then show ?thesis using wrap n by (auto simp: retryApply_def)
qed

theorem retry_outcome_witness:
  "\<exists>w. retryApply 0 twice (Some scripted) = Some w \<and>
     w background [(1 :: nat, Some (Message ''a'')), (2, None), (3, None)] = (Some (2, None), [(3, None)]) \<and>
     w background [(1, Some (Message ''a'')), (2, Some (Message ''b''))] =
       (Some (0, Some (Typed (RetryError ''twice'' 2) (Some (Message ''b'')))), [])"
proof -
  obtain w where w: "retryApply (0 :: nat) twice (Some scripted) = Some w" by (simp add: retryApply_def)
  have q: "rt_OnEvent twice = None" by (simp add: twice_def)
  have sl: "sleepFor twice background d s = (None, s)" for d s by (simp add: sleepFor_def twice_def)
  have go: "w background rs =
      (case retryOutcome 0 (twice :: (nat \<times> resError option) list retryOptions) 2 rs of (r, rs') \<Rightarrow> (Some r, rs'))"
    if "2 \<le> length rs" for rs
    using retry_outcome[OF twice_new q sl _ w, of rs] that by (simp add: twice_def)
  show ?thesis using w
    by (auto simp: go retryOutcome_def endsRetry_def twice_def IsNonRetryable_def retryIf_def
        retryAllButCanceled_def isTimeoutError_def Let_def)
qed

end
