(* ===== verification/Go_Strings.thy ===== *)
theory Go_Strings
  imports Go_Prelude "HOL-Library.List_Lexorder" "HOL-Library.Char_ord" "HOL-Library.Product_Lexorder" "HOL-Library.AList"
begin

text \<open>
  Text keys as the packages with named items use them: a Go string is its bytes as characters,
  strings compare bytewise, and \<^verbatim>\<open>strings.TrimSpace\<close> cuts the white space of Unicode from both
  ends. A Go map is an association list; its iteration order is never observed, the code sorts
  what it collects from a map. The locale \<open>keyed_store\<close> is the contract of the stores that look
  up under a normalized key.
\<close>

section \<open>Trimming\<close>

text \<open>The UTF-8 encodings of the code points \<^verbatim>\<open>unicode.IsSpace\<close> accepts.\<close>

definition spaceRune :: "string \<Rightarrow> bool" where
  "spaceRune s =
     (case map of_char s of
        [b] \<Rightarrow> b = 0x20 \<or> 0x09 \<le> b \<and> b \<le> (0x0D :: nat)
      | [b, c] \<Rightarrow> b = 0xC2 \<and> (c = 0x85 \<or> c = 0xA0)
      | [b, c, d] \<Rightarrow>
          b = 0xE1 \<and> c = 0x9A \<and> d = 0x80 \<or>
          b = 0xE2 \<and> c = 0x80 \<and> (0x80 \<le> d \<and> d \<le> 0x8A \<or> d = 0xA8 \<or> d = 0xA9 \<or> d = 0xAF) \<or>
          b = 0xE2 \<and> c = 0x81 \<and> d = 0x9F \<or>
          b = 0xE3 \<and> c = 0x80 \<and> d = 0x80
      | _ \<Rightarrow> False)"

lemma spaceRune_Nil [simp]: "\<not> spaceRune []"
  by (simp add: spaceRune_def)

text \<open>The length of the white-space rune a text begins or ends with, 0 for none.\<close>

definition leadingSpace :: "string \<Rightarrow> nat" where
  "leadingSpace s = (if spaceRune (take 1 s) then 1 else if spaceRune (take 2 s) then 2
     else if spaceRune (take 3 s) then 3 else 0)"

definition trailingSpace :: "string \<Rightarrow> nat" where
  "trailingSpace s = (if spaceRune (lastn 1 s) then 1 else if spaceRune (lastn 2 s) then 2
     else if spaceRune (lastn 3 s) then 3 else 0)"

lemma leadingSpace_Nil [simp]: "leadingSpace [] = 0" "trailingSpace [] = 0"
  by (simp_all add: leadingSpace_def trailingSpace_def)

function trimLeft :: "string \<Rightarrow> string" where
  "trimLeft s = (if leadingSpace s = 0 then s else trimLeft (drop (leadingSpace s) s))"
  by pat_completeness auto
termination
proof (relation "measure length")
  show "(drop (leadingSpace s) s, s) \<in> measure length" if "leadingSpace s \<noteq> 0" for s
    using that by (cases s) auto
qed simp

function trimRight :: "string \<Rightarrow> string" where
  "trimRight s = (if trailingSpace s = 0 then s else trimRight (take (length s - trailingSpace s) s))"
  by pat_completeness auto
termination
proof (relation "measure length")
  show "(take (length s - trailingSpace s) s, s) \<in> measure length" if "trailingSpace s \<noteq> 0" for s
    using that by (cases s) auto
qed simp

declare trimLeft.simps [simp del] trimRight.simps [simp del]

definition TrimSpace :: "string \<Rightarrow> string" where
  "TrimSpace s = trimRight (trimLeft s)"

lemma trimLeft_done: "leadingSpace (trimLeft s) = 0"
  by (induction s rule: trimLeft.induct) (subst trimLeft.simps, simp)

lemma trimRight_done: "trailingSpace (trimRight s) = 0"
  by (induction s rule: trimRight.induct) (subst trimRight.simps, simp)

lemma trimLeft_id: "leadingSpace s = 0 \<Longrightarrow> trimLeft s = s"
  by (subst trimLeft.simps) simp

lemma trimRight_id: "trailingSpace s = 0 \<Longrightarrow> trimRight s = s"
  by (subst trimRight.simps) simp

lemma trimRight_prefix: "\<exists>n. trimRight s = take n s"
proof (induction s rule: trimRight.induct)
  case (1 s)
  then show ?case
    by (subst trimRight.simps) (metis take_all_iff take_take order_refl)
qed

lemma spaceRune_take: "spaceRune (take k (take n s)) \<Longrightarrow> spaceRune (take k s) \<or> spaceRune (take n s)"
  by (cases "k \<le> n") (simp_all add: min_def)

lemma spaceRune_length: "spaceRune s \<Longrightarrow> length s \<in> {1, 2, 3}"
  by (auto simp: spaceRune_def split: list.splits)

lemma leadingSpace_0: "leadingSpace s = 0 \<longleftrightarrow> (\<forall>k. \<not> spaceRune (take k s))"
proof
  assume l: "leadingSpace s = 0"
  show "\<forall>k. \<not> spaceRune (take k s)"
  proof (intro allI notI)
    fix k assume sp: "spaceRune (take k s)"
    then have "min (length s) k \<in> {1, 2, 3}" using spaceRune_length[OF sp] by (simp add: min.commute)
    moreover have "take (min (length s) k) s = take k s" by (simp add: min_def)
    ultimately have "spaceRune (take 1 s) \<or> spaceRune (take 2 s) \<or> spaceRune (take 3 s)" using sp by fastforce
    with l show False by (auto simp: leadingSpace_def split: if_splits)
  qed
qed (simp add: leadingSpace_def)

lemma TrimSpace_idem [simp]: "TrimSpace (TrimSpace s) = TrimSpace s"
proof -
  obtain n where n: "trimRight (trimLeft s) = take n (trimLeft s)" using trimRight_prefix by blast
  have "leadingSpace (take n (trimLeft s)) = 0"
    using trimLeft_done[of s] unfolding leadingSpace_0 by (metis take_take)
  then show ?thesis unfolding TrimSpace_def n[symmetric] by (simp add: trimLeft_id trimRight_id trimRight_done)
qed

lemma spaceRune_hd: "spaceRune t \<Longrightarrow> (of_char (hd t) :: nat) \<le> 0x20 \<or> 0x80 \<le> (of_char (hd t) :: nat)"
  by (auto simp: spaceRune_def split: list.splits)

text \<open>A text without white-space bytes is its own trim; it covers the names of the scenarios.\<close>

lemma TrimSpace_plain:
  assumes "s \<noteq> []" "\<forall>c \<in> set s. 0x20 < (of_char c :: nat) \<and> (of_char c :: nat) < 0x80"
  shows "TrimSpace s = s"
proof -
  have no: "\<not> spaceRune t" if "set t \<subseteq> set s" for t
    using that assms(2) spaceRune_hd[of t] spaceRune_Nil by (metis hd_in_set leD subset_iff)
  have "leadingSpace s = 0" "trailingSpace s = 0"
    by (simp_all add: leadingSpace_def trailingSpace_def no set_take_subset set_lastn)
  then show ?thesis by (simp add: TrimSpace_def trimLeft_id trimRight_id)
qed

section \<open>Numbers in messages\<close>

text \<open>The verb \<^verbatim>\<open>%d\<close> of a natural number.\<close>

fun decimal :: "nat \<Rightarrow> string" where
  "decimal n = (if n < 10 then [char_of (48 + n)] else decimal (n div 10) @ [char_of (48 + n mod 10)])"

declare decimal.simps [simp del]

section \<open>Stores with normalized keys\<close>

text \<open>
  \<open>norm\<close> gives the key an item is stored under, or \<open>None\<close> for a key the store refuses; a refused
  key changes nothing and finds nothing.
\<close>

datatype ('k, 'v) change = Put 'k 'v | Drop 'k

fun applyChange :: "('k \<Rightarrow> 'v \<Rightarrow> 's \<Rightarrow> 's) \<Rightarrow> ('k \<Rightarrow> 's \<Rightarrow> 's) \<Rightarrow> ('k, 'v) change \<Rightarrow> 's \<Rightarrow> 's" where
  "applyChange put remove (Put k v) s = put k v s"
| "applyChange put remove (Drop k) s = remove k s"

text \<open>What the last change of the key left, over the value \<open>d\<close> it had before.\<close>

fun latest :: "('k \<Rightarrow> 'k option) \<Rightarrow> 'k \<Rightarrow> ('k, 'v) change list \<Rightarrow> 'v option \<Rightarrow> 'v option" where
  "latest norm k [] d = d"
| "latest norm k (Put k' v # cs) d =
     latest norm k cs (if norm k' \<noteq> None \<and> norm k = norm k' then Some v else d)"
| "latest norm k (Drop k' # cs) d =
     latest norm k cs (if norm k' \<noteq> None \<and> norm k = norm k' then None else d)"

locale keyed_store =
  fixes norm :: "'k \<Rightarrow> 'k option"
    and put :: "'k \<Rightarrow> 'v \<Rightarrow> 's \<Rightarrow> 's"
    and remove :: "'k \<Rightarrow> 's \<Rightarrow> 's"
    and find :: "'k \<Rightarrow> 's \<Rightarrow> 'v option"
  assumes find_put: "find k (put k' v s) = (if norm k' \<noteq> None \<and> norm k = norm k' then Some v else find k s)"
    and find_remove: "find k (remove k' s) = (if norm k' \<noteq> None \<and> norm k = norm k' then None else find k s)"
begin

lemma find_changes: "find k (fold (applyChange put remove) cs s) = latest norm k cs (find k s)"
proof (induction cs arbitrary: s)
  case (Cons c cs)
  then show ?case by (cases c) (simp_all add: find_put find_remove)
qed simp

end

section \<open>Association lists\<close>

lemma keys_update: "fst ` set (AList.update k v al) = insert k (fst ` set al)"
  by (simp add: dom_update)

lemma keys_delete: "fst ` set (AList.delete k al) = fst ` set al - {k}"
  by (metis delete_keys set_map set_removeAll)

lemma distinct_keys_delete: "distinct (map fst al) \<Longrightarrow> distinct (map fst (AList.delete k al))"
  by (simp add: delete_keys distinct_removeAll)

lemma set_delete_subset: "set (AList.delete k al) \<subseteq> set al"
  by (simp add: AList.delete_eq)

lemma update_fresh: "map_of xs k = None \<Longrightarrow> AList.update k v xs = xs @ [(k, v)]"
  by (induction xs) (auto split: if_splits)

section \<open>Sorting by a key\<close>

lemma distinct_map_sorted_wrt: "distinct (map f xs) \<longleftrightarrow> sorted_wrt (\<lambda>a b. f a \<noteq> f b) xs"
  by (induction xs) auto

lemma sorted_wrt_conj: "sorted_wrt P xs \<Longrightarrow> sorted_wrt Q xs \<Longrightarrow> sorted_wrt (\<lambda>a b. P a b \<and> Q a b) xs"
  by (induction xs) auto

end
