(* ===== verification/Rules.thy ===== *)
theory Rules
  imports Go_Strings
begin

text \<open>
  The data of package \<^verbatim>\<open>rules\<close>: its errors (\<^verbatim>\<open>rules/errors.go\<close>), the fact store
  (\<^verbatim>\<open>facts.go\<close>), rules (\<^verbatim>\<open>rule.go\<close>) and rule sets (\<^verbatim>\<open>ruleset.go\<close>). A nil map behaves as an empty
  one and is not told apart from it; a nil pointer is \<open>None\<close>. The mutex of a store makes each
  operation one step, so an operation is a function of the store.
\<close>

section \<open>Errors\<close>

definition ErrBlankKey :: string where
  "ErrBlankKey = ''rules key must not be blank''"

definition ErrNilFacts :: string where
  "ErrNilFacts = ''rules facts must not be nil''"

definition ErrNilRuleSet :: string where
  "ErrNilRuleSet = ''rules rule set must not be nil''"

definition ErrNilRule :: string where
  "ErrNilRule = ''rules rule must not be nil''"

definition ErrDuplicateRule :: string where
  "ErrDuplicateRule = ''rules rule name already exists''"

definition ErrNilEvaluate :: string where
  "ErrNilEvaluate = ''rules evaluate function must not be nil''"

definition ErrRuleEvaluation :: string where
  "ErrRuleEvaluation = ''rules evaluation failed''"

definition ErrRuleExecution :: string where
  "ErrRuleExecution = ''rules execution failed''"

lemmas rules_sentinels = ErrBlankKey_def ErrNilFacts_def ErrNilRuleSet_def ErrNilRule_def
  ErrDuplicateRule_def ErrNilEvaluate_def ErrRuleEvaluation_def ErrRuleExecution_def
  ctxCanceled_def ctxDeadlineExceeded_def

datatype rulePhase = PhaseEvaluate | PhaseExecute

datatype rulesErrorKind =
    RuleError (ruleError_name: string) (ruleError_phase: rulePhase)
  | InferenceError (inferenceError_cycles: int)

type_synonym rulesError = "rulesErrorKind go_error"

fun rulesErrorIs :: "rulesErrorKind \<Rightarrow> string \<Rightarrow> bool" where
  "rulesErrorIs (RuleError name phase) target =
     (phase = PhaseEvaluate \<and> target = ErrRuleEvaluation \<or> phase = PhaseExecute \<and> target = ErrRuleExecution)"
| "rulesErrorIs (InferenceError cycles) target = False"

definition normalizeKey :: "string \<Rightarrow> string" where
  "normalizeKey key = TrimSpace key"

section \<open>Facts\<close>

record 'v facts =
  f_values :: "(string \<times> 'v) list"

definition NewFacts :: "'v facts" where
  "NewFacts = \<lparr>f_values = []\<rparr>"

definition Set :: "string \<Rightarrow> 'v \<Rightarrow> 'v facts option \<Rightarrow> rulesError option \<times> 'v facts option" where
  "Set key val f =
     (case f of
        None \<Rightarrow> (Some (Sentinel ErrNilFacts), f)
      | Some facts \<Rightarrow>
          let key = normalizeKey key
          in if key = [] then (Some (Sentinel ErrBlankKey), f)
             else (None, Some (facts\<lparr>f_values := AList.update key val (f_values facts)\<rparr>)))"

definition Get :: "string \<Rightarrow> 'v facts option \<Rightarrow> 'v option" where
  "Get key f =
     (case f of
        None \<Rightarrow> None
      | Some facts \<Rightarrow>
          let key = normalizeKey key
          in if key = [] then None else map_of (f_values facts) key)"

definition Delete :: "string \<Rightarrow> 'v facts option \<Rightarrow> bool \<times> 'v facts option" where
  "Delete key f =
     (case f of
        None \<Rightarrow> (False, f)
      | Some facts \<Rightarrow>
          let key = normalizeKey key
          in if key = [] then (False, f)
             else (map_of (f_values facts) key \<noteq> None,
                   Some (facts\<lparr>f_values := AList.delete key (f_values facts)\<rparr>)))"

definition Has :: "string \<Rightarrow> 'v facts option \<Rightarrow> bool" where
  "Has key f = (Get key f \<noteq> None)"

definition Len :: "'v facts option \<Rightarrow> nat" where
  "Len f = (case f of None \<Rightarrow> 0 | Some facts \<Rightarrow> length (f_values facts))"

definition Keys :: "'v facts option \<Rightarrow> string list" where
  "Keys f = (case f of None \<Rightarrow> [] | Some facts \<Rightarrow> sort (map fst (f_values facts)))"

definition Snapshot :: "'v facts option \<Rightarrow> (string \<times> 'v) list" where
  "Snapshot f = (case f of None \<Rightarrow> [] | Some facts \<Rightarrow> f_values facts)"

definition Clone :: "'v facts option \<Rightarrow> 'v facts option" where
  "Clone f = Some \<lparr>f_values = Snapshot f\<rparr>"

text \<open>The argument lists the items of the map in the order the loop meets them.\<close>

fun setAll :: "(string \<times> 'v) list \<Rightarrow> 'v facts option \<Rightarrow> rulesError + 'v facts option" where
  "setAll [] f = Inr f"
| "setAll ((key, val) # items) f =
     (case Set key val f of (Some err, f') \<Rightarrow> Inl err | (None, f') \<Rightarrow> setAll items f')"

definition NewFactsFrom :: "(string \<times> 'v) list \<Rightarrow> rulesError + 'v facts option" where
  "NewFactsFrom items = setAll items (Some NewFacts)"

section \<open>Rules\<close>

text \<open>
  A rule is what the engine calls of the interface: its name and priority, which are stable, and
  its two methods, which act on a store \<open>'s\<close> that holds the facts. A context is the action that
  reads its error.
\<close>

type_synonym 's rctxt = "('s, rulesError option) act"

record 's rule =
  r_Name :: string
  r_Description :: string
  r_Priority :: int
  r_Evaluate :: "'s rctxt \<Rightarrow> ('s, bool \<times> rulesError option) act"
  r_Execute :: "'s rctxt \<Rightarrow> ('s, rulesError option) act"

record 's functionalRule =
  fr_name :: string
  fr_description :: string
  fr_priority :: int
  fr_evaluate :: "'s rctxt \<Rightarrow> ('s, bool \<times> rulesError option) act"
  fr_execute :: "('s rctxt \<Rightarrow> ('s, rulesError option) act) option"

type_synonym 's ruleOption = "'s functionalRule \<Rightarrow> 's functionalRule"

definition WithDescription :: "string \<Rightarrow> 's ruleOption" where
  "WithDescription description rule = rule\<lparr>fr_description := description\<rparr>"

definition WithPriority :: "int \<Rightarrow> 's ruleOption" where
  "WithPriority priority rule = rule\<lparr>fr_priority := priority\<rparr>"

definition functionalExecute :: "'s functionalRule \<Rightarrow> 's rctxt \<Rightarrow> ('s, rulesError option) act" where
  "functionalExecute rule ctx s = (case fr_execute rule of None \<Rightarrow> (None, s) | Some f \<Rightarrow> f ctx s)"

text \<open>The methods of \<^verbatim>\<open>functionalRule\<close> as a value of the interface.\<close>

definition functionalMethods :: "'s functionalRule \<Rightarrow> 's rule" where
  "functionalMethods rule =
     \<lparr>r_Name = fr_name rule, r_Description = fr_description rule, r_Priority = fr_priority rule,
      r_Evaluate = fr_evaluate rule, r_Execute = functionalExecute rule\<rparr>"

definition applyOptions :: "('r \<Rightarrow> 'r) option list \<Rightarrow> 'r \<Rightarrow> 'r" where
  "applyOptions options rule = fold (\<lambda>opt r. case opt of None \<Rightarrow> r | Some f \<Rightarrow> f r) options rule"

definition NewRule ::
  "string \<Rightarrow> ('s rctxt \<Rightarrow> ('s, bool \<times> rulesError option) act) option \<Rightarrow>
   ('s rctxt \<Rightarrow> ('s, rulesError option) act) option \<Rightarrow> 's ruleOption option list \<Rightarrow> rulesError + 's rule" where
  "NewRule name evaluate execute options =
     (let name = normalizeKey name
      in if name = [] then Inl (Sentinel ErrBlankKey)
         else (case evaluate of
                 None \<Rightarrow> Inl (Sentinel ErrNilEvaluate)
               | Some ev \<Rightarrow>
                   Inr (functionalMethods (applyOptions options
                     \<lparr>fr_name = name, fr_description = [], fr_priority = 0, fr_evaluate = ev, fr_execute = execute\<rparr>))))"

section \<open>Rule sets\<close>

record 's ruleEntry =
  e_rule :: "'s rule"
  e_name :: string
  e_priority :: int
  e_seq :: uint64

record 's ruleSet =
  nextSeq :: uint64
  byName :: "(string \<times> 's ruleEntry) list"

definition emptyRuleSet :: "'s ruleSet" where
  "emptyRuleSet = \<lparr>nextSeq = 0, byName = []\<rparr>"

definition Add :: "'s rule option \<Rightarrow> 's ruleSet option \<Rightarrow> rulesError option \<times> 's ruleSet option" where
  "Add rule s =
     (case s of
        None \<Rightarrow> (Some (Sentinel ErrNilRuleSet), s)
      | Some rset \<Rightarrow>
          (case rule of
             None \<Rightarrow> (Some (Sentinel ErrNilRule), s)
           | Some r \<Rightarrow>
               let name = normalizeKey (r_Name r)
               in if name = [] then (Some (Sentinel ErrBlankKey), s)
                  else
                    let priority = r_Priority r
                    in if map_of (byName rset) name \<noteq> None then (Some (Sentinel ErrDuplicateRule), s)
                       else (None, Some (rset\<lparr>byName := AList.update name
                               \<lparr>e_rule = r, e_name = name, e_priority = priority, e_seq = nextSeq rset\<rparr> (byName rset),
                               nextSeq := nextSeq rset + 1\<rparr>))))"

definition Remove :: "string \<Rightarrow> 's ruleSet option \<Rightarrow> bool \<times> 's ruleSet option" where
  "Remove name s =
     (case s of
        None \<Rightarrow> (False, s)
      | Some rset \<Rightarrow>
          let name = normalizeKey name
          in if name = [] then (False, s)
             else (map_of (byName rset) name \<noteq> None, Some (rset\<lparr>byName := AList.delete name (byName rset)\<rparr>)))"

definition GetRule :: "string \<Rightarrow> 's ruleSet option \<Rightarrow> 's rule option" where
  "GetRule name s =
     (case s of
        None \<Rightarrow> None
      | Some rset \<Rightarrow>
          let name = normalizeKey name
          in if name = [] then None else map_option e_rule (map_of (byName rset) name))"

definition RuleSetLen :: "'s ruleSet option \<Rightarrow> nat" where
  "RuleSetLen s = (case s of None \<Rightarrow> 0 | Some rset \<Rightarrow> length (byName rset))"

text \<open>The comparison orders by priority, then name, then sequence number; the sort is stable.\<close>

definition entries :: "'s ruleSet option \<Rightarrow> 's ruleEntry list" where
  "entries s =
     (case s of
        None \<Rightarrow> []
      | Some rset \<Rightarrow> sort_key (\<lambda>e. (e_priority e, e_name e, unat (e_seq e))) (map snd (byName rset)))"

definition RulesOf :: "'s ruleSet option \<Rightarrow> 's rule list" where
  "RulesOf s = map e_rule (entries s)"

fun addAll :: "'s rule option list \<Rightarrow> 's ruleSet option \<Rightarrow> rulesError + 's ruleSet option" where
  "addAll [] s = Inr s"
| "addAll (r # rs) s = (case Add r s of (Some err, s') \<Rightarrow> Inl err | (None, s') \<Rightarrow> addAll rs s')"

definition NewRuleSet :: "'s rule option list \<Rightarrow> rulesError + 's ruleSet option" where
  "NewRuleSet rules = addAll rules (Some emptyRuleSet)"

section \<open>Facts as a keyed store\<close>

definition keyNorm :: "string \<Rightarrow> string option" where
  "keyNorm key = (let k = normalizeKey key in if k = [] then None else Some k)"

lemma keyNorm_eq: "keyNorm k = keyNorm k' \<longleftrightarrow> normalizeKey k = normalizeKey k'"
  by (simp add: keyNorm_def Let_def)

lemma Get_Set:
  "Get k (snd (Set k' v (Some f))) = (if keyNorm k' \<noteq> None \<and> keyNorm k = keyNorm k' then Some v else Get k (Some f))"
  by (auto simp: Get_def Set_def keyNorm_def Let_def update_conv')

lemma Get_Delete:
  "Get k (snd (Delete k' (Some f))) = (if keyNorm k' \<noteq> None \<and> keyNorm k = keyNorm k' then None else Get k (Some f))"
  by (auto simp: Get_def Delete_def keyNorm_def Let_def delete_conv')

definition setFact :: "string \<Rightarrow> 'v \<Rightarrow> 'v facts \<Rightarrow> 'v facts" where
  "setFact k v f = the (snd (Set k v (Some f)))"

definition dropFact :: "string \<Rightarrow> 'v facts \<Rightarrow> 'v facts" where
  "dropFact k f = the (snd (Delete k (Some f)))"

lemma Set_Some: "snd (Set k v (Some f)) = Some (setFact k v f)"
  by (simp add: setFact_def Set_def Let_def)

lemma Delete_Some: "snd (Delete k (Some f)) = Some (dropFact k f)"
  by (simp add: dropFact_def Delete_def Let_def)

interpretation factStore: keyed_store keyNorm setFact dropFact "\<lambda>k f. Get k (Some f)"
  by unfold_locales (simp_all only: Set_Some[symmetric] Delete_Some[symmetric] Get_Set Get_Delete)

definition wf_facts :: "'v facts \<Rightarrow> bool" where
  "wf_facts f \<longleftrightarrow> distinct (map fst (f_values f)) \<and> fst ` set (f_values f) \<subseteq> {k. normalizeKey k = k \<and> k \<noteq> []}"

lemma wf_facts_change [step_inv]:
  "wf_facts f \<Longrightarrow> wf_facts (applyChange setFact dropFact c f)"
  unfolding wf_facts_def
  by (cases c) (simp_all add: setFact_def dropFact_def Set_def Delete_def Let_def normalizeKey_def
      distinct_update distinct_keys_delete keys_update keys_delete subset_trans[OF Diff_subset])

lemma wf_facts_changes: "wf_facts f \<Longrightarrow> wf_facts (fold (applyChange setFact dropFact) cs f)"
  by (induction cs arbitrary: f) (simp_all add: step_inv)

lemma wf_NewFacts: "wf_facts NewFacts"
  by (simp add: wf_facts_def NewFacts_def)

lemma Get_in_keys:
  "wf_facts f \<Longrightarrow> Get k (Some f) \<noteq> None \<longleftrightarrow> normalizeKey k \<in> fst ` set (f_values f)"
  unfolding Get_def Let_def wf_facts_def by (cases "normalizeKey k = []") (auto simp: map_of_eq_None_iff image_iff)

text \<open>
  Facts are a map under trimmed keys: after any sequence of \<^verbatim>\<open>Set\<close> and \<^verbatim>\<open>Delete\<close> calls
  \<^verbatim>\<open>Get\<close> returns what the last call on the same trimmed key left, a blank key stores and finds
  nothing, and \<^verbatim>\<open>Keys\<close> lists the keys that are present, each once and in byte order.
\<close>

theorem facts_last_write:
  "let f = fold (applyChange setFact dropFact) cs NewFacts
   in Get k (Some f) = latest keyNorm k cs None \<and>
      sorted (Keys (Some f)) \<and> distinct (Keys (Some f)) \<and> length (Keys (Some f)) = Len (Some f) \<and>
      (normalizeKey k \<in> set (Keys (Some f)) \<longleftrightarrow> Has k (Some f)) \<and>
      (normalizeKey k = [] \<longrightarrow> \<not> Has k (Some f) \<and> fst (Set k v (Some f)) = Some (Sentinel ErrBlankKey))"
proof -
  let ?f = "fold (applyChange setFact dropFact) cs NewFacts"
  have wf: "wf_facts ?f" by (rule wf_facts_changes[OF wf_NewFacts])
  have "Get k (Some ?f) = latest keyNorm k cs (Get k (Some NewFacts))"
    by (rule factStore.find_changes)
  also have "Get k (Some NewFacts) = None" by (simp add: Get_def NewFacts_def Let_def)
  finally have get: "Get k (Some ?f) = latest keyNorm k cs None" .
  have keys: "normalizeKey k \<in> set (Keys (Some ?f)) \<longleftrightarrow> Has k (Some ?f)"
    using Get_in_keys[OF wf, of k] by (simp add: Keys_def Has_def)
  have "sorted (Keys (Some ?f))" "distinct (Keys (Some ?f))" "length (Keys (Some ?f)) = Len (Some ?f)"
    using wf by (simp_all add: Keys_def Len_def wf_facts_def)
  moreover have "normalizeKey k = [] \<Longrightarrow> \<not> Has k (Some ?f) \<and> fst (Set k v (Some ?f)) = Some (Sentinel ErrBlankKey)"
    by (simp add: Has_def Get_def Set_def)
  ultimately show ?thesis unfolding Let_def using get keys by blast
qed

text \<open>The keys \<open>a\<close> and \<open>a\<close> with a space before it are the same key.\<close>

lemma trim_a: "normalizeKey '' a'' = ''a''" "normalizeKey ''a'' = ''a''" "normalizeKey '' '' = []"
proof -
  have 1: "trimLeft '' a'' = ''a''"
    by (subst trimLeft.simps, simp add: leadingSpace_def spaceRune_def, subst trimLeft.simps)
      (simp add: leadingSpace_def spaceRune_def)
  have a: "TrimSpace ''a'' = ''a''" by (rule TrimSpace_plain) simp_all
  then have "trimRight ''a'' = ''a''" by (metis TrimSpace_def TrimSpace_idem trimLeft_id trimRight_id trimRight_done)
  with 1 a show "normalizeKey '' a'' = ''a''" "normalizeKey ''a'' = ''a''"
    by (simp_all add: normalizeKey_def TrimSpace_def)
  have "trimLeft '' '' = []"
    by (subst trimLeft.simps, simp add: leadingSpace_def spaceRune_def, subst trimLeft.simps)
      (simp add: leadingSpace_def spaceRune_def)
  then show "normalizeKey '' '' = []" by (simp add: normalizeKey_def TrimSpace_def trimRight_id)
qed

theorem facts_last_write_witness:
  "Get ''a'' (Some (fold (applyChange setFact dropFact) [Put ''a'' (1 :: nat), Put '' a'' 2] NewFacts)) = Some 2 \<and>
   \<not> Has '' '' (Some (fold (applyChange setFact dropFact) [Put ''a'' (1 :: nat), Put '' a'' 2] NewFacts))"
  using facts_last_write[of "[Put ''a'' (1 :: nat), Put '' a'' 2]" "''a''"]
    facts_last_write[of "[Put ''a'' (1 :: nat), Put '' a'' 2]" "'' ''"]
  by (simp add: Let_def keyNorm_def trim_a)

section \<open>Order of a rule set\<close>

text \<open>A rule set is built by additions and removals, whose errors the caller may ignore.\<close>

datatype 's setChange = AddRule "'s rule" | RemoveRule string

fun changeSet :: "'s setChange \<Rightarrow> 's ruleSet option \<Rightarrow> 's ruleSet option" where
  "changeSet (AddRule r) s = snd (Add (Some r) s)"
| "changeSet (RemoveRule name) s = snd (Remove name s)"

definition wf_entry :: "string \<times> 's ruleEntry \<Rightarrow> bool" where
  "wf_entry = (\<lambda>(k, e). k \<noteq> [] \<and> e_name e = k \<and> normalizeKey (r_Name (e_rule e)) = k \<and>
     e_priority e = r_Priority (e_rule e) \<and> normalizeKey k = k)"

definition wf_ruleSet :: "'s ruleSet \<Rightarrow> bool" where
  "wf_ruleSet rset \<longleftrightarrow> distinct (map fst (byName rset)) \<and> (\<forall>p \<in> set (byName rset). wf_entry p)"

lemma wf_changeSet [step_inv]:
  assumes "wf_ruleSet rset" shows "\<exists>rset'. changeSet c (Some rset) = Some rset' \<and> wf_ruleSet rset'"
proof (cases c)
  case (AddRule r)
  then show ?thesis using assms
    by (auto simp: Add_def Let_def wf_ruleSet_def wf_entry_def update_fresh map_of_eq_None_iff normalizeKey_def)
next
  case (RemoveRule name)
  then show ?thesis using assms
    by (auto simp: Remove_def Let_def wf_ruleSet_def distinct_keys_delete dest: set_mp[OF set_delete_subset])
qed

lemma wf_changes: "wf_ruleSet rset \<Longrightarrow> \<exists>rset'. fold changeSet cs (Some rset) = Some rset' \<and> wf_ruleSet rset'"
proof (induction cs arbitrary: rset)
  case (Cons c cs)
  then show ?case using wf_changeSet[OF Cons.prems, of c] by auto
qed simp

text \<open>The key the rules of a set are ordered by.\<close>

definition ruleKey :: "'s rule \<Rightarrow> int \<times> string" where
  "ruleKey r = (r_Priority r, normalizeKey (r_Name r))"

lemma entries_wf:
  assumes "wf_ruleSet rset" "e \<in> set (entries (Some rset))"
  shows "(e_name e, e) \<in> set (byName rset) \<and> e_name e \<noteq> [] \<and> normalizeKey (e_name e) = e_name e \<and>
    ruleKey (e_rule e) = (e_priority e, e_name e)"
  using assms by (force simp: wf_ruleSet_def wf_entry_def entries_def ruleKey_def)

lemma entries_names: "wf_ruleSet rset \<Longrightarrow> distinct (map e_name (entries (Some rset)))"
proof -
  assume wf: "wf_ruleSet rset"
  have "map e_name (map snd (byName rset)) = map fst (byName rset)"
    using wf by (auto simp: wf_ruleSet_def wf_entry_def)
  then have "distinct (map e_name (map snd (byName rset)))" using wf by (simp only: wf_ruleSet_def)
  then have "distinct (map snd (byName rset)) \<and> inj_on e_name (set (map snd (byName rset)))"
    by (simp only: distinct_map)
  then show ?thesis by (simp add: distinct_map[of e_name] entries_def)
qed

lemma entries_sorted:
  assumes wf: "wf_ruleSet rset"
  shows "sorted_wrt (\<lambda>a b. (e_priority a, e_name a) < (e_priority b, e_name b)) (entries (Some rset))"
proof -
  let ?k = "\<lambda>e. (e_priority e, e_name e, unat (e_seq e))"
  have "sorted_wrt (\<lambda>a b. ?k a \<le> ?k b) (entries (Some rset))"
    using sorted_sort_key[of ?k "map snd (byName rset)"] by (simp add: entries_def sorted_map)
  moreover have "sorted_wrt (\<lambda>a b. e_name a \<noteq> e_name b) (entries (Some rset))"
    using entries_names[OF wf] by (simp add: distinct_map_sorted_wrt)
  ultimately have "sorted_wrt (\<lambda>a b. ?k a \<le> ?k b \<and> e_name a \<noteq> e_name b) (entries (Some rset))"
    by (rule sorted_wrt_conj)
  then show ?thesis by (rule sorted_wrt_mono_rel[rotated]) (auto simp: less_prod_def less_eq_prod_def)
qed

lemma GetRule_entries:
  assumes wf: "wf_ruleSet rset"
  shows "GetRule name (Some rset) = Some r \<longleftrightarrow>
    r \<in> set (RulesOf (Some rset)) \<and> normalizeKey (r_Name r) = normalizeKey name"
proof -
  have d: "distinct (map fst (byName rset))" using wf by (simp add: wf_ruleSet_def)
  have e: "(k, e) \<in> set (byName rset) \<Longrightarrow> k \<noteq> [] \<and> normalizeKey (r_Name (e_rule e)) = k" for k e
    using wf by (auto simp: wf_ruleSet_def wf_entry_def)
  have "GetRule name (Some rset) = Some r \<longleftrightarrow>
      (\<exists>e. (normalizeKey name, e) \<in> set (byName rset) \<and> r = e_rule e)"
    using e by (auto simp: GetRule_def Let_def map_of_eq_Some_iff[OF d])
  also have "\<dots> \<longleftrightarrow> (\<exists>k e. (k, e) \<in> set (byName rset) \<and> r = e_rule e \<and> normalizeKey (r_Name r) = normalizeKey name)"
    using e by metis
  also have "\<dots> \<longleftrightarrow> r \<in> set (RulesOf (Some rset)) \<and> normalizeKey (r_Name r) = normalizeKey name"
    by (force simp: RulesOf_def entries_def image_iff)
  finally show ?thesis .
qed

lemma Add_wf:
  assumes wf: "wf_ruleSet rset"
  shows "if normalizeKey (r_Name new) = [] then Add (Some new) (Some rset) = (Some (Sentinel ErrBlankKey), Some rset)
    else if \<exists>r \<in> set (RulesOf (Some rset)). normalizeKey (r_Name r) = normalizeKey (r_Name new)
    then Add (Some new) (Some rset) = (Some (Sentinel ErrDuplicateRule), Some rset)
    else fst (Add (Some new) (Some rset)) = None \<and>
      GetRule name (snd (Add (Some new) (Some rset))) =
        (if normalizeKey name = normalizeKey (r_Name new) then Some new else GetRule name (Some rset))"
proof -
  have "(\<exists>r \<in> set (RulesOf (Some rset)). normalizeKey (r_Name r) = normalizeKey (r_Name new)) \<longleftrightarrow>
      (\<exists>r. GetRule (r_Name new) (Some rset) = Some r)" using GetRule_entries[OF wf] by blast
  then have "normalizeKey (r_Name new) \<noteq> [] \<Longrightarrow>
      (\<exists>r \<in> set (RulesOf (Some rset)). normalizeKey (r_Name r) = normalizeKey (r_Name new)) \<longleftrightarrow>
      map_of (byName rset) (normalizeKey (r_Name new)) \<noteq> None" by (auto simp: GetRule_def Let_def)
  then show ?thesis by (auto simp: Add_def GetRule_def Let_def update_conv')
qed

text \<open>
  C34. However a rule set is built, \<^verbatim>\<open>Rules\<close> lists its rules in strictly increasing order of
  priority and then name, so no two rules share a name and the order of registration does not
  matter, and \<^verbatim>\<open>Get\<close> finds a rule exactly when it is listed under the trimmed name. Adding a rule
  with a blank name is refused, adding any rule under a trimmed name that is taken is refused as a
  duplicate, both without a change; any other rule is added, after which \<^verbatim>\<open>Get\<close> returns it under
  its name and what it did before under every other name.
\<close>

theorem ruleset_order:
  "let s = fold changeSet cs (Some emptyRuleSet)
   in sorted_wrt (\<lambda>a b. ruleKey a < ruleKey b) (RulesOf s) \<and>
      distinct (map (\<lambda>r. normalizeKey (r_Name r)) (RulesOf s)) \<and>
      (GetRule name s = Some r \<longleftrightarrow> r \<in> set (RulesOf s) \<and> normalizeKey (r_Name r) = normalizeKey name) \<and>
      (if normalizeKey (r_Name new) = [] then Add (Some new) s = (Some (Sentinel ErrBlankKey), s)
       else if \<exists>r \<in> set (RulesOf s). normalizeKey (r_Name r) = normalizeKey (r_Name new)
       then Add (Some new) s = (Some (Sentinel ErrDuplicateRule), s)
       else fst (Add (Some new) s) = None \<and>
         GetRule name (snd (Add (Some new) s)) =
           (if normalizeKey name = normalizeKey (r_Name new) then Some new else GetRule name s))"
proof -
  have "wf_ruleSet (emptyRuleSet :: 'a ruleSet)" by (simp add: wf_ruleSet_def emptyRuleSet_def)
  then obtain rset where s: "fold changeSet cs (Some emptyRuleSet) = Some rset" and wf: "wf_ruleSet rset"
    using wf_changes by blast
  have "sorted_wrt (\<lambda>a b. ruleKey a < ruleKey b) (RulesOf (Some rset))"
    unfolding RulesOf_def sorted_wrt_map
    by (rule sorted_wrt_mono_rel[OF _ entries_sorted[OF wf]]) (simp add: entries_wf[OF wf])
  moreover have "map (\<lambda>r. normalizeKey (r_Name r)) (RulesOf (Some rset)) = map e_name (entries (Some rset))"
    using entries_wf[OF wf] by (auto simp: RulesOf_def ruleKey_def)
  ultimately show ?thesis unfolding s Let_def
    using GetRule_entries[OF wf, of name r] entries_names[OF wf] Add_wf[OF wf, of new name] by (intro conjI) simp_all
qed

text \<open>Two rules, the one with the smaller priority registered last.\<close>

definition namedRule :: "string \<Rightarrow> int \<Rightarrow> nat rule" where
  "namedRule name priority = \<lparr>r_Name = name, r_Description = [], r_Priority = priority,
     r_Evaluate = (\<lambda>ctx s. ((True, None), s)), r_Execute = (\<lambda>ctx s. (None, s))\<rparr>"

theorem ruleset_order_witness:
  "let s = fold changeSet [AddRule (namedRule ''a'' 2), AddRule (namedRule ''b'' 1)] (Some emptyRuleSet)
   in Add (Some (namedRule ''a'' 7)) s = (Some (Sentinel ErrDuplicateRule), s)"
proof -
  have b: "normalizeKey ''b'' = ''b''" unfolding normalizeKey_def by (rule TrimSpace_plain) simp_all
  let ?s = "fold changeSet [AddRule (namedRule ''a'' 2), AddRule (namedRule ''b'' 1)] (Some emptyRuleSet)"
  have "namedRule ''a'' 2 \<in> set (RulesOf ?s)"
    by (simp add: Add_def namedRule_def emptyRuleSet_def trim_a b RulesOf_def entries_def Let_def)
  moreover have n: "r_Name (namedRule ''a'' p) = ''a''" for p by (simp add: namedRule_def)
  ultimately have "\<exists>r \<in> set (RulesOf ?s). normalizeKey (r_Name r) = normalizeKey (r_Name (namedRule ''a'' 7))"
    unfolding n by (metis n)
  with ruleset_order[of "[AddRule (namedRule ''a'' 2), AddRule (namedRule ''b'' 1)]" "''a''" "namedRule ''a'' 2" "namedRule ''a'' 7"]
  show ?thesis by (simp only: Let_def n trim_a list.distinct if_False if_True)
qed

end
