(* ===== verification/Rules_Engine.thy ===== *)
theory Rules_Engine
  imports Rules
begin

text \<open>
  The engines of package \<^verbatim>\<open>rules\<close>: the sequential engine (\<^verbatim>\<open>rules/engine.go\<close>), bounded inference
  (\<^verbatim>\<open>inference.go\<close>) and the composite groups (\<^verbatim>\<open>composite.go\<close>). The facts are part of the store
  the rules act on; the engine itself only tests the pointer for nil, which is the argument
  \<open>hasFacts\<close>. A nil context is replaced by the background context before the modelled code reads it.
\<close>

section \<open>Engine\<close>

record engineConfig =
  StopOnFirstApplied :: bool
  StopOnFirstFailed :: bool
  StopOnFirstNotTriggered :: bool
  PriorityThreshold :: int
  UsePriorityThreshold :: bool

record 's engine =
  en_rules :: "'s ruleSet option"
  en_config :: engineConfig

definition NewEngine :: "'s ruleSet option \<Rightarrow> engineConfig \<Rightarrow> 's engine" where
  "NewEngine rules config =
     \<lparr>en_rules = (case rules of None \<Rightarrow> Some emptyRuleSet | Some r \<Rightarrow> Some r), en_config = config\<rparr>"

datatype detailStatus =
    StatusApplied | StatusCancelled | StatusNotTriggered | StatusEvaluationFailed | StatusExecutionFailed
  | StatusNonConverged | StatusSkipped

record detail =
  d_RuleName :: string
  d_Priority :: int
  d_Status :: detailStatus
  d_Triggered :: bool
  d_Applied :: bool
  d_Err :: "rulesError option"

record runResult =
  Details :: "detail list"
  Applied :: int
  Failed :: int
  NotTriggered :: int
  Skipped :: int
  Stopped :: bool
  StopReason :: "detailStatus option"

definition emptyResult :: runResult where
  "emptyResult = \<lparr>Details = [], Applied = 0, Failed = 0, NotTriggered = 0, Skipped = 0, Stopped = False,
     StopReason = None\<rparr>"

text \<open>A detail with the fields its literal leaves out at their zero values, appended to the result.\<close>

definition newDetail :: "'s ruleEntry \<Rightarrow> detailStatus \<Rightarrow> detail" where
  "newDetail entry status = \<lparr>d_RuleName = e_name entry, d_Priority = e_priority entry, d_Status = status,
     d_Triggered = False, d_Applied = False, d_Err = None\<rparr>"

definition addDetail :: "detail \<Rightarrow> runResult \<Rightarrow> runResult" where
  "addDetail d result = result\<lparr>Details := Details result @ [d]\<rparr>"

definition stopWith :: "detailStatus \<Rightarrow> runResult \<Rightarrow> runResult" where
  "stopWith reason result = result\<lparr>Stopped := True, StopReason := Some reason\<rparr>"

abbreviation rulesIs :: "rulesError \<Rightarrow> string \<Rightarrow> bool" where
  "rulesIs \<equiv> errors_is rulesErrorIs"

definition wrapContextError :: "string \<Rightarrow> string \<Rightarrow> rulesError \<Rightarrow> rulesError" where
  "wrapContextError phase ruleName err =
     (if rulesIs err ctxCanceled then Wrapped (''rules context canceled '' @ phase @ '' for '' @ ruleName) [err]
      else if rulesIs err ctxDeadlineExceeded
           then Wrapped (''rules context deadline exceeded '' @ phase @ '' for '' @ ruleName) [err]
      else Wrapped (''rules context failed '' @ phase @ '' for '' @ ruleName) [err])"

definition isRulesContextError :: "rulesError \<Rightarrow> bool" where
  "isRulesContextError err = (rulesIs err ctxCanceled \<or> rulesIs err ctxDeadlineExceeded)"

definition resultError :: "runResult \<Rightarrow> rulesError option" where
  "resultError result =
     (if Failed result = 0 then None
      else let errs = List.map_filter d_Err (Details result)
           in if errs = [] then None else Some (Wrapped [] errs))"

text \<open>The part of an iteration that follows a failed evaluation or execution.\<close>

definition failed :: "engineConfig \<Rightarrow> 's ruleEntry \<Rightarrow> rulePhase \<Rightarrow> rulesError \<Rightarrow> runResult \<Rightarrow> runResult \<times> rulesError option" where
  "failed config entry phase err result =
     (let wrapped = Typed (RuleError (e_name entry) phase) (Some err);
          status = (case phase of PhaseEvaluate \<Rightarrow> StatusEvaluationFailed | PhaseExecute \<Rightarrow> StatusExecutionFailed);
          result1 = addDetail ((newDetail entry status)\<lparr>d_Triggered := (phase = PhaseExecute), d_Err := Some wrapped\<rparr>)
                      (result\<lparr>Failed := Failed result + 1\<rparr>)
      in if isRulesContextError err then (stopWith StatusCancelled result1, Some wrapped)
         else if StopOnFirstFailed config then (stopWith status result1, Some wrapped)
         else (result1, None))"

fun engineLoop ::
  "engineConfig \<Rightarrow> 's rctxt \<Rightarrow> 's ruleEntry list \<Rightarrow> runResult \<Rightarrow> ('s, runResult \<times> rulesError option) act" where
  "engineLoop config ctx [] result s = ((result, resultError result), s)"
| "engineLoop config ctx (entry # es) result s =
     (if UsePriorityThreshold config \<and> PriorityThreshold config < e_priority entry then
        engineLoop config ctx es (addDetail (newDetail entry StatusSkipped) (result\<lparr>Skipped := Skipped result + 1\<rparr>)) s
      else
        (case ctx s of
           (Some err, s1) \<Rightarrow>
             ((stopWith StatusCancelled result, Some (wrapContextError ''before evaluation'' (e_name entry) err)), s1)
         | (None, s1) \<Rightarrow>
             (case r_Evaluate (e_rule entry) ctx s1 of
                ((triggered, Some err), s2) \<Rightarrow>
                  (case failed config entry PhaseEvaluate err result of
                     (result1, Some e) \<Rightarrow> ((result1, Some e), s2)
                   | (result1, None) \<Rightarrow> engineLoop config ctx es result1 s2)
              | ((triggered, None), s2) \<Rightarrow>
                  if \<not> triggered then
                    (let result1 = addDetail (newDetail entry StatusNotTriggered)
                                     (result\<lparr>NotTriggered := NotTriggered result + 1\<rparr>)
                     in if StopOnFirstNotTriggered config then ((stopWith StatusNotTriggered result1, None), s2)
                        else engineLoop config ctx es result1 s2)
                  else
                    (case ctx s2 of
                       (Some err, s3) \<Rightarrow>
                         ((stopWith StatusCancelled result,
                           Some (wrapContextError ''before execution'' (e_name entry) err)), s3)
                     | (None, s3) \<Rightarrow>
                         (case r_Execute (e_rule entry) ctx s3 of
                            (Some err, s4) \<Rightarrow>
                              (case failed config entry PhaseExecute err result of
                                 (result1, Some e) \<Rightarrow> ((result1, Some e), s4)
                               | (result1, None) \<Rightarrow> engineLoop config ctx es result1 s4)
                          | (None, s4) \<Rightarrow>
                              (let result1 = addDetail
                                       ((newDetail entry StatusApplied)\<lparr>d_Triggered := True, d_Applied := True\<rparr>)
                                       (result\<lparr>Applied := Applied result + 1\<rparr>)
                               in if StopOnFirstApplied config then ((stopWith StatusApplied result1, None), s4)
                                  else engineLoop config ctx es result1 s4))))))"

definition engineRun :: "'s engine \<Rightarrow> 's rctxt \<Rightarrow> bool \<Rightarrow> ('s, runResult \<times> rulesError option) act" where
  "engineRun e ctx hasFacts s =
     (if \<not> hasFacts then ((emptyResult, Some (Sentinel ErrNilFacts)), s)
      else engineLoop (en_config e) ctx (entries (en_rules e)) emptyResult s)"

section \<open>Inference\<close>

definition ErrInvalidMaxCycles :: string where
  "ErrInvalidMaxCycles = ''rules inference max cycles must be positive''"

definition ErrInvalidInferenceConfig :: string where
  "ErrInvalidInferenceConfig = ''rules inference config is invalid''"

definition ErrInferenceNonConverged :: string where
  "ErrInferenceNonConverged = ''rules inference did not converge''"

record inferenceConfig =
  MaxCycles :: int
  if_EngineConfig :: engineConfig

record 's inferenceEngine =
  ie_rules :: "'s ruleSet option"
  ie_config :: inferenceConfig

definition NewInferenceEngine :: "'s ruleSet option \<Rightarrow> inferenceConfig \<Rightarrow> rulesError + 's inferenceEngine" where
  "NewInferenceEngine rules config =
     (if MaxCycles config \<le> 0 then Inl (Sentinel ErrInvalidMaxCycles)
      else if StopOnFirstNotTriggered (if_EngineConfig config) then Inl (Sentinel ErrInvalidInferenceConfig)
      else Inr \<lparr>ie_rules = (case rules of None \<Rightarrow> Some emptyRuleSet | Some r \<Rightarrow> Some r), ie_config = config\<rparr>)"

record inferenceResult =
  if_Cycles :: int
  if_CycleResults :: "runResult list"
  if_Applied :: int
  if_Failed :: int
  if_Converged :: bool
  if_Stopped :: bool
  if_StopReason :: "detailStatus option"

definition emptyInference :: inferenceResult where
  "emptyInference = \<lparr>if_Cycles = 0, if_CycleResults = [], if_Applied = 0, if_Failed = 0, if_Converged = False,
     if_Stopped = False, if_StopReason = None\<rparr>"

definition addCycle :: "int \<Rightarrow> runResult \<Rightarrow> inferenceResult \<Rightarrow> inferenceResult" where
  "addCycle cycle cycleResult result =
     (let result1 = result\<lparr>if_Cycles := cycle, if_CycleResults := if_CycleResults result @ [cycleResult],
            if_Applied := if_Applied result + Applied cycleResult, if_Failed := if_Failed result + Failed cycleResult\<rparr>
      in if Stopped cycleResult then result1\<lparr>if_Stopped := True, if_StopReason := StopReason cycleResult\<rparr> else result1)"

function inferenceLoop ::
  "'s engine \<Rightarrow> int \<Rightarrow> 's rctxt \<Rightarrow> int \<Rightarrow> inferenceResult \<Rightarrow> ('s, inferenceResult \<times> rulesError option) act" where
  "inferenceLoop engine maxCycles ctx cycle result s =
     (if cycle \<le> maxCycles then
        (case ctx s of
           (Some err, s1) \<Rightarrow>
             ((result\<lparr>if_Stopped := True, if_StopReason := Some StatusCancelled\<rparr>,
               Some (wrapContextError ''before inference cycle'' ''inference'' err)), s1)
         | (None, s1) \<Rightarrow>
             (case engineRun engine ctx True s1 of
                ((cycleResult, err), s2) \<Rightarrow>
                  (let result1 = addCycle cycle cycleResult result
                   in case err of
                        Some e \<Rightarrow>
                          ((if isRulesContextError e
                            then result1\<lparr>if_Stopped := True, if_StopReason := Some StatusCancelled\<rparr> else result1,
                            Some e), s2)
                      | None \<Rightarrow>
                          if Applied cycleResult = 0 then ((result1\<lparr>if_Converged := True\<rparr>, None), s2)
                          else inferenceLoop engine maxCycles ctx (cycle + 1) result1 s2)))
      else
        ((result\<lparr>if_Stopped := True, if_StopReason := Some StatusNonConverged\<rparr>,
          Some (Typed (InferenceError (if_Cycles result)) (Some (Sentinel ErrInferenceNonConverged)))), s))"
  by pat_completeness auto
termination
  by (relation "measure (\<lambda>(e, m, ctx, c, r, s). nat (m + 1 - c))") auto

declare inferenceLoop.simps [simp del]

definition inferenceRun ::
  "'s inferenceEngine \<Rightarrow> 's rctxt \<Rightarrow> bool \<Rightarrow> ('s, inferenceResult \<times> rulesError option) act" where
  "inferenceRun e ctx hasFacts s =
     (if \<not> hasFacts then ((emptyInference, Some (Sentinel ErrNilFacts)), s)
      else let engine = NewEngine (ie_rules e) (if_EngineConfig (ie_config e))
           in inferenceLoop engine (MaxCycles (ie_config e)) ctx 1 emptyInference s)"

section \<open>Composite groups\<close>

definition ErrEmptyRuleGroup :: string where
  "ErrEmptyRuleGroup = ''rules group must contain at least one rule''"

definition ErrCompositeNotTriggered :: string where
  "ErrCompositeNotTriggered = ''rules composite did not trigger''"

definition ErrGuardRuleMissing :: string where
  "ErrGuardRuleMissing = ''rules guard rule not found''"

datatype compositeKind = compositeActivation | compositeConditional | compositeUnit

record 's compositeRule =
  cr_name :: string
  cr_description :: string
  cr_priority :: int
  cr_kind :: compositeKind
  cr_guardName :: string
  cr_children :: "'s ruleSet option"

type_synonym 's compositeOption = "'s compositeRule \<Rightarrow> 's compositeRule"

definition WithCompositeDescription :: "string \<Rightarrow> 's compositeOption" where
  "WithCompositeDescription description rule = rule\<lparr>cr_description := description\<rparr>"

definition WithCompositePriority :: "int \<Rightarrow> 's compositeOption" where
  "WithCompositePriority priority rule = rule\<lparr>cr_priority := priority\<rparr>"

fun firstMatchingRule ::
  "'s rctxt \<Rightarrow> 's ruleEntry list \<Rightarrow> ('s, rulesError + 's ruleEntry option) act" where
  "firstMatchingRule ctx [] s = (Inr None, s)"
| "firstMatchingRule ctx (entry # es) s =
     (case ctx s of
        (Some err, s1) \<Rightarrow> (Inl err, s1)
      | (None, s1) \<Rightarrow>
          (case r_Evaluate (e_rule entry) ctx s1 of
             ((triggered, Some err), s2) \<Rightarrow> (Inl err, s2)
           | ((triggered, None), s2) \<Rightarrow>
               if triggered then (Inr (Some entry), s2) else firstMatchingRule ctx es s2))"

definition evaluateNamedRule ::
  "'s rctxt \<Rightarrow> 's ruleSet option \<Rightarrow> string \<Rightarrow> ('s, bool \<times> rulesError option) act" where
  "evaluateNamedRule ctx rules name s =
     (case GetRule name rules of
        None \<Rightarrow> ((False, Some (Sentinel ErrGuardRuleMissing)), s)
      | Some rule \<Rightarrow>
          (case ctx s of
             (Some err, s1) \<Rightarrow> ((False, Some err), s1)
           | (None, s1) \<Rightarrow> r_Evaluate rule ctx s1))"

fun allRulesMatch :: "'s rctxt \<Rightarrow> 's ruleEntry list \<Rightarrow> ('s, bool \<times> rulesError option) act" where
  "allRulesMatch ctx [] s = ((True, None), s)"
| "allRulesMatch ctx (entry # es) s =
     (case ctx s of
        (Some err, s1) \<Rightarrow> ((False, Some err), s1)
      | (None, s1) \<Rightarrow>
          (case r_Evaluate (e_rule entry) ctx s1 of
             ((triggered, Some err), s2) \<Rightarrow> ((False, Some err), s2)
           | ((triggered, None), s2) \<Rightarrow>
               if \<not> triggered then ((False, None), s2) else allRulesMatch ctx es s2))"

definition executeFirstMatchingRule :: "'s rctxt \<Rightarrow> 's ruleEntry list \<Rightarrow> ('s, rulesError option) act" where
  "executeFirstMatchingRule ctx es s =
     (case firstMatchingRule ctx es s of
        (Inl err, s1) \<Rightarrow> (Some err, s1)
      | (Inr None, s1) \<Rightarrow> (Some (Sentinel ErrCompositeNotTriggered), s1)
      | (Inr (Some entry), s1) \<Rightarrow>
          (case ctx s1 of
             (Some err, s2) \<Rightarrow> (Some err, s2)
           | (None, s2) \<Rightarrow> r_Execute (e_rule entry) ctx s2))"

fun conditionalLoop :: "'s rctxt \<Rightarrow> string \<Rightarrow> 's ruleEntry list \<Rightarrow> bool \<Rightarrow> ('s, rulesError option) act" where
  "conditionalLoop ctx guardName [] executed s =
     ((if executed then None else Some (Sentinel ErrCompositeNotTriggered)), s)"
| "conditionalLoop ctx guardName (entry # es) executed s =
     (if e_name entry = guardName then conditionalLoop ctx guardName es executed s
      else
        (case ctx s of
           (Some err, s1) \<Rightarrow> (Some err, s1)
         | (None, s1) \<Rightarrow>
             (case r_Evaluate (e_rule entry) ctx s1 of
                ((triggered, Some err), s2) \<Rightarrow> (Some err, s2)
              | ((triggered, None), s2) \<Rightarrow>
                  if \<not> triggered then conditionalLoop ctx guardName es executed s2
                  else
                    (case ctx s2 of
                       (Some err, s3) \<Rightarrow> (Some err, s3)
                     | (None, s3) \<Rightarrow>
                         (case r_Execute (e_rule entry) ctx s3 of
                            (Some err, s4) \<Rightarrow> (Some err, s4)
                          | (None, s4) \<Rightarrow> conditionalLoop ctx guardName es True s4)))))"

definition executeConditionalGroup ::
  "'s rctxt \<Rightarrow> 's ruleSet option \<Rightarrow> string \<Rightarrow> ('s, rulesError option) act" where
  "executeConditionalGroup ctx children guardName s =
     (case evaluateNamedRule ctx children guardName s of
        ((triggered, Some err), s1) \<Rightarrow> (Some err, s1)
      | ((triggered, None), s1) \<Rightarrow>
          if \<not> triggered then (Some (Sentinel ErrCompositeNotTriggered), s1)
          else conditionalLoop ctx guardName (entries children) False s1)"

fun executeAll :: "'s rctxt \<Rightarrow> 's ruleEntry list \<Rightarrow> ('s, rulesError option) act" where
  "executeAll ctx [] s = (None, s)"
| "executeAll ctx (entry # es) s =
     (case ctx s of
        (Some err, s1) \<Rightarrow> (Some err, s1)
      | (None, s1) \<Rightarrow>
          (case r_Execute (e_rule entry) ctx s1 of
             (Some err, s2) \<Rightarrow> (Some err, s2)
           | (None, s2) \<Rightarrow> executeAll ctx es s2))"

definition executeUnitGroup :: "'s rctxt \<Rightarrow> 's ruleEntry list \<Rightarrow> ('s, rulesError option) act" where
  "executeUnitGroup ctx es s =
     (case allRulesMatch ctx es s of
        ((matched, Some err), s1) \<Rightarrow> (Some err, s1)
      | ((matched, None), s1) \<Rightarrow>
          if \<not> matched then (Some (Sentinel ErrCompositeNotTriggered), s1) else executeAll ctx es s1)"

definition compositeEvaluate :: "'s compositeRule \<Rightarrow> 's rctxt \<Rightarrow> ('s, bool \<times> rulesError option) act" where
  "compositeEvaluate r ctx s =
     (case cr_kind r of
        compositeActivation \<Rightarrow>
          (case firstMatchingRule ctx (entries (cr_children r)) s of
             (Inl err, s1) \<Rightarrow> ((False, Some err), s1)
           | (Inr m, s1) \<Rightarrow> ((m \<noteq> None, None), s1))
      | compositeConditional \<Rightarrow> evaluateNamedRule ctx (cr_children r) (cr_guardName r) s
      | compositeUnit \<Rightarrow> allRulesMatch ctx (entries (cr_children r)) s)"

definition compositeExecute :: "'s compositeRule \<Rightarrow> 's rctxt \<Rightarrow> ('s, rulesError option) act" where
  "compositeExecute r ctx s =
     (case cr_kind r of
        compositeActivation \<Rightarrow> executeFirstMatchingRule ctx (entries (cr_children r)) s
      | compositeConditional \<Rightarrow> executeConditionalGroup ctx (cr_children r) (cr_guardName r) s
      | compositeUnit \<Rightarrow> executeUnitGroup ctx (entries (cr_children r)) s)"

definition compositeMethods :: "'s compositeRule \<Rightarrow> 's rule" where
  "compositeMethods r =
     \<lparr>r_Name = cr_name r, r_Description = cr_description r, r_Priority = cr_priority r,
      r_Evaluate = compositeEvaluate r, r_Execute = compositeExecute r\<rparr>"

definition newCompositeRule ::
  "string \<Rightarrow> compositeKind \<Rightarrow> 's rule option list \<Rightarrow> string \<Rightarrow> 's compositeOption option list \<Rightarrow>
   rulesError + 's compositeRule" where
  "newCompositeRule name kind children guardName options =
     (let name = normalizeKey name
      in if name = [] then Inl (Sentinel ErrBlankKey)
         else if children = [] then Inl (Sentinel ErrEmptyRuleGroup)
         else (case NewRuleSet children of
                 Inl err \<Rightarrow> Inl err
               | Inr rset \<Rightarrow>
                   Inr (applyOptions options \<lparr>cr_name = name, cr_description = [], cr_priority = 0, cr_kind = kind,
                     cr_guardName = guardName, cr_children = rset\<rparr>)))"

definition NewActivationGroup ::
  "string \<Rightarrow> 's rule option list \<Rightarrow> 's compositeOption option list \<Rightarrow> rulesError + 's rule" where
  "NewActivationGroup name children options =
     (case newCompositeRule name compositeActivation children [] options of
        Inl err \<Rightarrow> Inl err | Inr grp \<Rightarrow> Inr (compositeMethods grp))"

definition NewConditionalGroup ::
  "string \<Rightarrow> string \<Rightarrow> 's rule option list \<Rightarrow> 's compositeOption option list \<Rightarrow> rulesError + 's rule" where
  "NewConditionalGroup name guardName children options =
     (let guardName = normalizeKey guardName
      in if guardName = [] then Inl (Sentinel ErrBlankKey)
         else (case newCompositeRule name compositeConditional children guardName options of
                 Inl err \<Rightarrow> Inl err
               | Inr grp \<Rightarrow>
                   if GetRule guardName (cr_children grp) = None then Inl (Sentinel ErrGuardRuleMissing)
                   else Inr (compositeMethods grp)))"

definition NewUnitGroup ::
  "string \<Rightarrow> 's rule option list \<Rightarrow> 's compositeOption option list \<Rightarrow> rulesError + 's rule" where
  "NewUnitGroup name children options =
     (case newCompositeRule name compositeUnit children [] options of
        Inl err \<Rightarrow> Inl err | Inr grp \<Rightarrow> Inr (compositeMethods grp))"

section \<open>Accounting of a run\<close>

definition countOf :: "detailStatus set \<Rightarrow> detail list \<Rightarrow> int" where
  "countOf S ds = int (length (filter (\<lambda>d. d_Status d \<in> S) ds))"

lemma countOf_append [simp]: "countOf S (ds @ [d]) = countOf S ds + (if d_Status d \<in> S then 1 else 0)"
  by (simp add: countOf_def)







lemmas detail_defs = addDetail_def newDetail_def stopWith_def

lemma stopWith_fields [simp]:
  "Stopped (stopWith reason r)" "StopReason (stopWith reason r) = Some reason" "Details (stopWith reason r) = Details r"
  by (simp_all add: stopWith_def)

lemma addDetail_fields [simp]:
  "Details (addDetail d r) = Details r @ [d]" "Stopped (addDetail d r) = Stopped r" "d_RuleName (newDetail entry st) = e_name entry"
  by (simp_all add: addDetail_def newDetail_def)









text \<open>
  Rules of the scenarios act on a number. \<open>countdown\<close> takes one away while it is positive,
  \<open>broken\<close> cannot be evaluated, \<open>always\<close> does nothing.
\<close>

definition countdown :: "nat rule" where
  "countdown = \<lparr>r_Name = ''countdown'', r_Description = [], r_Priority = 1,
     r_Evaluate = (\<lambda>ctx s. ((0 < s, None), s)), r_Execute = (\<lambda>ctx s. (None, s - 1))\<rparr>"

definition broken :: "nat rule" where
  "broken = \<lparr>r_Name = ''broken'', r_Description = [], r_Priority = 1,
     r_Evaluate = (\<lambda>ctx s. ((False, Some (Message ''boom'')), s)), r_Execute = (\<lambda>ctx s. (None, s))\<rparr>"

definition always :: "nat rule" where
  "always = \<lparr>r_Name = ''always'', r_Description = [], r_Priority = 2,
     r_Evaluate = (\<lambda>ctx s. ((True, None), s)), r_Execute = (\<lambda>ctx s. (None, s))\<rparr>"

definition plainConfig :: engineConfig where
  "plainConfig = \<lparr>StopOnFirstApplied = False, StopOnFirstFailed = False, StopOnFirstNotTriggered = False,
     PriorityThreshold = 0, UsePriorityThreshold = False\<rparr>"

definition quiet :: "'s rctxt" where
  "quiet s = (None, s)"

definition ruleSetOf :: "nat rule list \<Rightarrow> nat ruleSet option" where
  "ruleSetOf rs = fold (\<lambda>r s. snd (Add (Some r) s)) rs (Some emptyRuleSet)"

lemma scenario_names:
  "normalizeKey ''countdown'' = ''countdown''" "normalizeKey ''broken'' = ''broken''" "normalizeKey ''always'' = ''always''"
  unfolding normalizeKey_def by (rule TrimSpace_plain; simp)+

definition entryOf :: "nat rule \<Rightarrow> uint64 \<Rightarrow> nat ruleEntry" where
  "entryOf r n = \<lparr>e_rule = r, e_name = r_Name r, e_priority = r_Priority r, e_seq = n\<rparr>"

lemma scenario_entries:
  "entries (ruleSetOf [countdown]) = [entryOf countdown 0]"
  "entries (ruleSetOf [broken, always]) = [entryOf broken 0, entryOf always 1]"
  by (simp_all add: ruleSetOf_def Add_def countdown_def broken_def always_def emptyRuleSet_def scenario_names
      entries_def Let_def entryOf_def)

lemma NewEngine_fields [simp]:
  "entries (en_rules (NewEngine rules config)) = entries rules" "en_config (NewEngine rules config) = config"
  by (cases rules; simp add: NewEngine_def entries_def emptyRuleSet_def)+


text \<open>
  C36. A run that stops on the first applied rule returns no error although a rule before it
  failed, with the failure counted in the result: the joined error is only returned by runs that
  reach the end of the rule set.
\<close>

theorem engine_stop_hides_failures:
  assumes "StopOnFirstApplied config" "\<not> StopOnFirstFailed config" "\<not> UsePriorityThreshold config"
  shows "\<exists>res s'. engineRun (NewEngine (ruleSetOf [broken, always]) config) quiet True s = ((res, None), s') \<and>
    Failed res = 1 \<and> Stopped res \<and> StopReason res = Some StatusApplied"
proof -
  have plain: "\<not> isRulesContextError (Message m)" for m by (simp add: isRulesContextError_def)
  show ?thesis using assms unfolding engineRun_def NewEngine_fields scenario_entries
    by (simp add: entryOf_def broken_def always_def
        quiet_def failed_def plain Let_def emptyResult_def detail_defs)
qed

theorem engine_stop_hides_failures_witness:
  "\<exists>res s'. engineRun (NewEngine (ruleSetOf [broken, always]) (plainConfig\<lparr>StopOnFirstApplied := True\<rparr>)) quiet True 5 =
     ((res, None), s') \<and> Failed res = 1"
  using engine_stop_hides_failures[of "plainConfig\<lparr>StopOnFirstApplied := True\<rparr>" 5] by (auto simp: plainConfig_def)

section \<open>Inference\<close>

definition soFar :: "int \<Rightarrow> inferenceResult \<Rightarrow> bool" where
  "soFar cycle r \<longleftrightarrow> if_Cycles r = cycle - 1 \<and> int (length (if_CycleResults r)) = cycle - 1 \<and> \<not> if_Converged r \<and>
     if_Applied r = sum_list (map Applied (if_CycleResults r)) \<and> if_Failed r = sum_list (map Failed (if_CycleResults r)) \<and>
     (\<forall>c \<in> set (if_CycleResults r). Applied c \<noteq> 0)"

text \<open>The ways an inference ends: converged, out of cycles, cancelled between cycles, or with the error of a cycle.\<close>

definition inferenceEnd ::
  "'s engine \<Rightarrow> int \<Rightarrow> 's rctxt \<Rightarrow> inferenceResult \<Rightarrow> rulesError option \<Rightarrow> bool" where
  "inferenceEnd engine maxCycles ctx r err \<longleftrightarrow>
     (err = None \<and> if_Converged r \<and> if_CycleResults r \<noteq> [] \<and> Applied (last (if_CycleResults r)) = 0) \<or>
     (err = Some (Typed (InferenceError maxCycles) (Some (Sentinel ErrInferenceNonConverged))) \<and> \<not> if_Converged r \<and>
        if_StopReason r = Some StatusNonConverged \<and> if_Cycles r = maxCycles \<and> (\<forall>c \<in> set (if_CycleResults r). Applied c \<noteq> 0)) \<or>
     (\<not> if_Converged r \<and> if_StopReason r = Some StatusCancelled \<and> (\<exists>t x t'. ctx t = (Some x, t') \<and>
        err = Some (wrapContextError ''before inference cycle'' ''inference'' x))) \<or>
     (\<not> if_Converged r \<and> err \<noteq> None \<and> if_CycleResults r \<noteq> [] \<and>
        (\<exists>t t'. engineRun engine ctx True t = ((last (if_CycleResults r), err), t')))"

definition inferenceSpec ::
  "'s engine \<Rightarrow> int \<Rightarrow> 's rctxt \<Rightarrow> inferenceResult \<Rightarrow> rulesError option \<Rightarrow> bool" where
  "inferenceSpec engine maxCycles ctx r err \<longleftrightarrow>
     if_Cycles r \<le> maxCycles \<and> if_Cycles r = int (length (if_CycleResults r)) \<and>
     if_Applied r = sum_list (map Applied (if_CycleResults r)) \<and> if_Failed r = sum_list (map Failed (if_CycleResults r)) \<and>
     (\<forall>c \<in> set (butlast (if_CycleResults r)). Applied c \<noteq> 0) \<and> inferenceEnd engine maxCycles ctx r err"

lemma addCycle_fields [simp]:
  "if_Cycles (addCycle n c r) = n" "if_CycleResults (addCycle n c r) = if_CycleResults r @ [c]"
  "if_Applied (addCycle n c r) = if_Applied r + Applied c" "if_Failed (addCycle n c r) = if_Failed r + Failed c"
  "if_Converged (addCycle n c r) = if_Converged r"
  by (simp_all add: addCycle_def Let_def)

lemma inferenceLoop_spec:
  assumes "soFar cycle result" "1 \<le> cycle" "cycle \<le> maxCycles + 1"
    and "inferenceLoop engine maxCycles ctx cycle result s = ((res, err), s')"
  shows "inferenceSpec engine maxCycles ctx res err"
  using assms
proof (induction "nat (maxCycles + 1 - cycle)" arbitrary: cycle result s)
  case 0
  then have "cycle = maxCycles + 1" by simp
  with 0 show ?case
    by (subst (asm) inferenceLoop.simps) (auto simp: inferenceSpec_def inferenceEnd_def soFar_def dest: in_set_butlastD)
next
  case (Suc n)
  have le: "cycle \<le> maxCycles" using Suc.hyps(2) by simp
  obtain e1 s1 where s1: "ctx s = (e1, s1)" by (rule prod.exhaust)
  obtain c e2 s2 where s2: "engineRun engine ctx True s1 = ((c, e2), s2)" by (metis surj_pair)
  have butl: "\<forall>c \<in> set (butlast (if_CycleResults result)). Applied c \<noteq> 0"
    using Suc.prems(1) by (auto simp: soFar_def dest: in_set_butlastD)
  note acc = Suc.prems(1)[unfolded soFar_def]
  note step = Suc.prems(4)[symmetric, unfolded inferenceLoop.simps[of engine maxCycles ctx cycle result s] s1]
  consider x where "e1 = Some x" | x where "e1 = None" "e2 = Some x" | "e1 = None" "e2 = None" "Applied c = 0"
    | "e1 = None" "e2 = None" "Applied c \<noteq> 0" by (cases e1; cases e2) auto
  then show ?case
  proof cases
    case 1
    then have r: "res = result\<lparr>if_Stopped := True, if_StopReason := Some StatusCancelled\<rparr>"
      "err = Some (wrapContextError ''before inference cycle'' ''inference'' x)" using step le by simp_all
    have "\<not> if_Converged res \<and> if_StopReason res = Some StatusCancelled \<and> (\<exists>t x t'. ctx t = (Some x, t') \<and>
        err = Some (wrapContextError ''before inference cycle'' ''inference'' x))" using acc r s1 1 by simp blast
    then have "inferenceEnd engine maxCycles ctx res err" unfolding inferenceEnd_def by blast
    then show ?thesis using acc r le butl by (simp add: inferenceSpec_def)
  next
    case 2
    then obtain res' where r: "res = res'" "err = Some x" "if_Cycles res' = cycle" "if_Applied res' = if_Applied result + Applied c" "if_Failed res' = if_Failed result + Failed c"
      "if_CycleResults res' = if_CycleResults result @ [c]" "\<not> if_Converged res'"
      using step le acc by (simp add: s2 Let_def split: if_splits)
    have "inferenceEnd engine maxCycles ctx res err" unfolding inferenceEnd_def using r s2 2 by simp blast
    then show ?thesis using acc r le by (simp add: inferenceSpec_def)
  next
    case 3
    then have r: "res = (addCycle cycle c result)\<lparr>if_Converged := True\<rparr>" "err = None"
      using step le by (simp_all add: s2 Let_def)
    have "inferenceEnd engine maxCycles ctx res err" unfolding inferenceEnd_def using r 3 by simp
    then show ?thesis using acc r le by (simp add: inferenceSpec_def)
  next
    case 4
    then have "inferenceLoop engine maxCycles ctx (cycle + 1) (addCycle cycle c result) s2 = ((res, err), s')"
      using step le by (simp add: s2 Let_def)
    moreover have "soFar (cycle + 1) (addCycle cycle c result)" using 4 acc by (simp add: soFar_def ball_Un)
    ultimately show ?thesis using Suc.hyps Suc.prems(2) le by (intro Suc.hyps(1)[of "cycle + 1"]) simp_all
  qed
qed

text \<open>
  C9. Inference ends after at most \<^verbatim>\<open>MaxCycles\<close> cycles, and in one of four ways: it converged,
  after cycles that all applied a rule and a last one that applied none; it ran out of cycles, all
  of which applied a rule, with an \<^verbatim>\<open>InferenceError\<close> of exactly \<^verbatim>\<open>MaxCycles\<close>; the context ended it
  between cycles, with the wrapped context error; or its last cycle returned an error. The numbers of applied and of failed
  rules are the sums over the cycles.
\<close>

theorem inference_outcome:
  assumes new: "NewInferenceEngine rules config = Inr e" and run: "inferenceRun e ctx True s = ((res, err), s')"
  shows "inferenceSpec (NewEngine rules (if_EngineConfig config)) (MaxCycles config) ctx res err"
proof -
  have pos: "0 < MaxCycles config" and c: "ie_config e = config"
    and r: "NewEngine (ie_rules e) (if_EngineConfig config) = NewEngine rules (if_EngineConfig config)"
    using new by (auto simp: NewInferenceEngine_def NewEngine_def split: if_splits option.splits)
  have loop: "inferenceLoop (NewEngine rules (if_EngineConfig config)) (MaxCycles config) ctx 1 emptyInference s = ((res, err), s')"
    using run by (simp add: inferenceRun_def c r Let_def)
  show ?thesis by (rule inferenceLoop_spec[OF _ _ _ loop]) (use pos in \<open>simp_all add: soFar_def emptyInference_def\<close>)
qed

text \<open>
  C37. Inference converges: when no cycle fails and every cycle that applies a rule makes some
  measure of the facts smaller, an inference with more cycles than the measure at the start ends
  converged, without an error.
\<close>

theorem inference_converges:
  assumes new: "NewInferenceEngine rules config = Inr e"
    and alive: "\<And>t. ctx t = (None, t)"
    and cycle: "\<And>t. case engineRun (NewEngine rules (if_EngineConfig config)) ctx True t of
      ((c, x), t') \<Rightarrow> x = None \<and> (Applied c \<noteq> 0 \<longrightarrow> \<mu> t' < (\<mu> t :: nat))"
    and enough: "int (\<mu> s) < MaxCycles config"
  shows "\<exists>res s'. inferenceRun e ctx True s = ((res, None), s') \<and> if_Converged res \<and> if_Cycles res \<le> int (\<mu> s) + 1"
proof -
  let ?en = "NewEngine rules (if_EngineConfig config)"
  have c: "ie_config e = config" and r: "NewEngine (ie_rules e) (if_EngineConfig config) = ?en"
    using new by (auto simp: NewInferenceEngine_def NewEngine_def split: if_splits option.splits)
  have "\<exists>res s'. inferenceLoop ?en (MaxCycles config) ctx n result t = ((res, None), s') \<and> if_Converged res \<and>
      if_Cycles res \<le> n + int (\<mu> t)" if "n + int (\<mu> t) \<le> MaxCycles config" for n result t
    using that
  proof (induction "\<mu> t" arbitrary: n result t rule: less_induct)
    case less
    obtain c x t1 where run: "engineRun ?en ctx True t = ((c, x), t1)" by (metis surj_pair)
    then have x: "x = None" and smaller: "Applied c \<noteq> 0 \<Longrightarrow> \<mu> t1 < \<mu> t" using cycle[of t] by auto
    show ?case
    proof (cases "Applied c = 0")
      case True
      then show ?thesis using less.prems by (subst inferenceLoop.simps) (simp add: alive run x Let_def)
    next
      case False
      note sm = smaller[OF False]
      then have "n + 1 + int (\<mu> t1) \<le> MaxCycles config" using less.prems by simp
      from less.hyps[OF sm this, of "addCycle n c result"] sm False less.prems show ?thesis
        by (subst inferenceLoop.simps) (auto simp: alive run x Let_def)
    qed
  qed
  from this[of 1 s emptyInference] enough show ?thesis by (simp add: inferenceRun_def c r Let_def add.commute)
qed

definition countdownConfig :: inferenceConfig where
  "countdownConfig = \<lparr>MaxCycles = 4, if_EngineConfig = plainConfig\<rparr>"

lemma countdown_cycle:
  "engineRun (NewEngine (ruleSetOf [countdown]) plainConfig) quiet True t =
     (((if 0 < t then emptyResult\<lparr>Details := [(newDetail (entryOf countdown 0) StatusApplied)\<lparr>d_Triggered := True, d_Applied := True\<rparr>],
           Applied := 1\<rparr>
        else emptyResult\<lparr>Details := [newDetail (entryOf countdown 0) StatusNotTriggered], NotTriggered := 1\<rparr>), None), t - 1)"
  unfolding engineRun_def NewEngine_fields scenario_entries
  by (simp add: plainConfig_def quiet_def entryOf_def countdown_def Let_def resultError_def emptyResult_def detail_defs)

lemma countdown_new:
  "\<exists>e. NewInferenceEngine (ruleSetOf [countdown]) countdownConfig = Inr e"
  by (simp add: NewInferenceEngine_def countdownConfig_def plainConfig_def)

theorem inference_outcome_witness:
  "\<exists>e res err s'. inferenceRun e quiet True (3 :: nat) = ((res, err), s') \<and>
     inferenceSpec (NewEngine (ruleSetOf [countdown]) plainConfig) 4 quiet res err"
proof -
  obtain e where e: "NewInferenceEngine (ruleSetOf [countdown]) countdownConfig = Inr e" using countdown_new by blast
  obtain res err s' where run: "inferenceRun e quiet True 3 = ((res, err), s')" by (metis surj_pair)
  from inference_outcome[OF e run] run show ?thesis by (auto simp: countdownConfig_def)
qed

theorem inference_converges_witness:
  "\<exists>e res s'. NewInferenceEngine (ruleSetOf [countdown]) countdownConfig = Inr e \<and>
     inferenceRun e quiet True 3 = ((res, None), s') \<and> if_Converged res"
proof -
  obtain e where e: "NewInferenceEngine (ruleSetOf [countdown]) countdownConfig = Inr e" using countdown_new by blast
  have cycle: "case engineRun (NewEngine (ruleSetOf [countdown]) (if_EngineConfig countdownConfig)) quiet True t of
      ((c, x), t') \<Rightarrow> x = None \<and> (Applied c \<noteq> 0 \<longrightarrow> t' < t)" for t
    by (simp add: countdownConfig_def countdown_cycle emptyResult_def)
  have "\<exists>res s'. inferenceRun e quiet True 3 = ((res, None), s') \<and> if_Converged res \<and> if_Cycles res \<le> int 3 + 1"
    by (rule inference_converges[OF e, where \<mu> = "\<lambda>t. t"]) (simp_all only: cycle, simp_all add: quiet_def countdownConfig_def)
  with e show ?thesis by blast
qed

section \<open>Composite groups\<close>

lemma firstMatching_pure:
  assumes "\<And>e t. e \<in> set es \<Longrightarrow> r_Evaluate (e_rule e) quiet t = ((P (e_rule e) t, None), t)"
  shows "firstMatchingRule quiet es s = (Inr (List.find (\<lambda>e. P (e_rule e) s) es), s)"
  using assms by (induction es) (simp_all add: quiet_def)

lemma allMatch_pure:
  assumes "\<And>e t. e \<in> set es \<Longrightarrow> r_Evaluate (e_rule e) quiet t = ((P (e_rule e) t, None), t)"
  shows "allRulesMatch quiet es s = ((\<forall>e \<in> set es. P (e_rule e) s, None), s)"
  using assms by (induction es) (simp_all add: quiet_def)

lemma find_map: "List.find P (map f xs) = map_option f (List.find (\<lambda>x. P (f x)) xs)"
  by (induction xs) simp_all

text \<open>
  C38. With predicates that leave the facts alone: an activation group triggers when some child
  matches and then executes the first matching child in the order of the rule set and no other;
  a unit group triggers when all children match, and executes none of them otherwise; a
  conditional group triggers when its guard matches, and executes nothing otherwise. Executing a
  group that does not trigger returns \<^verbatim>\<open>ErrCompositeNotTriggered\<close> and leaves the facts alone.
\<close>

theorem composite_groups:
  assumes pure: "\<And>x t. x \<in> set (RulesOf (cr_children r)) \<Longrightarrow> r_Evaluate x quiet t = ((P x t, None), t)"
  shows "case cr_kind r of
      compositeActivation \<Rightarrow>
        compositeEvaluate r quiet s = ((\<exists>x \<in> set (RulesOf (cr_children r)). P x s, None), s) \<and>
        compositeExecute r quiet s = (case List.find (\<lambda>x. P x s) (RulesOf (cr_children r)) of
            None \<Rightarrow> (Some (Sentinel ErrCompositeNotTriggered), s) | Some x \<Rightarrow> r_Execute x quiet s)
    | compositeUnit \<Rightarrow>
        compositeEvaluate r quiet s = ((\<forall>x \<in> set (RulesOf (cr_children r)). P x s, None), s) \<and>
        compositeExecute r quiet s = (if \<forall>x \<in> set (RulesOf (cr_children r)). P x s
          then executeAll quiet (entries (cr_children r)) s else (Some (Sentinel ErrCompositeNotTriggered), s))
    | compositeConditional \<Rightarrow>
        (\<forall>g \<in> set (RulesOf (cr_children r)). GetRule (cr_guardName r) (cr_children r) = Some g \<longrightarrow>
          compositeEvaluate r quiet s = ((P g s, None), s) \<and>
          (\<not> P g s \<longrightarrow> compositeExecute r quiet s = (Some (Sentinel ErrCompositeNotTriggered), s)))"
proof -
  have p: "\<And>e t. e \<in> set (entries (cr_children r)) \<Longrightarrow> r_Evaluate (e_rule e) quiet t = ((P (e_rule e) t, None), t)"
    using pure by (simp add: RulesOf_def)
  have n: "quiet t = (None, t)" for t :: 'a by (simp add: quiet_def)
  define m where "m = List.find (\<lambda>e. P (e_rule e) s) (entries (cr_children r))"
  have m: "(\<exists>y. m = Some y) \<longleftrightarrow> (\<exists>e \<in> set (entries (cr_children r)). P (e_rule e) s)"
    using find_None_iff[of "\<lambda>e. P (e_rule e) s" "entries (cr_children r)"] unfolding m_def[symmetric] by (cases m) auto
  show ?thesis
    by (cases "cr_kind r"; cases m)
      (auto simp: compositeEvaluate_def compositeExecute_def executeFirstMatchingRule_def executeUnitGroup_def
        executeConditionalGroup_def evaluateNamedRule_def firstMatching_pure[OF p] allMatch_pure[OF p] n pure
        RulesOf_def find_map m_def[symmetric] m[symmetric])
qed

definition countdownGroup :: "compositeKind \<Rightarrow> nat compositeRule" where
  "countdownGroup kind = \<lparr>cr_name = ''group'', cr_description = [], cr_priority = 0, cr_kind = kind,
     cr_guardName = ''countdown'', cr_children = ruleSetOf [countdown]\<rparr>"

theorem composite_groups_witness:
  "compositeExecute (countdownGroup compositeActivation) quiet 3 = (None, 2) \<and>
   compositeExecute (countdownGroup compositeUnit) quiet 0 = (Some (Sentinel ErrCompositeNotTriggered), 0)"
proof -
  have rules: "RulesOf (cr_children (countdownGroup k)) = [countdown]" for k
    by (simp add: RulesOf_def countdownGroup_def scenario_entries entryOf_def)
  have pure: "x \<in> set (RulesOf (cr_children (countdownGroup k))) \<Longrightarrow> r_Evaluate x quiet t = ((0 < t, None), t)" for k x t
    unfolding rules by (simp add: countdown_def)
  have kind: "cr_kind (countdownGroup k) = k" for k by (simp add: countdownGroup_def)
  have x: "r_Execute countdown quiet 3 = (None, 2)" by (simp add: countdown_def)
  show ?thesis
    using composite_groups[of "countdownGroup compositeActivation" "\<lambda>x t. 0 < t" 3, OF pure]
      composite_groups[of "countdownGroup compositeUnit" "\<lambda>x t. 0 < t" 0, OF pure]
    by (simp add: kind rules x)
qed

end
