(* ===== verification/Batch.thy ===== *)
theory Batch
  imports Go_Strings
begin

text \<open>
  Package \<^verbatim>\<open>batch\<close>: retry and skip policies (\<^verbatim>\<open>batch/policy.go\<close>), the memory checkpoint store
  (\<^verbatim>\<open>checkpoint.go\<close>), reports (\<^verbatim>\<open>report.go\<close>), the chunked step (\<^verbatim>\<open>step.go\<close>), the atomic step
  (\<^verbatim>\<open>atomic.go\<close>, \<^verbatim>\<open>atomic_step.go\<close>) and jobs (\<^verbatim>\<open>job.go\<close>). Readers, processors, writers and checkpoint
  stores are interfaces of the caller: records of actions on a store \<open>'s\<close>. A result triple
  \<^verbatim>\<open>(value, ok, err)\<close> is \<open>Inl err\<close>, \<open>Inr None\<close> or \<open>Inr (Some value)\<close>. A reader may deliver items
  without end, so the read loops take fuel, and \<open>None\<close> means that it was not enough.
\<close>

section \<open>Errors and policies\<close>

type_synonym batchError = "unit go_error"

type_synonym 's bctxt = "('s, batchError option) act"

abbreviation batchIs :: "batchError \<Rightarrow> string \<Rightarrow> bool" where
  "batchIs \<equiv> errors_is (\<lambda>_ _. False)"

definition ErrCheckpointConflict :: string where
  "ErrCheckpointConflict = ''batch: checkpoint revision conflict''"

definition ErrCommitUnknown :: string where
  "ErrCommitUnknown = ''batch: commit outcome unknown''"

definition ErrAtomicityUnknown :: string where
  "ErrAtomicityUnknown = ''batch: atomicity outcome unknown''"

definition ErrUnsafeWriterSkipCheckpoint :: string where
  "ErrUnsafeWriterSkipCheckpoint = ''batch: skipped writer chunk cannot advance checkpoint safely''"

definition isBatchContextError :: "batchError \<Rightarrow> bool" where
  "isBatchContextError err = (batchIs err ctxCanceled \<or> batchIs err ctxDeadlineExceeded)"

definition nonContextError :: "batchError \<Rightarrow> bool" where
  "nonContextError err = (\<not> isBatchContextError err)"

record retryPolicy =
  rp_MaxAttempts :: int
  rp_RetryIf :: "(batchError \<Rightarrow> bool) option"

record skipPolicy =
  sk_MaxSkips :: int
  sk_SkipIf :: "(batchError \<Rightarrow> bool) option"

definition RetryErrors :: "int \<Rightarrow> (batchError \<Rightarrow> bool) option \<Rightarrow> batchError + retryPolicy" where
  "RetryErrors maxAttempts retryIf =
     (if maxAttempts \<le> 0 then Inl (Message ''max attempts must be positive'')
      else Inr \<lparr>rp_MaxAttempts = maxAttempts, rp_RetryIf = retryIf\<rparr>)"

definition SkipErrors :: "int \<Rightarrow> (batchError \<Rightarrow> bool) option \<Rightarrow> batchError + skipPolicy" where
  "SkipErrors maxSkips skipIf =
     (if maxSkips \<le> 0 then Inl (Message ''max skips must be positive'')
      else Inr \<lparr>sk_MaxSkips = maxSkips, sk_SkipIf = skipIf\<rparr>)"

definition normalizeRetry :: "retryPolicy \<Rightarrow> batchError + retryPolicy" where
  "normalizeRetry p =
     (let p1 = (if rp_MaxAttempts p = 0 then p\<lparr>rp_MaxAttempts := 1\<rparr> else p)
      in if rp_MaxAttempts p1 < 0 then Inl (Message ''max attempts must be positive'')
         else if rp_RetryIf p1 = None \<and> 1 < rp_MaxAttempts p1 then Inr (p1\<lparr>rp_RetryIf := Some nonContextError\<rparr>)
         else Inr p1)"

definition shouldRetry :: "retryPolicy \<Rightarrow> batchError \<Rightarrow> int \<Rightarrow> bool" where
  "shouldRetry p err attempt =
     (if rp_MaxAttempts p \<le> attempt \<or> isBatchContextError err then False
      else case rp_RetryIf p of None \<Rightarrow> False | Some f \<Rightarrow> f err)"

definition normalizeSkip :: "skipPolicy \<Rightarrow> batchError + skipPolicy" where
  "normalizeSkip p =
     (if sk_MaxSkips p < 0 then Inl (Message ''max skips must not be negative'')
      else if sk_SkipIf p = None \<and> 0 < sk_MaxSkips p then Inr (p\<lparr>sk_SkipIf := Some nonContextError\<rparr>)
      else Inr p)"

definition shouldSkip :: "skipPolicy \<Rightarrow> batchError \<Rightarrow> int \<Rightarrow> int \<Rightarrow> bool" where
  "shouldSkip p err used cost =
     (if cost \<le> 0 \<or> sk_MaxSkips p \<le> 0 \<or> isBatchContextError err then False
      else if sk_MaxSkips p < used + cost then False
      else case sk_SkipIf p of None \<Rightarrow> False | Some f \<Rightarrow> f err)"

section \<open>Interfaces\<close>

record ('s, 'c) checkpointReader =
  cr_Restore :: "'s bctxt \<Rightarrow> 'c \<Rightarrow> ('s, batchError option) act"
  cr_Checkpoint :: "'s bctxt \<Rightarrow> ('s, batchError + 'c option) act"

text \<open>The last field is the result of the type assertion to \<^verbatim>\<open>CheckpointReader\<close>.\<close>

record ('s, 'i, 'c) reader =
  rd_Open :: "'s bctxt \<Rightarrow> ('s, batchError option) act"
  rd_Read :: "'s bctxt \<Rightarrow> ('s, batchError + 'i option) act"
  rd_Close :: "'s bctxt \<Rightarrow> ('s, batchError option) act"
  rd_checkpoints :: "('s, 'c) checkpointReader option"

type_synonym ('s, 'i, 'o) processor = "'s bctxt \<Rightarrow> 'i \<Rightarrow> ('s, batchError + 'o option) act"

definition IdentityProcessor :: "('s, 'i, 'i) processor" where
  "IdentityProcessor ctx item s =
     (case ctx s of (Some err, s1) \<Rightarrow> (Inl err, s1) | (None, s1) \<Rightarrow> (Inr (Some item), s1))"

record ('s, 'o) batchWriter =
  wr_Open :: "'s bctxt \<Rightarrow> ('s, batchError option) act"
  wr_Write :: "'s bctxt \<Rightarrow> 'o list \<Rightarrow> ('s, batchError option) act"
  wr_Close :: "'s bctxt \<Rightarrow> ('s, batchError option) act"

record ('s, 'c) checkpointStore =
  st_Load :: "'s bctxt \<Rightarrow> string \<Rightarrow> ('s, batchError + 'c option) act"
  st_Save :: "'s bctxt \<Rightarrow> string \<Rightarrow> 'c \<Rightarrow> ('s, batchError option) act"

record 'c versionedCheckpoint =
  vc_Value :: 'c
  vc_Version :: uint64

record ('s, 'o, 'c) atomicWriter =
  aw_Load :: "'s bctxt \<Rightarrow> string \<Rightarrow> ('s, batchError + 'c versionedCheckpoint option) act"
  aw_Commit :: "'s bctxt \<Rightarrow> string \<Rightarrow> uint64 \<Rightarrow> 'o list \<Rightarrow> 'c \<Rightarrow> ('s, batchError + uint64) act"

text \<open>The memory store is the first component of the store; the flag is a non-nil receiver.\<close>

definition memoryLoad ::
  "bool \<Rightarrow> ((string \<times> 'c) list \<times> 'w) bctxt \<Rightarrow> string \<Rightarrow> ((string \<times> 'c) list \<times> 'w, batchError + 'c option) act" where
  "memoryLoad hasStore ctx key \<sigma> =
     (case ctx \<sigma> of
        (Some err, \<sigma>1) \<Rightarrow> (Inl err, \<sigma>1)
      | (None, \<sigma>1) \<Rightarrow>
          if \<not> hasStore then (Inl (Message ''checkpoint store must not be nil''), \<sigma>1)
          else (Inr (map_of (fst \<sigma>1) key), \<sigma>1))"

definition memorySave ::
  "bool \<Rightarrow> ((string \<times> 'c) list \<times> 'w) bctxt \<Rightarrow> string \<Rightarrow> 'c \<Rightarrow> ((string \<times> 'c) list \<times> 'w, batchError option) act" where
  "memorySave hasStore ctx key checkpoint \<sigma> =
     (case ctx \<sigma> of
        (Some err, \<sigma>1) \<Rightarrow> (Some err, \<sigma>1)
      | (None, \<sigma>1) \<Rightarrow>
          if \<not> hasStore then (Some (Message ''checkpoint store must not be nil''), \<sigma>1)
          else (None, (AList.update key checkpoint (fst \<sigma>1), snd \<sigma>1)))"

section \<open>Reports\<close>

datatype batchStatus = StatusCompleted | StatusFailed | StatusCancelled | StatusPartial

record reportData =
  rp_Name :: string
  rp_Status :: batchStatus
  rp_StartedAt :: int
  rp_EndedAt :: int
  ReadCount :: int
  WriteCount :: int
  FilterCount :: int
  SkipCount :: int
  RetryCount :: int
  rp_Err :: "batchError option"

datatype report = Report (rp_Data: reportData) (rp_Children: "report list")

definition IsSuccess :: "reportData \<Rightarrow> bool" where
  "IsSuccess r = (rp_Status r = StatusCompleted)"

definition IsFailure :: "reportData \<Rightarrow> bool" where
  "IsFailure r = (rp_Status r = StatusFailed \<or> rp_Status r = StatusCancelled \<or> rp_Status r = StatusPartial)"

text \<open>\<open>clock\<close> is \<^verbatim>\<open>time.Now\<close>.\<close>

definition newReport :: "('s, int) act \<Rightarrow> string \<Rightarrow> ('s, reportData) act" where
  "newReport clock name s =
     (case clock s of
        (now, s1) \<Rightarrow>
          (\<lparr>rp_Name = name, rp_Status = StatusCompleted, rp_StartedAt = now, rp_EndedAt = now, ReadCount = 0,
            WriteCount = 0, FilterCount = 0, SkipCount = 0, RetryCount = 0, rp_Err = None\<rparr>, s1))"

definition finish :: "('s, int) act \<Rightarrow> batchStatus \<Rightarrow> batchError option \<Rightarrow> reportData \<Rightarrow> ('s, reportData) act" where
  "finish clock status err r s =
     (case clock s of (now, s1) \<Rightarrow> (r\<lparr>rp_Status := status, rp_Err := err, rp_EndedAt := now\<rparr>, s1))"

definition statusForError :: "batchError \<Rightarrow> batchStatus" where
  "statusForError err =
     (if batchIs err ErrCommitUnknown \<or> batchIs err ErrAtomicityUnknown then StatusFailed
      else if isBatchContextError err then StatusCancelled
      else StatusFailed)"

definition failWith :: "('s, int) act \<Rightarrow> batchError \<Rightarrow> reportData \<Rightarrow> ('s, reportData) act" where
  "failWith clock err r s = finish clock (statusForError err) (Some err) r s"

text \<open>\<^verbatim>\<open>errors.Join\<close> of two errors, and \<^verbatim>\<open>context.WithoutCancel\<close>.\<close>

definition joinErrors :: "batchError option \<Rightarrow> batchError option \<Rightarrow> batchError option" where
  "joinErrors a b =
     (let errs = List.map_filter id [a, b] in if errs = [] then None else Some (Wrapped [] errs))"

definition withoutCancel :: "'s bctxt" where
  "withoutCancel s = (None, s)"

definition isNil :: "'x option \<Rightarrow> bool" where
  "isNil p = (case p of None \<Rightarrow> True | Some f \<Rightarrow> False)"

section \<open>Steps\<close>

text \<open>The fields both kinds of step have; a step has a writer or an atomic writer.\<close>

record ('s, 'i, 'o, 'c) stepBase =
  sp_name :: string
  sp_chunkSize :: int
  sp_reader :: "('s, 'i, 'c) reader"
  sp_processor :: "('s, 'i, 'o) processor"
  sp_retry :: retryPolicy
  sp_skip :: skipPolicy
  sp_key :: string

record ('s, 'i, 'o, 'c) plainStep = "('s, 'i, 'o, 'c) stepBase" +
  sp_writer :: "('s, 'o) batchWriter"
  sp_store :: "('s, 'c) checkpointStore option"

record ('s, 'i, 'o, 'c) atomicStep = "('s, 'i, 'o, 'c) stepBase" +
  sp_atomic :: "('s, 'o, 'c) atomicWriter"

definition DefaultChunkSize :: int where
  "DefaultChunkSize = 100"

record ('s, 'i, 'o, 'c) stepOptions =
  so_Name :: string
  so_ChunkSize :: int
  so_Reader :: "('s, 'i, 'c) reader option"
  so_Processor :: "('s, 'i, 'o) processor option"
  so_Writer :: "('s, 'o) batchWriter option"
  so_RetryPolicy :: retryPolicy
  so_SkipPolicy :: skipPolicy
  so_CheckpointStore :: "('s, 'c) checkpointStore option"
  so_CheckpointKey :: string

definition NewStep :: "('s, 'i, 'o, 'c) stepOptions \<Rightarrow> batchError + ('s, 'i, 'o, 'c) plainStep" where
  "NewStep options =
     (if so_Name options = [] then Inl (Message ''step name must not be empty'')
      else
        let chunkSize = (if so_ChunkSize options = 0 then DefaultChunkSize else so_ChunkSize options)
        in if chunkSize < 0 then Inl (Message ''chunk size must be positive'')
           else
             (case (so_Reader options, so_Processor options, so_Writer options) of
                (None, _, _) \<Rightarrow> Inl (Message ''reader must not be nil'')
              | (Some reader, None, _) \<Rightarrow> Inl (Message ''processor must not be nil'')
              | (Some reader, Some processor, None) \<Rightarrow> Inl (Message ''writer must not be nil'')
              | (Some reader, Some processor, Some writer) \<Rightarrow>
                  (case normalizeRetry (so_RetryPolicy options) of
                     Inl err \<Rightarrow> Inl err
                   | Inr retry \<Rightarrow>
                       (case normalizeSkip (so_SkipPolicy options) of
                          Inl err \<Rightarrow> Inl err
                        | Inr skip \<Rightarrow>
                            Inr \<lparr>sp_name = so_Name options, sp_chunkSize = chunkSize, sp_reader = reader,
                              sp_processor = processor, sp_retry = retry, sp_skip = skip,
                              sp_key = (case so_CheckpointStore options of
                                          None \<Rightarrow> so_CheckpointKey options
                                        | Some st \<Rightarrow> if so_CheckpointKey options = [] then so_Name options
                                                     else so_CheckpointKey options),
                              sp_writer = writer, sp_store = so_CheckpointStore options\<rparr>))))"

record ('s, 'i, 'o, 'c) atomicStepOptions =
  ao_Name :: string
  ao_ChunkSize :: int
  ao_Reader :: "('s, 'i, 'c) reader option"
  ao_Processor :: "('s, 'i, 'o) processor option"
  ao_AtomicWriter :: "('s, 'o, 'c) atomicWriter option"
  ao_RetryPolicy :: retryPolicy
  ao_SkipPolicy :: skipPolicy
  ao_CheckpointKey :: string

definition NewAtomicStep :: "('s, 'i, 'o, 'c) atomicStepOptions \<Rightarrow> batchError + ('s, 'i, 'o, 'c) atomicStep" where
  "NewAtomicStep options =
     (if ao_Name options = [] then Inl (Message ''step name must not be empty'')
      else
        let chunkSize = (if ao_ChunkSize options = 0 then DefaultChunkSize else ao_ChunkSize options)
        in if chunkSize < 0 then Inl (Message ''chunk size must be positive'')
           else
             (case (ao_Reader options, ao_Processor options, ao_AtomicWriter options) of
                (None, _, _) \<Rightarrow> Inl (Message ''reader must not be nil'')
              | (Some reader, None, _) \<Rightarrow> Inl (Message ''processor must not be nil'')
              | (Some reader, Some processor, None) \<Rightarrow> Inl (Message ''atomic writer must not be nil'')
              | (Some reader, Some processor, Some writer) \<Rightarrow>
                  if isNil (rd_checkpoints reader)
                  then Inl (Message ''reader does not support checkpoints'')
                  else
                    (case normalizeRetry (ao_RetryPolicy options) of
                       Inl err \<Rightarrow> Inl err
                     | Inr retry \<Rightarrow>
                         (case normalizeSkip (ao_SkipPolicy options) of
                            Inl err \<Rightarrow> Inl err
                          | Inr skip \<Rightarrow>
                              Inr \<lparr>sp_name = ao_Name options, sp_chunkSize = chunkSize, sp_reader = reader,
                                sp_processor = processor, sp_retry = retry, sp_skip = skip,
                                sp_key = (if ao_CheckpointKey options = [] then ao_Name options
                                          else ao_CheckpointKey options),
                                sp_atomic = writer\<rparr>))))"

section \<open>Processing and writing\<close>

function processItem ::
  "('s, 'i, 'o, 'c, 'z) stepBase_scheme \<Rightarrow> 's bctxt \<Rightarrow> 'i \<Rightarrow> int \<Rightarrow> reportData \<Rightarrow>
   ('s, (batchError + 'o option) \<times> reportData) act" where
  "processItem step ctx item attempt r s =
     (case ctx s of
        (Some err, s1) \<Rightarrow> ((Inl err, r), s1)
      | (None, s1) \<Rightarrow>
          (case sp_processor step ctx item s1 of
             (Inr v, s2) \<Rightarrow> ((Inr v, r), s2)
           | (Inl err, s2) \<Rightarrow>
               if \<not> shouldRetry (sp_retry step) err attempt then ((Inl err, r), s2)
               else processItem step ctx item (attempt + 1) (r\<lparr>RetryCount := RetryCount r + 1\<rparr>) s2))"
  by pat_completeness auto
termination
  by (relation "measure (\<lambda>(p, ctx, i, a, r, s). nat (rp_MaxAttempts (sp_retry p) - a))")
    (auto simp: shouldRetry_def split: if_splits)

function writeChunk ::
  "('s, 'i, 'o, 'c) plainStep \<Rightarrow> 's bctxt \<Rightarrow> 'o list \<Rightarrow> int \<Rightarrow> reportData \<Rightarrow>
   ('s, batchError option \<times> reportData) act" where
  "writeChunk step ctx chunk attempt r s =
     (case ctx s of
        (Some err, s1) \<Rightarrow> ((Some err, r), s1)
      | (None, s1) \<Rightarrow>
          (case wr_Write (sp_writer step) ctx chunk s1 of
             (None, s2) \<Rightarrow> ((None, r), s2)
           | (Some err, s2) \<Rightarrow>
               if \<not> shouldRetry (sp_retry step) err attempt then ((Some err, r), s2)
               else writeChunk step ctx chunk (attempt + 1) (r\<lparr>RetryCount := RetryCount r + 1\<rparr>) s2))"
  by pat_completeness auto
termination
  by (relation "measure (\<lambda>(p, ctx, c, a, r, s). nat (rp_MaxAttempts (sp_retry p) - a))")
    (auto simp: shouldRetry_def split: if_splits)

declare processItem.simps [simp del] writeChunk.simps [simp del]

definition restoreCheckpoint :: "('s, 'i, 'o, 'c) plainStep \<Rightarrow> 's bctxt \<Rightarrow> ('s, batchError option) act" where
  "restoreCheckpoint step ctx s =
     (case sp_store step of
        None \<Rightarrow> (None, s)
      | Some st \<Rightarrow>
          (case rd_checkpoints (sp_reader step) of
             None \<Rightarrow> (Some (Message ''reader does not support checkpoints''), s)
           | Some reader \<Rightarrow>
               (case st_Load st ctx (sp_key step) s of
                  (Inl err, s1) \<Rightarrow> (Some err, s1)
                | (Inr None, s1) \<Rightarrow> (None, s1)
                | (Inr (Some checkpoint), s1) \<Rightarrow> cr_Restore reader ctx checkpoint s1)))"

definition saveCheckpoint :: "('s, 'i, 'o, 'c) plainStep \<Rightarrow> 's bctxt \<Rightarrow> ('s, batchError option) act" where
  "saveCheckpoint step ctx s =
     (case sp_store step of
        None \<Rightarrow> (None, s)
      | Some st \<Rightarrow>
          (case rd_checkpoints (sp_reader step) of
             None \<Rightarrow> (Some (Message ''reader does not support checkpoints''), s)
           | Some reader \<Rightarrow>
               (case cr_Checkpoint reader ctx s of
                  (Inl err, s1) \<Rightarrow> (Some err, s1)
                | (Inr None, s1) \<Rightarrow> (None, s1)
                | (Inr (Some checkpoint), s1) \<Rightarrow> st_Save st ctx (sp_key step) checkpoint s1)))"

definition flush ::
  "('s, 'i, 'o, 'c) plainStep \<Rightarrow> 's bctxt \<Rightarrow> 'o list \<Rightarrow> reportData \<Rightarrow> ('s, batchError option \<times> reportData) act" where
  "flush step ctx chunk r s =
     (if chunk = [] then ((None, r), s)
      else
        (case ctx s of
           (Some err, s1) \<Rightarrow> ((Some err, r), s1)
         | (None, s1) \<Rightarrow>
             (case writeChunk step ctx chunk 1 r s1 of
                ((Some err, r1), s2) \<Rightarrow>
                  if shouldSkip (sp_skip step) err (SkipCount r1) (int (length chunk)) then
                    (case sp_store step of
                       Some st \<Rightarrow> ((Some (Wrapped ''%w: %w'' [Sentinel ErrUnsafeWriterSkipCheckpoint, err]), r1), s2)
                     | None \<Rightarrow> ((None, r1\<lparr>SkipCount := SkipCount r1 + int (length chunk)\<rparr>), s2))
                  else ((Some err, r1), s2)
              | ((None, r1), s2) \<Rightarrow>
                  (case saveCheckpoint step ctx s2 of
                     (err, s3) \<Rightarrow> ((err, r1\<lparr>WriteCount := WriteCount r1 + int (length chunk)\<rparr>), s3)))))"

section \<open>The chunked step\<close>

fun stepLoop ::
  "nat \<Rightarrow> ('s, int) act \<Rightarrow> ('s, 'i, 'o, 'c) plainStep \<Rightarrow> 's bctxt \<Rightarrow> 'o list \<Rightarrow> reportData \<Rightarrow>
   ('s, reportData option) act" where
  "stepLoop 0 clock step ctx chunk r s = (None, s)"
| "stepLoop (Suc n) clock step ctx chunk r s =
     (case ctx s of
        (Some err, s1) \<Rightarrow> apfst Some (finish clock StatusCancelled (Some err) r s1)
      | (None, s1) \<Rightarrow>
          (case rd_Read (sp_reader step) ctx s1 of
             (Inl err, s2) \<Rightarrow> apfst Some (failWith clock err r s2)
           | (Inr None, s2) \<Rightarrow>
               (case flush step ctx chunk r s2 of
                  ((Some err, r1), s3) \<Rightarrow> apfst Some (failWith clock err r1 s3)
                | ((None, r1), s3) \<Rightarrow> apfst Some (finish clock StatusCompleted None r1 s3))
           | (Inr (Some item), s2) \<Rightarrow>
               (case processItem step ctx item 1 (r\<lparr>ReadCount := ReadCount r + 1\<rparr>) s2 of
                  ((Inl err, r1), s3) \<Rightarrow>
                    if shouldSkip (sp_skip step) err (SkipCount r1) 1 then
                      (let r2 = r1\<lparr>SkipCount := SkipCount r1 + 1\<rparr>
                       in case saveCheckpoint step ctx s3 of
                            (Some e, s4) \<Rightarrow> apfst Some (failWith clock e r2 s4)
                          | (None, s4) \<Rightarrow> stepLoop n clock step ctx chunk r2 s4)
                    else apfst Some (failWith clock err r1 s3)
                | ((Inr None, r1), s3) \<Rightarrow>
                    (let r2 = r1\<lparr>FilterCount := FilterCount r1 + 1\<rparr>
                     in case saveCheckpoint step ctx s3 of
                          (Some e, s4) \<Rightarrow> apfst Some (failWith clock e r2 s4)
                        | (None, s4) \<Rightarrow> stepLoop n clock step ctx chunk r2 s4)
                | ((Inr (Some processed), r1), s3) \<Rightarrow>
                    (let chunk1 = chunk @ [processed]
                     in if int (length chunk1) = sp_chunkSize step then
                          (case flush step ctx chunk1 r1 s3 of
                             ((Some err, r2), s4) \<Rightarrow> apfst Some (failWith clock err r2 s4)
                           | ((None, r2), s4) \<Rightarrow> stepLoop n clock step ctx [] r2 s4)
                        else stepLoop n clock step ctx chunk1 r1 s3))))"

text \<open>The body of \<^verbatim>\<open>Run\<close> before the deferred close: the report and which resources are open.\<close>

definition stepBody ::
  "nat \<Rightarrow> ('s, int) act \<Rightarrow> ('s, 'i, 'o, 'c) plainStep \<Rightarrow> 's bctxt \<Rightarrow> reportData \<Rightarrow>
   ('s, bool \<times> bool \<times> reportData option) act" where
  "stepBody n clock step ctx r s =
     (case ctx s of
        (Some err, s1) \<Rightarrow> apfst (\<lambda>x. (False, False, Some x)) (finish clock StatusCancelled (Some err) r s1)
      | (None, s1) \<Rightarrow>
          (case rd_Open (sp_reader step) ctx s1 of
             (Some err, s2) \<Rightarrow> apfst (\<lambda>x. (False, False, Some x)) (failWith clock err r s2)
           | (None, s2) \<Rightarrow>
               (case wr_Open (sp_writer step) ctx s2 of
                  (Some err, s3) \<Rightarrow> apfst (\<lambda>x. (True, False, Some x)) (failWith clock err r s3)
                | (None, s3) \<Rightarrow>
                    (case restoreCheckpoint step ctx s3 of
                       (Some err, s4) \<Rightarrow> apfst (\<lambda>x. (True, True, Some x)) (failWith clock err r s4)
                     | (None, s4) \<Rightarrow> apfst (\<lambda>x. (True, True, x)) (stepLoop n clock step ctx [] r s4)))))"

definition closeReport :: "('s, int) act \<Rightarrow> batchError option \<Rightarrow> reportData \<Rightarrow> ('s, reportData) act" where
  "closeReport clock closeErr r s =
     (case closeErr of
        None \<Rightarrow> (r, s)
      | Some e \<Rightarrow>
          if rp_Err r = None \<and> rp_Status r = StatusCompleted then finish clock StatusFailed closeErr r s
          else (r\<lparr>rp_Err := joinErrors (rp_Err r) closeErr\<rparr>, s))"

definition closeResources ::
  "('s, int) act \<Rightarrow> ('s, 'i, 'o, 'c) plainStep \<Rightarrow> bool \<Rightarrow> bool \<Rightarrow> reportData \<Rightarrow> ('s, reportData) act" where
  "closeResources clock step readerOpened writerOpened r s =
     (case (if writerOpened then apfst (joinErrors None) (wr_Close (sp_writer step) withoutCancel s) else (None, s)) of
        (e1, s1) \<Rightarrow>
          (case (if readerOpened then apfst (joinErrors e1) (rd_Close (sp_reader step) withoutCancel s1) else (e1, s1)) of
             (e2, s2) \<Rightarrow> closeReport clock e2 r s2))"

definition runStep ::
  "nat \<Rightarrow> ('s, int) act \<Rightarrow> ('s, 'i, 'o, 'c) plainStep option \<Rightarrow> 's bctxt \<Rightarrow> ('s, reportData option) act" where
  "runStep n clock step ctx s =
     (case step of
        None \<Rightarrow>
          (case newReport clock [] s of
             (r, s1) \<Rightarrow> apfst Some (finish clock StatusFailed (Some (Message ''step must not be nil'')) r s1))
      | Some p \<Rightarrow>
          (case newReport clock (sp_name p) s of
             (r, s1) \<Rightarrow>
               (case stepBody n clock p ctx r s1 of
                  ((ro, wo, None), s2) \<Rightarrow> (None, s2)
                | ((ro, wo, Some r1), s2) \<Rightarrow> apfst Some (closeResources clock p ro wo r1 s2))))"

section \<open>The atomic step\<close>

definition commitAtomic ::
  "('s, 'i, 'o, 'c) atomicStep \<Rightarrow> 's bctxt \<Rightarrow> ('s, 'c) checkpointReader \<Rightarrow> uint64 \<Rightarrow> 'o list \<Rightarrow> reportData \<Rightarrow>
   ('s, (batchError + uint64) \<times> reportData) act" where
  "commitAtomic step ctx reader expected pending r s =
     (case ctx s of
        (Some err, s1) \<Rightarrow> ((Inl err, r), s1)
      | (None, s1) \<Rightarrow>
          (case cr_Checkpoint reader ctx s1 of
             (Inl err, s2) \<Rightarrow> ((Inl err, r), s2)
           | (Inr None, s2) \<Rightarrow> ((Inl (Message ''reader checkpoint is unavailable''), r), s2)
           | (Inr (Some checkpoint), s2) \<Rightarrow>
               (case ctx s2 of
                  (Some err, s3) \<Rightarrow> ((Inl err, r), s3)
                | (None, s3) \<Rightarrow>
                    (case aw_Commit (sp_atomic step) ctx (sp_key step) expected pending checkpoint s3 of
                       (Inl err, s4) \<Rightarrow> ((Inl err, r), s4)
                     | (Inr version, s4) \<Rightarrow>
                         ((Inr version, r\<lparr>WriteCount := WriteCount r + int (length pending)\<rparr>), s4)))))"

text \<open>What the iteration does with a processed item: the new pending list and report, or the error that ends the run.\<close>

definition takeItem ::
  "('s, 'i, 'o, 'c) atomicStep \<Rightarrow> batchError + 'o option \<Rightarrow> 'o list \<Rightarrow> reportData \<Rightarrow> batchError option \<times> 'o list \<times> reportData" where
  "takeItem step result pending r =
     (case result of
        Inl err \<Rightarrow>
          if shouldSkip (sp_skip step) err (SkipCount r) 1 then (None, pending, r\<lparr>SkipCount := SkipCount r + 1\<rparr>)
          else (Some err, pending, r)
      | Inr None \<Rightarrow> (None, pending, r\<lparr>FilterCount := FilterCount r + 1\<rparr>)
      | Inr (Some processed) \<Rightarrow> (None, pending @ [processed], r))"

fun atomicLoop ::
  "nat \<Rightarrow> ('s, int) act \<Rightarrow> ('s, 'i, 'o, 'c) atomicStep \<Rightarrow> 's bctxt \<Rightarrow> ('s, 'c) checkpointReader \<Rightarrow> uint64 \<Rightarrow>
   'o list \<Rightarrow> int \<Rightarrow> reportData \<Rightarrow> ('s, reportData option) act" where
  "atomicLoop 0 clock step ctx reader expected pending progressCount r s = (None, s)"
| "atomicLoop (Suc n) clock step ctx reader expected pending progressCount r s =
     (case ctx s of
        (Some err, s1) \<Rightarrow> apfst Some (finish clock StatusCancelled (Some err) r s1)
      | (None, s1) \<Rightarrow>
          (case rd_Read (sp_reader step) ctx s1 of
             (Inl err, s2) \<Rightarrow> apfst Some (failWith clock err r s2)
           | (Inr None, s2) \<Rightarrow>
               if 0 < progressCount then
                 (case commitAtomic step ctx reader expected pending r s2 of
                    ((Inl err, r1), s3) \<Rightarrow> apfst Some (failWith clock err r1 s3)
                  | ((Inr version, r1), s3) \<Rightarrow> apfst Some (finish clock StatusCompleted None r1 s3))
               else apfst Some (finish clock StatusCompleted None r s2)
           | (Inr (Some item), s2) \<Rightarrow>
               (case processItem step ctx item 1 (r\<lparr>ReadCount := ReadCount r + 1\<rparr>) s2 of
                  ((result, r1), s3) \<Rightarrow>
                    (case takeItem step result pending r1 of
                       (Some err, pending1, r2) \<Rightarrow> apfst Some (failWith clock err r2 s3)
                     | (None, pending1, r2) \<Rightarrow>
                         if progressCount + 1 = sp_chunkSize step then
                           (case commitAtomic step ctx reader expected pending1 r2 s3 of
                              ((Inl err, r3), s4) \<Rightarrow> apfst Some (failWith clock err r3 s4)
                            | ((Inr version, r3), s4) \<Rightarrow> atomicLoop n clock step ctx reader version [] 0 r3 s4)
                         else atomicLoop n clock step ctx reader expected pending1 (progressCount + 1) r2 s3))))"

definition atomicBody ::
  "nat \<Rightarrow> ('s, int) act \<Rightarrow> ('s, 'i, 'o, 'c) atomicStep \<Rightarrow> 's bctxt \<Rightarrow> reportData \<Rightarrow> ('s, reportData option) act" where
  "atomicBody n clock step ctx r s =
     (case rd_checkpoints (sp_reader step) of
        None \<Rightarrow> apfst Some (finish clock StatusFailed (Some (Message ''reader does not support checkpoints'')) r s)
      | Some reader \<Rightarrow>
          (case aw_Load (sp_atomic step) ctx (sp_key step) s of
             (Inl err, s1) \<Rightarrow> apfst Some (failWith clock err r s1)
           | (Inr None, s1) \<Rightarrow> atomicLoop n clock step ctx reader 0 [] 0 r s1
           | (Inr (Some checkpoint), s1) \<Rightarrow>
               (case cr_Restore reader ctx (vc_Value checkpoint) s1 of
                  (Some err, s2) \<Rightarrow> apfst Some (failWith clock err r s2)
                | (None, s2) \<Rightarrow> atomicLoop n clock step ctx reader (vc_Version checkpoint) [] 0 r s2)))"

definition runAtomic ::
  "nat \<Rightarrow> ('s, int) act \<Rightarrow> ('s, 'i, 'o, 'c) atomicStep \<Rightarrow> 's bctxt \<Rightarrow> ('s, reportData option) act" where
  "runAtomic n clock step ctx s =
     (case newReport clock (sp_name step) s of
        (r, s1) \<Rightarrow>
          (case ctx s1 of
             (Some err, s2) \<Rightarrow> apfst Some (finish clock StatusCancelled (Some err) r s2)
           | (None, s2) \<Rightarrow>
               (case rd_Open (sp_reader step) ctx s2 of
                  (Some err, s3) \<Rightarrow> apfst Some (failWith clock err r s3)
                | (None, s3) \<Rightarrow>
                    (case atomicBody n clock step ctx r s3 of
                       (None, s4) \<Rightarrow> (None, s4)
                     | (Some r1, s4) \<Rightarrow>
                         (case rd_Close (sp_reader step) withoutCancel s4 of
                            (closeErr, s5) \<Rightarrow> apfst Some (closeReport clock closeErr r1 s5))))))"

section \<open>Jobs\<close>

record 's batchJob =
  jb_name :: string
  jb_steps :: "('s bctxt \<Rightarrow> ('s, report) act) list"

definition NewJob :: "string \<Rightarrow> ('s bctxt \<Rightarrow> ('s, report) act) option list \<Rightarrow> batchError + 's batchJob" where
  "NewJob name steps =
     (if name = [] then Inl (Message ''job name must not be empty'')
      else if steps = [] then Inl (Message ''at least one step is required'')
      else if \<exists>p \<in> set steps. isNil p then
        Inl (Message (''step '' @ decimal (length (takeWhile (\<lambda>p. \<not> isNil p) steps)) @ '' must not be nil''))
      else Inr \<lparr>jb_name = name, jb_steps = List.map_filter id steps\<rparr>)"

definition addCounts :: "reportData \<Rightarrow> reportData \<Rightarrow> reportData" where
  "addCounts child r =
     r\<lparr>ReadCount := ReadCount r + ReadCount child, WriteCount := WriteCount r + WriteCount child,
       FilterCount := FilterCount r + FilterCount child, SkipCount := SkipCount r + SkipCount child,
       RetryCount := RetryCount r + RetryCount child\<rparr>"

fun jobLoop ::
  "('s, int) act \<Rightarrow> 's bctxt \<Rightarrow> ('s bctxt \<Rightarrow> ('s, report) act) list \<Rightarrow> report list \<Rightarrow> reportData \<Rightarrow> ('s, report) act" where
  "jobLoop clock ctx [] children r s = apfst (\<lambda>d. Report d children) (finish clock StatusCompleted None r s)"
| "jobLoop clock ctx (step # steps) children r s =
     (case step ctx s of
        (child, s1) \<Rightarrow>
          (let children1 = children @ [child]; r1 = addCounts (rp_Data child) r
           in if \<not> IsSuccess (rp_Data child) then
                (let status = (if 1 < length children1 \<and> rp_Status (rp_Data child) = StatusFailed
                               then StatusPartial else rp_Status (rp_Data child))
                 in apfst (\<lambda>d. Report d children1) (finish clock status (rp_Err (rp_Data child)) r1 s1))
              else jobLoop clock ctx steps children1 r1 s1))"

definition runJob :: "('s, int) act \<Rightarrow> 's batchJob option \<Rightarrow> 's bctxt \<Rightarrow> ('s, report) act" where
  "runJob clock job ctx s =
     (case job of
        None \<Rightarrow>
          (case newReport clock [] s of
             (r, s1) \<Rightarrow> apfst (\<lambda>d. Report d []) (finish clock StatusFailed (Some (Message ''job must not be nil'')) r s1))
      | Some j \<Rightarrow>
          (case newReport clock (jb_name j) s of (r, s1) \<Rightarrow> jobLoop clock ctx (jb_steps j) [] r s1))"

section \<open>Balance of a report\<close>

text \<open>The counters a retry does not touch.\<close>

definition counts :: "reportData \<Rightarrow> int \<times> int \<times> int \<times> int" where
  "counts r = (ReadCount r, WriteCount r, FilterCount r, SkipCount r)"

definition balanced :: "skipPolicy \<Rightarrow> reportData \<Rightarrow> nat \<Rightarrow> bool" where
  "balanced skip r pending \<longleftrightarrow>
     ReadCount r = WriteCount r + FilterCount r + SkipCount r + int pending \<and> SkipCount r \<le> max 0 (sk_MaxSkips skip)"

lemma balanced_counts: "counts r' = counts r \<Longrightarrow> balanced skip r' n \<longleftrightarrow> balanced skip r n"
  by (simp add: counts_def balanced_def)

lemma shouldSkip_room: "shouldSkip skip err used cost \<Longrightarrow> used + cost \<le> max 0 (sk_MaxSkips skip)"
  by (auto simp: shouldSkip_def split: if_splits)

lemma processItem_counts: "processItem step ctx item attempt r s = ((x, r'), s') \<Longrightarrow> counts r' = counts r"
proof (induction step ctx item attempt r s rule: processItem.induct)
  case (1 step ctx item attempt r s)
  then show ?case
    by (subst (asm) (2) processItem.simps)
      (auto simp: counts_def split: prod.splits option.splits sum.splits if_splits)
qed

lemma writeChunk_counts: "writeChunk step ctx chunk attempt r s = ((x, r'), s') \<Longrightarrow> counts r' = counts r"
proof (induction step ctx chunk attempt r s rule: writeChunk.induct)
  case (1 step ctx chunk attempt r s)
  then show ?case
    by (subst (asm) (2) writeChunk.simps)
      (auto simp: counts_def split: prod.splits option.splits sum.splits if_splits)
qed

lemma flush_balanced:
  assumes "flush step ctx chunk r s = ((None, r'), s')" "balanced (sp_skip step) r (length chunk)"
  shows "balanced (sp_skip step) r' 0"
  using assms
  by (auto simp: flush_def balanced_def counts_def dest!: writeChunk_counts dest: shouldSkip_room
      split: if_splits prod.splits option.splits)

lemma finish_fields:
  "finish clock st e r s = (r', s') \<Longrightarrow> counts r' = counts r \<and> rp_Status r' = st \<and> rp_Err r' = e"
  by (auto simp: finish_def counts_def split: prod.splits)

lemma failWith_fields: "failWith clock e r s = (r', s') \<Longrightarrow> rp_Status r' \<noteq> StatusCompleted"
  by (auto simp: failWith_def statusForError_def dest!: finish_fields split: if_splits)

text \<open>A finished run that says it completed has a balanced report and no error.\<close>

definition completes :: "skipPolicy \<Rightarrow> reportData \<Rightarrow> bool" where
  "completes skip r \<longleftrightarrow> (rp_Status r = StatusCompleted \<longrightarrow> balanced skip r 0 \<and> rp_Err r = None)"

lemma completes_finish:
  assumes "apfst Some (finish clock st e r s) = (Some r', s')"
    and "st = StatusCompleted \<Longrightarrow> e = None \<and> balanced skip r 0"
  shows "completes skip r'"
proof -
  have "finish clock st e r s = (r', s')" using assms(1) by (cases "finish clock st e r s") simp
  note f = finish_fields[OF this]
  show ?thesis unfolding completes_def balanced_counts[OF f[THEN conjunct1]] using f assms(2) by simp
qed

lemma completes_fail: "apfst Some (failWith clock e r s) = (Some r', s') \<Longrightarrow> completes skip r'"
  using failWith_fields[of clock e r s r' s'] by (cases "failWith clock e r s") (auto simp: completes_def)

lemma balanced_read: "balanced skip r n \<Longrightarrow> balanced skip (r\<lparr>ReadCount := ReadCount r + 1\<rparr>) (Suc n)"
  by (simp add: balanced_def)

lemma flush_continue:
  assumes "(case flush step ctx chunk r s of
      ((Some err, r2), s2) \<Rightarrow> apfst Some (failWith clock err r2 s2) | ((None, r2), s2) \<Rightarrow> k r2 s2) = (Some r', s')"
    and "balanced (sp_skip step) r (length chunk)"
    and "\<And>r2 s2. balanced (sp_skip step) r2 0 \<Longrightarrow> k r2 s2 = (Some r', s') \<Longrightarrow> completes (sp_skip step) r'"
  shows "completes (sp_skip step) r'"
proof -
  obtain e r2 s2 where f: "flush step ctx chunk r s = ((e, r2), s2)" by (metis surj_pair)
  show ?thesis
  proof (cases e)
    case None
    show ?thesis using assms(3)[OF flush_balanced[OF f[unfolded None] assms(2)]] assms(1) by (simp add: f None)
  qed (use assms(1) f in \<open>simp add: completes_fail\<close>)
qed

lemma save_continue:
  assumes "(case saveCheckpoint step ctx s of
      (Some e, s2) \<Rightarrow> apfst Some (failWith clock e r s2) | (None, s2) \<Rightarrow> k s2) = (Some r', s')"
    and "\<And>s2. k s2 = (Some r', s') \<Longrightarrow> completes skip r'"
  shows "completes skip r'"
proof -
  obtain e s2 where "saveCheckpoint step ctx s = (e, s2)" by (rule prod.exhaust)
  with assms show ?thesis by (cases e) (simp_all add: completes_fail)
qed

lemma item_balanced:
  assumes "balanced skip r n" "processItem step ctx item 1 (r\<lparr>ReadCount := ReadCount r + 1\<rparr>) s = ((x, r1), s')"
  shows "balanced skip r1 (Suc n)" "balanced skip (r1\<lparr>FilterCount := FilterCount r1 + 1\<rparr>) n"
    "shouldSkip skip err (SkipCount r1) 1 \<Longrightarrow> balanced skip (r1\<lparr>SkipCount := SkipCount r1 + 1\<rparr>) n"
proof -
  show b: "balanced skip r1 (Suc n)"
    using balanced_read[OF assms(1)] unfolding balanced_counts[OF processItem_counts[OF assms(2)]] .
  then show "balanced skip (r1\<lparr>FilterCount := FilterCount r1 + 1\<rparr>) n" by (simp add: balanced_def)
  show "balanced skip (r1\<lparr>SkipCount := SkipCount r1 + 1\<rparr>) n" if "shouldSkip skip err (SkipCount r1) 1"
    using b shouldSkip_room[OF that] by (simp add: balanced_def)
qed

lemma stepLoop_completes:
  assumes "balanced (sp_skip step) r (length chunk)" "stepLoop n clock step ctx chunk r s = (Some r', s')"
  shows "completes (sp_skip step) r'"
  using assms
proof (induction n arbitrary: chunk r s)
  case (Suc n)
  obtain e1 s1 where s1: "ctx s = (e1, s1)" by (rule prod.exhaust)
  obtain rd s2 where s2: "rd_Read (sp_reader step) ctx s1 = (rd, s2)" by (rule prod.exhaust)
  note run = Suc.prems(2)[unfolded stepLoop.simps s1 prod.case s2]
  consider e where "e1 = Some e" | e where "e1 = None" "rd = Inl e" | "e1 = None" "rd = Inr None"
    | item where "e1 = None" "rd = Inr (Some item)" by (cases e1; cases rd; cases "projr rd") auto
  then show ?case
  proof cases
    case 1
    with run show ?thesis by simp (erule completes_finish; simp)
  next
    case 2
    with run show ?thesis by (simp add: completes_fail)
  next
    case 3
    with run show ?thesis by simp (erule flush_continue[OF _ Suc.prems(1)]; erule completes_finish; simp)
  next
    case 4
    obtain x r1 s3 where s3: "processItem step ctx item 1 (r\<lparr>ReadCount := ReadCount r + 1\<rparr>) s2 = ((x, r1), s3)"
      by (metis surj_pair)
    note b = item_balanced[OF Suc.prems(1) s3]
    consider err where "x = Inl err" | "x = Inr None" | v where "x = Inr (Some v)" by (cases x; cases "projr x") auto
    then show ?thesis
    proof cases
      case 1
      with run 4 s3 Suc.IH[OF b(3)] show ?thesis
        by (simp add: Let_def split: if_splits) (erule save_continue, blast, simp add: completes_fail)
    next
      case 2
      with run 4 s3 Suc.IH[OF b(2)] show ?thesis by (simp add: Let_def) (erule save_continue, blast)
    next
      case 3
      with run 4 s3 b(1) Suc.IH[of r1 "chunk @ [v]" s3] Suc.IH[of _ "[]"] show ?thesis
        by (simp add: Let_def split: if_splits) (erule flush_continue; simp)
    qed
  qed
qed simp

lemma takeItem_balanced:
  assumes "takeItem step x pending r = (None, pending1, r1)" "balanced (sp_skip step) r (Suc (length pending))"
  shows "balanced (sp_skip step) r1 (length pending1) \<and> length pending1 \<le> Suc (length pending)"
  using assms
  by (auto simp: takeItem_def balanced_def dest: shouldSkip_room split: sum.splits option.splits if_splits)

lemma commit_continue:
  assumes "(case commitAtomic step ctx reader expected pending r s of
      ((Inl err, r2), s2) \<Rightarrow> apfst Some (failWith clock err r2 s2) | ((Inr v, r2), s2) \<Rightarrow> k v r2 s2) = (Some r', s')"
    and "balanced skip r (length pending)"
    and "\<And>v r2 s2. balanced skip r2 0 \<Longrightarrow> k v r2 s2 = (Some r', s') \<Longrightarrow> completes skip r'"
  shows "completes skip r'"
proof -
  obtain e r2 s2 where c: "commitAtomic step ctx reader expected pending r s = ((e, r2), s2)" by (metis surj_pair)
  show ?thesis
  proof (cases e)
    case (Inr v)
    have "balanced skip r2 0" using c assms(2)
      by (auto simp: commitAtomic_def Inr balanced_def split: prod.splits option.splits sum.splits)
    from assms(3)[OF this, of v s2] assms(1) show ?thesis by (simp add: c Inr)
  qed (use assms(1) c in \<open>simp add: completes_fail\<close>)
qed

lemma atomicLoop_completes:
  assumes "balanced (sp_skip step) r (length pending)" "int (length pending) \<le> progress"
    and "atomicLoop n clock step ctx reader expected pending progress r s = (Some r', s')"
  shows "completes (sp_skip step) r'"
  using assms
proof (induction n arbitrary: expected pending progress r s)
  case (Suc n)
  obtain e1 s1 where s1: "ctx s = (e1, s1)" by (rule prod.exhaust)
  obtain rd s2 where s2: "rd_Read (sp_reader step) ctx s1 = (rd, s2)" by (rule prod.exhaust)
  note run = Suc.prems(3)[unfolded atomicLoop.simps s1 prod.case s2]
  consider e where "e1 = Some e" | e where "e1 = None" "rd = Inl e" | "e1 = None" "rd = Inr None"
    | item where "e1 = None" "rd = Inr (Some item)" by (cases e1; cases rd; cases "projr rd") auto
  then show ?case
  proof cases
    case 1
    with run show ?thesis by simp (erule completes_finish; simp)
  next
    case 2
    with run show ?thesis by (simp add: completes_fail)
  next
    case 3
    show ?thesis
    proof (cases "0 < progress")
      case True
      with run 3 show ?thesis by simp (erule commit_continue[OF _ Suc.prems(1)]; erule completes_finish; simp)
    next
      case False
      then have "int (length pending) = 0" using Suc.prems(2) by linarith
      then have "pending = []" by simp
      then have "balanced (sp_skip step) r 0" using Suc.prems(1) by simp
      with run 3 False show ?thesis by simp (erule completes_finish; simp)
    qed
  next
    case 4
    obtain x r1 s3 where s3: "processItem step ctx item 1 (r\<lparr>ReadCount := ReadCount r + 1\<rparr>) s2 = ((x, r1), s3)"
      by (metis surj_pair)
    obtain e p2 r2 where t: "takeItem step x pending r1 = (e, p2, r2)" by (metis surj_pair)
    show ?thesis
    proof (cases e)
      case None
      note b = takeItem_balanced[OF t[unfolded None] item_balanced(1)[OF Suc.prems(1) s3]]
      with run 4 s3 t None Suc.IH[of r2 p2 "progress + 1" expected s3] Suc.IH[of _ "[]" 0] Suc.prems(2) show ?thesis
        by (simp split: if_splits) (erule commit_continue; simp)
    qed (use run 4 s3 t in \<open>simp add: completes_fail\<close>)
  qed
qed simp

lemma closeReport_completes:
  "completes skip r \<Longrightarrow> apfst Some (closeReport clock e r s) = (Some r', s') \<Longrightarrow> completes skip r'"
  by (cases e) (auto simp: closeReport_def completes_def finish_def split: if_splits prod.splits)

lemma newReport_balanced: "newReport clock name s = (r, s') \<Longrightarrow> balanced skip r 0"
  by (auto simp: newReport_def balanced_def split: prod.splits)

lemma stepBody_completes:
  assumes "balanced (sp_skip step) r 0" "stepBody n clock step ctx r s = ((ro, wo, Some r'), s')"
  shows "completes (sp_skip step) r'"
proof -
  have fail: "apfst (\<lambda>x. (a, b, Some x)) (failWith clock e r t) = ((ro, wo, Some r'), s') \<Longrightarrow> completes (sp_skip step) r'"
    for a b e t
    using completes_fail[of clock e r t r' s'] by (cases "failWith clock e r t") auto
  have stop: "apfst (\<lambda>x. (a, b, Some x)) (finish clock StatusCancelled e r t) = ((ro, wo, Some r'), s') \<Longrightarrow>
      completes (sp_skip step) r'" for a b e t
    using completes_finish[of clock StatusCancelled e r t r' s'] by (cases "finish clock StatusCancelled e r t") auto
  have loop: "apfst (\<lambda>x. (a, b, x)) (stepLoop n clock step ctx [] r t) = ((ro, wo, Some r'), s') \<Longrightarrow>
      completes (sp_skip step) r'" for a b t
    using stepLoop_completes[of step r "[]" n clock ctx t r' s'] assms(1) by (cases "stepLoop n clock step ctx [] r t") auto
  show ?thesis using assms(2) unfolding stepBody_def
    by (simp split: prod.splits option.splits) (metis fail stop loop)+
qed

lemma runStep_completes:
  assumes run: "runStep n clock (Some step) ctx s = (Some r, s')"
  shows "completes (sp_skip step) r"
proof -
  obtain r0 s1 where n: "newReport clock (sp_name step) s = (r0, s1)" by (rule prod.exhaust)
  obtain ro wo x s2 where b: "stepBody n clock step ctx r0 s1 = ((ro, wo, x), s2)" by (metis surj_pair)
  with run n obtain r1 where x: "x = Some r1" by (cases x) (auto simp: runStep_def)
  have "completes (sp_skip step) r1" by (rule stepBody_completes[OF newReport_balanced[OF n] b[unfolded x]])
  then show ?thesis using run
    by (auto simp: runStep_def n b x closeResources_def split: prod.splits dest: closeReport_completes)
qed

lemma atomicBody_completes:
  assumes "balanced (sp_skip step) r 0" "atomicBody n clock step ctx r s = (Some r', s')"
  shows "completes (sp_skip step) r'"
proof -
  have loop: "atomicLoop n clock step ctx reader v [] 0 r t = (Some r', s') \<Longrightarrow> completes (sp_skip step) r'" for reader v t
    using atomicLoop_completes[of step r "[]" 0 n clock ctx reader v t r' s'] assms(1) by simp
  have stop: "apfst Some (finish clock StatusFailed e r t) = (Some r', s') \<Longrightarrow> completes (sp_skip step) r'" for e t
    by (erule completes_finish) simp
  show ?thesis using assms(2) unfolding atomicBody_def
    by (simp split: prod.splits option.splits sum.splits) (metis loop stop completes_fail)+
qed

lemma runAtomic_completes:
  assumes run: "runAtomic n clock step ctx s = (Some r, s')"
  shows "completes (sp_skip step) r"
proof -
  obtain r0 s1 where n: "newReport clock (sp_name step) s = (r0, s1)" by (rule prod.exhaust)
  have body: "atomicBody n clock step ctx r0 t = (Some r1, t') \<Longrightarrow> completes (sp_skip step) r1" for t r1 t'
    by (rule atomicBody_completes[OF newReport_balanced[OF n]])
  have stop: "apfst Some (finish clock StatusCancelled e r0 t) = (Some r, s') \<Longrightarrow> completes (sp_skip step) r" for e t
    by (erule completes_finish) simp
  show ?thesis using run unfolding runAtomic_def n
    by (simp split: prod.splits option.splits) (metis body stop completes_fail closeReport_completes)+
qed

end
