(* ===== verification/Batch_Runs.thy ===== *)
theory Batch_Runs
  imports Batch
begin

text \<open>
  Whole runs of batch steps and jobs over concrete collaborators: a reader over a list whose
  checkpoint is its position and may fail once, a writer that keeps its chunks, and a store that
  keeps the last checkpoint. The atomic step is in the theory after this one.
\<close>

section \<open>Jobs\<close>

definition childSum :: "(reportData \<Rightarrow> int) \<Rightarrow> report list \<Rightarrow> int" where
  "childSum f cs = sum_list (map (\<lambda>c. f (rp_Data c)) cs)"

definition sumsUp :: "reportData \<Rightarrow> report list \<Rightarrow> bool" where
  "sumsUp d cs \<longleftrightarrow> ReadCount d = childSum ReadCount cs \<and> WriteCount d = childSum WriteCount cs \<and>
     FilterCount d = childSum FilterCount cs \<and> SkipCount d = childSum SkipCount cs \<and> RetryCount d = childSum RetryCount cs"

lemma sumsUp_snoc: "sumsUp d cs \<Longrightarrow> sumsUp (addCounts (rp_Data c) d) (cs @ [c])"
  by (simp add: sumsUp_def childSum_def addCounts_def)

lemma sumsUp_finish: "finish clock st e d s = (d', s') \<Longrightarrow> sumsUp d cs \<Longrightarrow> sumsUp d' cs"
  by (auto simp: finish_def sumsUp_def split: prod.splits)

definition jobSpec :: "nat \<Rightarrow> reportData \<Rightarrow> report list \<Rightarrow> bool" where
  "jobSpec n d cs \<longleftrightarrow> sumsUp d cs \<and> length cs \<le> n \<and> (\<forall>c \<in> set (butlast cs). IsSuccess (rp_Data c)) \<and>
     (if IsSuccess d then length cs = n \<and> (\<forall>c \<in> set cs. IsSuccess (rp_Data c)) \<and> rp_Err d = None
      else cs \<noteq> [] \<and> \<not> IsSuccess (rp_Data (last cs)) \<and> rp_Err d = rp_Err (rp_Data (last cs)) \<and>
        rp_Status d = (if 1 < length cs \<and> rp_Status (rp_Data (last cs)) = StatusFailed then StatusPartial
                       else rp_Status (rp_Data (last cs))))"

lemma jobLoop_spec:
  assumes "sumsUp r cs" "\<forall>c \<in> set cs. IsSuccess (rp_Data c)" "jobLoop clock ctx steps cs r s = (Report d cs', s')"
  shows "jobSpec (length cs + length steps) d cs'"
  using assms
proof (induction steps arbitrary: cs r s)
  case Nil
  then obtain "cs' = cs" "finish clock StatusCompleted None r s = (d, s')"
    by (cases "finish clock StatusCompleted None r s") auto
  then show ?case using Nil.prems sumsUp_finish[of clock StatusCompleted None r s d s' cs] finish_fields[of clock _ _ r s d s']
    by (auto simp: jobSpec_def IsSuccess_def dest: in_set_butlastD)
next
  case (Cons step steps)
  obtain c s1 where c: "step ctx s = (c, s1)" by (rule prod.exhaust)
  show ?case
  proof (cases "IsSuccess (rp_Data c)")
    case True
    then show ?thesis using Cons.prems Cons.IH[OF sumsUp_snoc[OF Cons.prems(1)], of c s1] by (simp add: c Let_def)
  next
    case False
    let ?st = "if 1 < length (cs @ [c]) \<and> rp_Status (rp_Data c) = StatusFailed then StatusPartial else rp_Status (rp_Data c)"
    obtain f: "finish clock ?st (rp_Err (rp_Data c)) (addCounts (rp_Data c) r) s1 = (d, s')" and cs': "cs' = cs @ [c]"
      using Cons.prems(3) False
      by (cases "finish clock ?st (rp_Err (rp_Data c)) (addCounts (rp_Data c) r) s1") (auto simp: c Let_def)
    show ?thesis using sumsUp_finish[OF f sumsUp_snoc[OF Cons.prems(1)]] finish_fields[OF f] False Cons.prems(2)
      by (auto simp: jobSpec_def cs' IsSuccess_def split: if_splits)
  qed
qed

text \<open>
  A job runs its steps in order and stops at the first that does not complete: the counters
  of its report are the sums over the children, all children but the last completed, the job
  completed exactly when all its steps ran and completed, and otherwise it carries the error of
  the last child and its status, partial instead of failed when an earlier step completed.
\<close>

theorem job_report:
  assumes run: "runJob clock (Some job) ctx s = (Report d cs, s')"
  shows "jobSpec (length (jb_steps job)) d cs"
proof -
  obtain r s1 where n: "newReport clock (jb_name job) s = (r, s1)" by (rule prod.exhaust)
  have "sumsUp r []" using n by (auto simp: newReport_def sumsUp_def childSum_def split: prod.splits)
  then show ?thesis using jobLoop_spec[of r "[]" clock ctx "jb_steps job" s1 d cs s'] run by (simp add: runJob_def n)
qed

definition fixedStep :: "batchStatus \<Rightarrow> nat bctxt \<Rightarrow> nat \<Rightarrow> report \<times> nat" where
  "fixedStep st ctx s = (Report \<lparr>rp_Name = ''s'', rp_Status = st, rp_StartedAt = 0, rp_EndedAt = 0, ReadCount = 2,
     WriteCount = 1, FilterCount = 1, SkipCount = 0, RetryCount = 0, rp_Err = None\<rparr> [], s + 1)"

theorem job_report_witness:
  "\<exists>d cs. runJob (Pair 0) (Some \<lparr>jb_name = ''j'', jb_steps = [fixedStep StatusCompleted, fixedStep StatusFailed]\<rparr>)
     withoutCancel 0 = (Report d cs, 2) \<and> rp_Status d = StatusPartial \<and> jobSpec 2 d cs"
proof -
  let ?j = "\<lparr>jb_name = ''j'', jb_steps = [fixedStep StatusCompleted, fixedStep StatusFailed]\<rparr>"
  obtain d cs s' where run: "runJob (Pair 0) (Some ?j) withoutCancel 0 = (Report d cs, s')"
    by (metis report.exhaust surj_pair)
  have "rp_Status d = StatusPartial \<and> s' = 2" using run
    by (auto simp: runJob_def newReport_def fixedStep_def IsSuccess_def finish_def Let_def addCounts_def)
  with job_report[OF run] run show ?thesis by (auto simp: numeral_2_eq_2)
qed

section \<open>A bench for plain steps\<close>

record 'o bench =
  b_pos :: nat
  b_chunks :: "'o list list"
  b_saved :: "nat option"
  b_fail :: "nat option"

text \<open>Reading at the position \<open>b_fail\<close> fails once.\<close>

definition listReader :: "'i list \<Rightarrow> ('o bench, 'i, nat) reader" where
  "listReader items =
     \<lparr>rd_Open = (\<lambda>ctx b. (None, b\<lparr>b_pos := 0\<rparr>)),
      rd_Read = (\<lambda>ctx b.
        if b_fail b = Some (b_pos b) then (Inl (Message ''read failed''), b\<lparr>b_fail := None\<rparr>)
        else if b_pos b < length items then (Inr (Some (items ! b_pos b)), b\<lparr>b_pos := b_pos b + 1\<rparr>)
        else (Inr None, b)),
      rd_Close = (\<lambda>ctx b. (None, b)),
      rd_checkpoints = Some \<lparr>cr_Restore = (\<lambda>ctx c b. (None, b\<lparr>b_pos := c\<rparr>)),
        cr_Checkpoint = (\<lambda>ctx b. (Inr (Some (b_pos b)), b))\<rparr>\<rparr>"

definition chunkWriter :: "('o bench, 'o) batchWriter" where
  "chunkWriter =
     \<lparr>wr_Open = (\<lambda>ctx b. (None, b)), wr_Write = (\<lambda>ctx chunk b. (None, b\<lparr>b_chunks := b_chunks b @ [chunk]\<rparr>)),
      wr_Close = (\<lambda>ctx b. (None, b))\<rparr>"

definition benchStore :: "('o bench, nat) checkpointStore" where
  "benchStore = \<lparr>st_Load = (\<lambda>ctx key b. (Inr (b_saved b), b)), st_Save = (\<lambda>ctx key c b. (None, b\<lparr>b_saved := Some c\<rparr>))\<rparr>"

definition pureProcessor :: "('i \<Rightarrow> batchError + 'o option) \<Rightarrow> ('s, 'i, 'o) processor" where
  "pureProcessor f ctx item s = (f item, s)"

definition benchStep ::
  "int \<Rightarrow> 'i list \<Rightarrow> ('i \<Rightarrow> batchError + 'o option) \<Rightarrow> ('o bench, nat) checkpointStore option \<Rightarrow> ('o bench, 'i, 'o, nat) plainStep" where
  "benchStep chunkSize items f store =
     \<lparr>sp_name = ''step'', sp_chunkSize = chunkSize, sp_reader = listReader items, sp_processor = pureProcessor f,
      sp_retry = \<lparr>rp_MaxAttempts = 1, rp_RetryIf = None\<rparr>, sp_skip = \<lparr>sk_MaxSkips = 0, sk_SkipIf = None\<rparr>,
      sp_key = ''step'', sp_writer = chunkWriter, sp_store = store\<rparr>"

lemmas bench_defs = benchStep_def listReader_def chunkWriter_def benchStore_def pureProcessor_def withoutCancel_def

lemma bench_fields [simp]:
  "sp_name (benchStep k items f st) = ''step''" "sp_chunkSize (benchStep k items f st) = k"
  "sp_reader (benchStep k items f st) = listReader items" "sp_writer (benchStep k items f st) = chunkWriter"
  "sp_store (benchStep k items f st) = st" "sp_key (benchStep k items f st) = ''step''"
  "sp_skip (benchStep k items f st) = \<lparr>sk_MaxSkips = 0, sk_SkipIf = None\<rparr>"
  by (simp_all add: benchStep_def)

lemma bench_calls [simp]:
  "rd_Open (listReader items) ctx b = (None, b\<lparr>b_pos := 0\<rparr>)" "rd_Close (listReader items) ctx b = (None, b)"
  "wr_Open chunkWriter ctx b = (None, b)" "wr_Close chunkWriter ctx b = (None, b)"
  "rd_Read (listReader items) ctx b =
     (if b_fail b = Some (b_pos b) then (Inl (Message ''read failed''), b\<lparr>b_fail := None\<rparr>)
      else if b_pos b < length items then (Inr (Some (items ! b_pos b)), b\<lparr>b_pos := b_pos b + 1\<rparr>)
      else (Inr None, b))"
  by (simp_all add: listReader_def chunkWriter_def)

lemma bench_restore [simp]:
  "restoreCheckpoint (benchStep k items f (Some benchStore)) ctx b =
     (None, case b_saved b of None \<Rightarrow> b | Some c \<Rightarrow> b\<lparr>b_pos := c\<rparr>)"
  "restoreCheckpoint (benchStep k items f None) ctx b = (None, b)"
  by (simp_all add: restoreCheckpoint_def listReader_def benchStore_def split: option.splits)

lemma bench_process:
  "f item = Inr v \<Longrightarrow> processItem (benchStep k items f st) withoutCancel item a r b = ((Inr v, r), b)"
  by (subst processItem.simps) (simp add: bench_defs)

lemma bench_write:
  "writeChunk (benchStep k items f st) withoutCancel chunk a r b = ((None, r), b\<lparr>b_chunks := b_chunks b @ [chunk]\<rparr>)"
  by (subst writeChunk.simps) (simp add: bench_defs)

lemma bench_save:
  "saveCheckpoint (benchStep k items f (Some benchStore)) withoutCancel b = (None, b\<lparr>b_saved := Some (b_pos b)\<rparr>)"
  "saveCheckpoint (benchStep k items f None) withoutCancel b = (None, b)"
  by (simp_all add: saveCheckpoint_def bench_defs)

text \<open>
  C39. A checkpointed step can lose an item it accepted. When a filtered item follows a kept one in
  the same chunk, the checkpoint moves past both although the kept item is not written yet; if the
  next read fails, the step run again restores that checkpoint and completes without ever writing
  the kept item.
\<close>

theorem checkpoint_skips_unwritten:
  assumes kept: "f a = Inr (Some v)" and filtered: "f b = Inr None" and chunk: "1 < k"
    and step: "step = benchStep k [a, b] f (Some benchStore)"
    and start: "s0 = \<lparr>b_pos = 0, b_chunks = [], b_saved = None, b_fail = Some 2\<rparr>"
  shows "\<exists>r1 s1 r2 s2. runStep (3 + n) (Pair 0) (Some step) withoutCancel s0 = (Some r1, s1) \<and>
    rp_Status r1 = StatusFailed \<and> b_saved s1 = Some 2 \<and>
    runStep (3 + n) (Pair 0) (Some step) withoutCancel s1 = (Some r2, s2) \<and> IsSuccess r2 \<and> b_chunks s2 = []"
proof -
  have n: "3 + n = Suc (Suc (Suc n))" by simp
  have st: "statusForError (Message m) = StatusFailed" for m
    by (simp add: statusForError_def isBatchContextError_def)
  note run = runStep_def newReport_def stepBody_def step withoutCancel_def closeResources_def closeReport_def
    finish_def failWith_def st joinErrors_def List.map_filter_def flush_def
  note calls = bench_process[of f a, OF kept] bench_process[of f b, OF filtered] bench_save
  obtain r1 where one: "runStep (3 + n) (Pair 0) (Some step) withoutCancel s0 =
      (Some r1, \<lparr>b_pos = 2, b_chunks = [], b_saved = Some 2, b_fail = None\<rparr>)" "rp_Status r1 = StatusFailed"
    unfolding n start using chunk by (simp add: run calls Let_def)
  have "\<exists>r2 s2. runStep (3 + n) (Pair 0) (Some step) withoutCancel
      \<lparr>b_pos = 2, b_chunks = [], b_saved = Some 2, b_fail = None\<rparr> = (Some r2, s2) \<and> IsSuccess r2 \<and> b_chunks s2 = []"
    unfolding n using chunk by (simp add: run calls Let_def IsSuccess_def)
  with one show ?thesis by auto
qed

theorem checkpoint_skips_unwritten_witness:
  "let f = (\<lambda>i. Inr (if i = 1 then Some i else None)) :: nat \<Rightarrow> batchError + nat option;
       step = benchStep 10 [1, 2] f (Some benchStore)
   in \<exists>r1 s1 r2 s2. runStep 3 (Pair 0) (Some step) withoutCancel
         \<lparr>b_pos = 0, b_chunks = [], b_saved = None, b_fail = Some 2\<rparr> = (Some r1, s1) \<and>
       runStep 3 (Pair 0) (Some step) withoutCancel s1 = (Some r2, s2) \<and> IsSuccess r2 \<and> b_chunks s2 = []"
  using checkpoint_skips_unwritten[of "\<lambda>i :: nat. Inr (if i = 1 then Some i else None)" 1 1 2 10 _ _ 0, OF _ _ _ refl refl]
  unfolding Let_def by (simp add: One_nat_def[symmetric] del: One_nat_def) blast

section \<open>Chunks of a run\<close>

definition keptOf :: "('i \<Rightarrow> 'o option) \<Rightarrow> 'i list \<Rightarrow> 'o list" where
  "keptOf g items = List.map_filter g items"

lemma keptOf_Cons: "keptOf g (x # xs) = (case g x of None \<Rightarrow> keptOf g xs | Some v \<Rightarrow> v # keptOf g xs)"
  by (simp add: keptOf_def List.map_filter_simps split: option.splits)

lemma keptOf_Nil [simp]: "keptOf g [] = []"
  by (simp add: keptOf_def List.map_filter_simps)

lemma keptOf_append: "keptOf g (xs @ ys) = keptOf g xs @ keptOf g ys"
  by (induction xs) (simp_all add: keptOf_Cons split: option.splits)

text \<open>With or without a checkpoint store, a save only touches the saved checkpoint.\<close>

lemma bench_save_any:
  "st \<in> {None, Some benchStore} \<Longrightarrow>
     \<exists>sv. saveCheckpoint (benchStep k items f st) withoutCancel b = (None, b\<lparr>b_saved := sv\<rparr>)"
  by (auto simp: bench_save intro: exI[of _ "b_saved b"])

lemma bench_flush:
  assumes "st \<in> {None, Some benchStore}" "chunk \<noteq> []"
  shows "\<exists>sv. flush (benchStep k items f st) withoutCancel chunk r b =
     ((None, r\<lparr>WriteCount := WriteCount r + int (length chunk)\<rparr>), b\<lparr>b_chunks := b_chunks b @ [chunk], b_saved := sv\<rparr>)"
proof -
  obtain sv where "saveCheckpoint (benchStep k items f st) withoutCancel (b\<lparr>b_chunks := b_chunks b @ [chunk]\<rparr>) =
      (None, b\<lparr>b_chunks := b_chunks b @ [chunk], b_saved := sv\<rparr>)"
    using bench_save_any[OF assms(1)] by metis
  then show ?thesis using assms(2) by (auto simp: flush_def bench_write withoutCancel_def)
qed

definition totals :: "reportData \<Rightarrow> int \<Rightarrow> int \<Rightarrow> int \<Rightarrow> reportData \<Rightarrow> bool" where
  "totals r nr nw nf r' \<longleftrightarrow> rp_Status r' = StatusCompleted \<and> ReadCount r' = ReadCount r + nr \<and>
     WriteCount r' = WriteCount r + nw \<and> FilterCount r' = FilterCount r + nf \<and> SkipCount r' = SkipCount r \<and> rp_Err r' = None"

lemma bench_end:
  assumes st: "st \<in> {None, Some benchStore}" and k: "int (length chunk) < k"
    and b: "b_fail b = None" "length items \<le> b_pos b"
  shows "\<exists>r' b'. stepLoop (Suc n) (Pair 0) (benchStep k items f st) withoutCancel chunk r b = (Some r', b') \<and>
    b_chunks b' = b_chunks b @ pieces (nat k) chunk \<and> totals r 0 (int (length chunk)) 0 r'"
proof (cases "chunk = []")
  case True
  then show ?thesis using b by (simp add: withoutCancel_def flush_def finish_def totals_def)
next
  case False
  obtain sv where f: "flush (benchStep k items f st) withoutCancel chunk r b =
     ((None, r\<lparr>WriteCount := WriteCount r + int (length chunk)\<rparr>), b\<lparr>b_chunks := b_chunks b @ [chunk], b_saved := sv\<rparr>)"
    using bench_flush[OF st False] by blast
  have "pieces (nat k) chunk = [chunk]" using False k by (simp add: pieces_step[of "nat k" chunk])
  then show ?thesis using b f by (simp add: withoutCancel_def finish_def totals_def)
qed

lemma totals_item:
  "totals (r\<lparr>ReadCount := ReadCount r + 1, FilterCount := FilterCount r + 1\<rparr>) a w c r' \<Longrightarrow> totals r (a + 1) w (c + 1) r'"
  "totals (r\<lparr>ReadCount := ReadCount r + 1\<rparr>) a w c r' \<Longrightarrow> totals r (a + 1) w c r'"
  by (simp_all add: totals_def)

lemma pieces_append_full: "0 < k \<Longrightarrow> length xs = k \<Longrightarrow> pieces k (xs @ ys) = xs # pieces k ys"
  by (subst pieces_step) auto

lemma length_keptOf: "length (keptOf g xs) \<le> length xs"
  by (induction xs) (auto simp: keptOf_Cons split: option.splits)

lemma drop_Cons_nth: "x # xs = drop n ys \<Longrightarrow> n < length ys \<and> ys ! n = x \<and> xs = drop (Suc n) ys"
  by (metis Cons_nth_drop_Suc drop_all leI list.inject list.distinct(1))

text \<open>One iteration on an item of the reader: filtered, kept, or kept and filling the chunk.\<close>

lemma bench_iteration:
  assumes st: "st \<in> {None, Some benchStore}" and f: "f i = Inr y"
    and b: "b_fail b = None" "b_pos b < length items" "items ! b_pos b = i"
  shows "case y of
      None \<Rightarrow> \<exists>sv. stepLoop (Suc m) (Pair 0) (benchStep k items f st) withoutCancel chunk r b =
        stepLoop m (Pair 0) (benchStep k items f st) withoutCancel chunk
          (r\<lparr>ReadCount := ReadCount r + 1, FilterCount := FilterCount r + 1\<rparr>) (b\<lparr>b_pos := Suc (b_pos b), b_saved := sv\<rparr>)
    | Some v \<Rightarrow> if int (length (chunk @ [v])) = k then
          \<exists>sv. stepLoop (Suc m) (Pair 0) (benchStep k items f st) withoutCancel chunk r b =
            stepLoop m (Pair 0) (benchStep k items f st) withoutCancel []
              (r\<lparr>ReadCount := ReadCount r + 1, WriteCount := WriteCount r + int (length (chunk @ [v]))\<rparr>)
              (b\<lparr>b_pos := Suc (b_pos b), b_chunks := b_chunks b @ [chunk @ [v]], b_saved := sv\<rparr>)
        else stepLoop (Suc m) (Pair 0) (benchStep k items f st) withoutCancel chunk r b =
            stepLoop m (Pair 0) (benchStep k items f st) withoutCancel (chunk @ [v])
              (r\<lparr>ReadCount := ReadCount r + 1\<rparr>) (b\<lparr>b_pos := Suc (b_pos b)\<rparr>)"
proof -
  let ?b = "b\<lparr>b_pos := Suc (b_pos b)\<rparr>" and ?r = "r\<lparr>ReadCount := ReadCount r + 1\<rparr>"
  obtain sv where sv: "saveCheckpoint (benchStep k items f st) withoutCancel ?b = (None, ?b\<lparr>b_saved := sv\<rparr>)"
    using bench_save_any[OF st] by blast
  have fl: "\<exists>sv. flush (benchStep k items f st) withoutCancel (chunk @ [v]) ?r ?b =
      ((None, ?r\<lparr>WriteCount := WriteCount r + int (length (chunk @ [v]))\<rparr>),
       ?b\<lparr>b_chunks := b_chunks b @ [chunk @ [v]], b_saved := sv\<rparr>)" for v
    using bench_flush[OF st, of "chunk @ [v]" k items f ?r ?b] by simp
  note defs = withoutCancel_def b bench_process[of f i, OF f] Let_def
  show ?thesis
  proof (cases y)
    case None
    then show ?thesis using sv by (simp add: defs) (rule exI[of _ sv], rule refl)
  next
    case (Some v)
    then show ?thesis using fl[of v] by (auto simp: defs)
  qed
qed

lemma bench_loop:
  assumes st: "st \<in> {None, Some benchStore}" and f: "\<And>i. f i = Inr (g i)"
  shows "rest = drop (b_pos b) items \<Longrightarrow> b_fail b = None \<Longrightarrow> int (length chunk) < k \<Longrightarrow>
    \<exists>r' b'. stepLoop (Suc (length rest + n)) (Pair 0) (benchStep k items f st) withoutCancel chunk r b = (Some r', b') \<and>
      b_chunks b' = b_chunks b @ pieces (nat k) (chunk @ keptOf g rest) \<and>
      totals r (int (length rest)) (int (length (chunk @ keptOf g rest))) (int (length rest - length (keptOf g rest))) r'"
proof (induction rest arbitrary: b chunk r)
  case Nil
  then show ?case using bench_end[OF st Nil.prems(3,2)] by simp
next
  case (Cons i rest)
  have pos: "b_pos b < length items" "items ! b_pos b = i" "rest = drop (Suc (b_pos b)) items"
    using drop_Cons_nth[OF Cons.prems(1)] by simp_all
  note it = bench_iteration[of st f i, OF st f Cons.prems(2) pos(1,2), of "Suc (length rest + n)" k chunk r]
  note len = length_keptOf[of g rest]
  have fuel: "Suc (length (i # rest) + n) = Suc (Suc (length rest + n))" by simp
  show ?case
  proof (cases "g i")
    case None
    from it[unfolded None option.case]
    obtain sv where one: "stepLoop (Suc (Suc (length rest + n))) (Pair 0) (benchStep k items f st) withoutCancel chunk r b =
        stepLoop (Suc (length rest + n)) (Pair 0) (benchStep k items f st) withoutCancel chunk
          (r\<lparr>ReadCount := ReadCount r + 1, FilterCount := FilterCount r + 1\<rparr>) (b\<lparr>b_pos := Suc (b_pos b), b_saved := sv\<rparr>)"
      by blast
    have diff: "int (length (i # rest) - length (keptOf g (i # rest))) = int (length rest - length (keptOf g rest)) + 1"
      using len by (simp add: keptOf_Cons None of_nat_diff)
    show ?thesis unfolding fuel one diff
      using Cons.IH[of "b\<lparr>b_pos := Suc (b_pos b), b_saved := sv\<rparr>" chunk
          "r\<lparr>ReadCount := ReadCount r + 1, FilterCount := FilterCount r + 1\<rparr>"] Cons.prems(2,3) pos(3)
      by (auto simp: keptOf_Cons None add.commute[of 1] simp del: stepLoop.simps dest: totals_item(1))
  next
    case (Some v)
    show ?thesis
    proof (cases "int (length (chunk @ [v])) = k")
      case True
      from it[unfolded Some option.case if_P[OF True]]
      obtain sv where one: "stepLoop (Suc (Suc (length rest + n))) (Pair 0) (benchStep k items f st) withoutCancel chunk r b =
          stepLoop (Suc (length rest + n)) (Pair 0) (benchStep k items f st) withoutCancel []
            (r\<lparr>ReadCount := ReadCount r + 1, WriteCount := WriteCount r + int (length (chunk @ [v]))\<rparr>)
            (b\<lparr>b_pos := Suc (b_pos b), b_chunks := b_chunks b @ [chunk @ [v]], b_saved := sv\<rparr>)"
        by blast
      have full: "pieces (nat k) (chunk @ keptOf g (i # rest)) = (chunk @ [v]) # pieces (nat k) (keptOf g rest)"
        using pieces_append_full[of "nat k" "chunk @ [v]" "keptOf g rest"] True by (simp add: keptOf_Cons Some)
      have lens: "int (length (chunk @ keptOf g (i # rest))) = int (length (keptOf g rest)) + int (length (chunk @ [v]))"
        by (simp add: keptOf_Cons Some)
      show ?thesis unfolding fuel one full lens
        using Cons.IH[of "b\<lparr>b_pos := Suc (b_pos b), b_chunks := b_chunks b @ [chunk @ [v]], b_saved := sv\<rparr>" "[]"
            "r\<lparr>ReadCount := ReadCount r + 1, WriteCount := WriteCount r + int (length (chunk @ [v]))\<rparr>"] Cons.prems(2) True pos(3)
        by (auto simp: keptOf_Cons Some add.commute[of 1] totals_def simp del: stepLoop.simps length_append)
    next
      case False
      then have lt: "int (length (chunk @ [v])) < k" using Cons.prems(3) by simp
      have one: "stepLoop (Suc (Suc (length rest + n))) (Pair 0) (benchStep k items f st) withoutCancel chunk r b =
          stepLoop (Suc (length rest + n)) (Pair 0) (benchStep k items f st) withoutCancel (chunk @ [v])
            (r\<lparr>ReadCount := ReadCount r + 1\<rparr>) (b\<lparr>b_pos := Suc (b_pos b)\<rparr>)"
        by (rule it[unfolded Some option.case if_not_P[OF False]])
      show ?thesis unfolding fuel one
        using Cons.IH[of "b\<lparr>b_pos := Suc (b_pos b)\<rparr>" "chunk @ [v]" "r\<lparr>ReadCount := ReadCount r + 1\<rparr>"] Cons.prems(2) lt pos(3)
        by (auto simp: keptOf_Cons Some add.commute[of 1] simp del: stepLoop.simps dest: totals_item(2))
    qed
  qed
qed

text \<open>
  C11. With a reader, a processor and a writer that do not fail, no cancellation and no saved
  checkpoint, a step over a finite reader returns, and writes exactly the kept items, in order, in
  chunks of the chunk size with a shorter one only at the end, with a checkpoint store that does not
  fail or without one; its report counts the items read, written and filtered.
\<close>

theorem step_writes_chunks:
  assumes st: "st \<in> {None, Some benchStore}" and f: "\<And>i. f i = Inr (g i)" and k: "0 < k"
    and b: "b_fail b = None" "b_saved b = None"
  shows "\<exists>r b'. runStep (Suc (length items + n)) (Pair 0) (Some (benchStep k items f st)) withoutCancel b = (Some r, b') \<and>
    b_chunks b' = b_chunks b @ pieces (nat k) (keptOf g items) \<and> IsSuccess r \<and> ReadCount r = int (length items) \<and>
    WriteCount r = int (length (keptOf g items)) \<and> FilterCount r = int (length items - length (keptOf g items))"
proof -
  let ?p = "benchStep k items f st" and ?b = "b\<lparr>b_pos := 0\<rparr>"
  obtain r0 where r0: "newReport (Pair 0) ''step'' b = (r0, b)" "ReadCount r0 = 0" "WriteCount r0 = 0" "FilterCount r0 = 0"
    by (simp add: newReport_def)
  have restore: "restoreCheckpoint ?p withoutCancel ?b = (None, ?b)" using st b by auto
  obtain r b' where loop: "stepLoop (Suc (length items + n)) (Pair 0) ?p withoutCancel [] r0 ?b = (Some r, b')"
    "b_chunks b' = b_chunks b @ pieces (nat k) (keptOf g items)"
    "totals r0 (int (length items)) (int (length (keptOf g items))) (int (length items - length (keptOf g items))) r"
    using bench_loop[where f = f and g = g, OF st f, where rest = items and b = ?b and items = items and chunk = "[]" and r = r0 and n = n and k = k] k b
    by (auto simp del: stepLoop.simps)
  have "runStep (Suc (length items + n)) (Pair 0) (Some ?p) withoutCancel b = (Some r, b')"
    by (simp add: runStep_def r0(1) stepBody_def withoutCancel_def restore loop(1) closeResources_def joinErrors_def
        List.map_filter_def closeReport_def del: stepLoop.simps)
  then show ?thesis using loop(2,3) r0(2-4) by (auto simp: totals_def IsSuccess_def simp del: stepLoop.simps)
qed

theorem step_writes_chunks_witness:
  "\<exists>r b'. runStep 6 (Pair 0) (Some (benchStep 2 [1, 2, 3, 4, 5] (\<lambda>i. Inr (if i = 2 then None else Some i)) None)) withoutCancel
     \<lparr>b_pos = 0, b_chunks = [], b_saved = None, b_fail = None\<rparr> = (Some r, b') \<and>
     b_chunks b' = [[1 :: nat, 3], [4, 5]] \<and> FilterCount r = 1"
proof -
  have "pieces (nat 2) (keptOf (\<lambda>i. if i = 2 then None else Some i) [1 :: nat, 2, 3, 4, 5]) = [[1, 3], [4, 5]]"
    by (simp add: keptOf_Cons pieces.simps[of _ "[_, _, _, _]"] pieces.simps[of _ "[_, _]"])
  moreover have "length (keptOf (\<lambda>i. if i = 2 then None else Some i) [1 :: nat, 2, 3, 4, 5]) = 4" by (simp add: keptOf_Cons)
  moreover have six: "6 = Suc (length [1 :: nat, 2, 3, 4, 5] + 0)" by simp
  ultimately show ?thesis unfolding six
    using step_writes_chunks[of None "\<lambda>i :: nat. Inr (if i = 2 then None else Some i)" "\<lambda>i. if i = 2 then None else Some i" 2
        "\<lparr>b_pos = 0, b_chunks = [], b_saved = None, b_fail = None\<rparr>" "[1, 2, 3, 4, 5]" 0]
    by (simp del: One_nat_def) blast
qed

section \<open>Balance of a report\<close>

text \<open>
  C14. A step that reports success accounts for every item: the items read are those written,
  filtered and skipped, no more are skipped than the policy allows, and the report carries no
  error. This holds for plain and atomic steps whatever the reader, processor, writer and stores do.
\<close>

theorem report_balanced:
  "(runStep n clock (Some step) ctx s = (Some r, s') \<and> IsSuccess r \<longrightarrow>
      ReadCount r = WriteCount r + FilterCount r + SkipCount r \<and>
      SkipCount r \<le> max 0 (sk_MaxSkips (sp_skip step)) \<and> rp_Err r = None) \<and>
   (runAtomic n clock atomic ctx s = (Some r, s') \<and> IsSuccess r \<longrightarrow>
      ReadCount r = WriteCount r + FilterCount r + SkipCount r \<and>
      SkipCount r \<le> max 0 (sk_MaxSkips (sp_skip atomic)) \<and> rp_Err r = None)"
  using runStep_completes[of n clock step ctx s r s'] runAtomic_completes[of n clock atomic ctx s r s']
  by (auto simp: completes_def balanced_def IsSuccess_def)

theorem report_balanced_witness:
  "\<exists>r b'. runStep 3 (Pair 0) (Some (benchStep 2 [5 :: nat, 7] (\<lambda>i. Inr (Some i)) None)) withoutCancel
     \<lparr>b_pos = 0, b_chunks = [], b_saved = None, b_fail = None\<rparr> = (Some r, b') \<and> IsSuccess r \<and>
     ReadCount r = WriteCount r + FilterCount r + SkipCount r"
proof -
  let ?p = "benchStep 2 [5 :: nat, 7] (\<lambda>i. Inr (Some i)) None"
  let ?b = "\<lparr>b_pos = 0, b_chunks = [], b_saved = None, b_fail = None\<rparr>"
  have item: "processItem ?p withoutCancel i a r b = ((Inr (Some i), r), b)" for i a r b
    by (rule bench_process[of "\<lambda>i. Inr (Some i)" i]) simp
  have n: "3 = Suc (Suc (Suc 0))" by simp
  obtain r b' where run: "runStep 3 (Pair 0) (Some ?p) withoutCancel ?b = (Some r, b')" "IsSuccess r"
    unfolding n by (simp add: runStep_def newReport_def stepBody_def withoutCancel_def item Let_def flush_def bench_write
        bench_save finish_def closeResources_def joinErrors_def List.map_filter_def closeReport_def IsSuccess_def)
  with report_balanced[THEN conjunct1, rule_format, OF conjI[OF run]] show ?thesis by blast
qed

end
