(* ===== verification/Batch_Atomic.thy ===== *)
theory Batch_Atomic
  imports Batch_Runs
begin

text \<open>
  The atomic step over a ledger that commits outputs and reader position together. Every call of
  the step to its reader, processor and writer may fail, as an environment decides, and so may the
  context. Whatever fails, the outputs are those of the items before the committed position, less
  the skipped ones, and a run that reports success has committed all of them exactly once.
\<close>

section \<open>The ledger\<close>

text \<open>\<open>lg_env\<close> is the environment that decides about failures and cancellation.\<close>

record ('o, 'w) ledger =
  lg_pos :: nat
  lg_committed :: "(nat \<times> uint64) option"
  lg_out :: "'o list"
  lg_env :: 'w

text \<open>Whether a call fails, for each method the step calls.\<close>

record ('i, 'w) faults =
  ft_Open :: "('w, batchError option) act"
  ft_Read :: "('w, batchError option) act"
  ft_Close :: "('w, batchError option) act"
  ft_Restore :: "('w, batchError option) act"
  ft_Checkpoint :: "('w, batchError option) act"
  ft_Process :: "'i \<Rightarrow> ('w, batchError option) act"
  ft_Load :: "('w, batchError option) act"
  ft_Commit :: "('w, batchError option) act"

definition inEnv :: "('w, 'a) act \<Rightarrow> (('o, 'w) ledger, 'a) act" where
  "inEnv a l = (case a (lg_env l) of (x, w) \<Rightarrow> (x, l\<lparr>lg_env := w\<rparr>))"

text \<open>A call that fails with the error of the environment, or gives a value and a new ledger.\<close>

definition orElse ::
  "('w, batchError option) act \<Rightarrow> (('o, 'w) ledger, 'a) act \<Rightarrow> (('o, 'w) ledger, batchError + 'a) act" where
  "orElse fault k l = (case inEnv fault l of (Some e, l1) \<Rightarrow> (Inl e, l1) | (None, l1) \<Rightarrow> apfst Inr (k l1))"

definition orNil ::
  "('w, batchError option) act \<Rightarrow> (('o, 'w) ledger \<Rightarrow> ('o, 'w) ledger) \<Rightarrow> (('o, 'w) ledger, batchError option) act" where
  "orNil fault k l = (case inEnv fault l of (Some e, l1) \<Rightarrow> (Some e, l1) | (None, l1) \<Rightarrow> (None, k l1))"

definition position :: "('o, 'w) ledger \<Rightarrow> nat" where
  "position l = (case lg_committed l of None \<Rightarrow> 0 | Some (c, v) \<Rightarrow> c)"

definition revision :: "('o, 'w) ledger \<Rightarrow> uint64" where
  "revision l = (case lg_committed l of None \<Rightarrow> 0 | Some (c, v) \<Rightarrow> v)"

definition ledgerCheckpoints :: "('i, 'w) faults \<Rightarrow> (('o, 'w) ledger, nat) checkpointReader" where
  "ledgerCheckpoints ft =
     \<lparr>cr_Restore = (\<lambda>ctx c. orNil (ft_Restore ft) (lg_pos_update (\<lambda>_. c))),
      cr_Checkpoint = (\<lambda>ctx. orElse (ft_Checkpoint ft) (\<lambda>l. (Some (lg_pos l), l)))\<rparr>"

definition ledgerReader :: "'i list \<Rightarrow> ('i, 'w) faults \<Rightarrow> (('o, 'w) ledger, 'i, nat) reader" where
  "ledgerReader items ft =
     \<lparr>rd_Open = (\<lambda>ctx. orNil (ft_Open ft) (lg_pos_update (\<lambda>_. 0))),
      rd_Read = (\<lambda>ctx. orElse (ft_Read ft) (\<lambda>l.
        if lg_pos l < length items then (Some (items ! lg_pos l), l\<lparr>lg_pos := lg_pos l + 1\<rparr>) else (None, l))),
      rd_Close = (\<lambda>ctx. orNil (ft_Close ft) id),
      rd_checkpoints = Some (ledgerCheckpoints ft)\<rparr>"

text \<open>The value of an item is a function of the item; whether processing succeeds is not.\<close>

definition ledgerProcessor ::
  "('i \<Rightarrow> 'o option) \<Rightarrow> ('i, 'w) faults \<Rightarrow> ('o, 'w) ledger bctxt \<Rightarrow> 'i \<Rightarrow> (('o, 'w) ledger, batchError + 'o option) act" where
  "ledgerProcessor f ft ctx item = orElse (ft_Process ft item) (Pair (f item))"

text \<open>A commit with a stale revision is a conflict; a failed commit persists nothing.\<close>

definition ledgerWriter :: "('i, 'w) faults \<Rightarrow> (('o, 'w) ledger, 'o, nat) atomicWriter" where
  "ledgerWriter ft =
     \<lparr>aw_Load = (\<lambda>ctx key. orElse (ft_Load ft) (\<lambda>l. (case lg_committed l of None \<Rightarrow> None
          | Some (c, v) \<Rightarrow> Some \<lparr>vc_Value = c, vc_Version = v\<rparr>, l))),
      aw_Commit = (\<lambda>ctx key expected outs c l.
        if expected \<noteq> revision l then (Inl (Sentinel ErrCheckpointConflict), l)
        else orElse (ft_Commit ft) (\<lambda>l1.
          (expected + 1, l1\<lparr>lg_out := lg_out l1 @ outs, lg_committed := Some (c, expected + 1)\<rparr>)) l)\<rparr>"

definition ledgerStep ::
  "int \<Rightarrow> 'i list \<Rightarrow> ('i \<Rightarrow> 'o option) \<Rightarrow> retryPolicy \<Rightarrow> skipPolicy \<Rightarrow> ('i, 'w) faults \<Rightarrow>
   (('o, 'w) ledger, 'i, 'o, nat) atomicStep" where
  "ledgerStep k items f retry skip ft =
     \<lparr>sp_name = ''step'', sp_chunkSize = k, sp_reader = ledgerReader items ft, sp_processor = ledgerProcessor f ft,
      sp_retry = retry, sp_skip = skip, sp_key = ''step'', sp_atomic = ledgerWriter ft\<rparr>"

section \<open>Outputs\<close>

text \<open>The outputs of the items from \<open>a\<close> up to \<open>b\<close> that are kept and not skipped, in order.\<close>

definition outs :: "('i \<Rightarrow> 'o option) \<Rightarrow> 'i list \<Rightarrow> nat set \<Rightarrow> nat \<Rightarrow> nat \<Rightarrow> 'o list" where
  "outs f items S a b = List.map_filter (\<lambda>i. if i \<in> S then None else f (items ! i)) [a..<b]"

text \<open>\<open>S\<close> are the indices of the items that were skipped.\<close>

definition consistent :: "'i list \<Rightarrow> ('i \<Rightarrow> 'o option) \<Rightarrow> nat set \<Rightarrow> ('o, 'w) ledger \<Rightarrow> bool" where
  "consistent items f S l \<longleftrightarrow>
     position l \<le> length items \<and> S \<subseteq> {..<position l} \<and> lg_out l = outs f items S 0 (position l)"

lemma outs_empty [simp]: "outs f items S a a = []"
  by (simp add: outs_def List.map_filter_def)

lemma outs_append: "a \<le> b \<Longrightarrow> b \<le> c \<Longrightarrow> outs f items S a b @ outs f items S b c = outs f items S a c"
  using upt_add_eq_append[of a b "c - b"] by (simp add: outs_def List.map_filter_def)

lemma outs_snoc:
  "a \<le> b \<Longrightarrow> outs f items S a (Suc b) =
     outs f items S a b @ (if b \<in> S then [] else case f (items ! b) of None \<Rightarrow> [] | Some v \<Rightarrow> [v])"
  by (auto simp: outs_def List.map_filter_def split: option.splits)

lemma outs_cong:
  assumes "S \<inter> {a..<b} = T \<inter> {a..<b}"
  shows "outs f items S a b = outs f items T a b"
proof -
  have same: "i \<in> S \<longleftrightarrow> i \<in> T" if "i \<in> set [a..<b]" for i using assms that by (simp add: set_eq_iff) blast
  show ?thesis unfolding outs_def List.map_filter_def by (rule map_cong[OF filter_cong[OF refl]]) (simp_all add: same)
qed

section \<open>One run\<close>

lemma ledger_fields [simp]:
  "sp_chunkSize (ledgerStep k items f rt sk ft) = k" "sp_skip (ledgerStep k items f rt sk ft) = sk"
  "sp_reader (ledgerStep k items f rt sk ft) = ledgerReader items ft"
  "sp_atomic (ledgerStep k items f rt sk ft) = ledgerWriter ft"
  "sp_processor (ledgerStep k items f rt sk ft) = ledgerProcessor f ft"
  "sp_retry (ledgerStep k items f rt sk ft) = rt"
  by (simp_all add: ledgerStep_def)

text \<open>Changes of the environment do not matter for the outputs.\<close>

definition sameLedger :: "('o, 'w) ledger \<Rightarrow> ('o, 'w) ledger \<Rightarrow> bool" where
  "sameLedger l l' \<longleftrightarrow> lg_committed l' = lg_committed l \<and> lg_out l' = lg_out l"

lemma sameLedger_refl [simp]: "sameLedger l l"
  by (simp add: sameLedger_def)

lemma sameLedger_trans: "sameLedger a b \<Longrightarrow> sameLedger b c \<Longrightarrow> sameLedger a c"
  by (simp add: sameLedger_def)

lemma consistent_same: "sameLedger l l' \<Longrightarrow> consistent items f S l \<Longrightarrow> consistent items f S l'"
  by (simp add: sameLedger_def consistent_def position_def)

lemma inEnv_same: "inEnv a l = (x, l') \<Longrightarrow> sameLedger l l' \<and> lg_pos l' = lg_pos l"
  by (auto simp: inEnv_def sameLedger_def split: prod.splits)

text \<open>A call to the ledger fails and changes nothing, or has its effect after the environment moved.\<close>

lemma orElse_cases:
  assumes "orElse a k l = (x, l')"
  obtains (fails) e where "x = Inl e" "sameLedger l l'" "lg_pos l' = lg_pos l"
    | (works) l1 y where "x = Inr y" "k l1 = (y, l')" "sameLedger l l1" "lg_pos l1 = lg_pos l"
proof -
  obtain e l1 where c: "inEnv a l = (e, l1)" by (rule prod.exhaust)
  show thesis using assms inEnv_same[OF c] by (cases e; cases "k l1") (auto simp: orElse_def c intro: fails works)
qed

lemma orNil_cases:
  assumes "orNil a k l = (x, l')"
  obtains (fails) e where "x = Some e" "sameLedger l l'" "lg_pos l' = lg_pos l"
    | (works) l1 where "x = None" "l' = k l1" "sameLedger l l1" "lg_pos l1 = lg_pos l"
proof -
  obtain e l1 where c: "inEnv a l = (e, l1)" by (rule prod.exhaust)
  show thesis using assms inEnv_same[OF c] by (cases e) (auto simp: orNil_def c intro: fails works)
qed

text \<open>Processing leaves the ledger alone and gives the value of \<open>f\<close>, or an error.\<close>

lemma process_ledger:
  assumes "processItem (ledgerStep k items f rt sk ft) (inEnv c) item a r l = ((x, r'), l')"
  shows "sameLedger l l' \<and> lg_pos l' = lg_pos l \<and> (x = Inr (f item) \<or> (\<exists>e. x = Inl e))"
  using assms
proof (induction "nat (rp_MaxAttempts rt - a)" arbitrary: a r l rule: less_induct)
  case less
  obtain e l1 where c: "inEnv c l = (e, l1)" by (rule prod.exhaust)
  obtain y l2 where p: "ledgerProcessor f ft (inEnv c) item l1 = (y, l2)" by (rule prod.exhaust)
  have same: "sameLedger l l1" "lg_pos l1 = lg_pos l" using inEnv_same[OF c] by simp_all
  have p2: "sameLedger l1 l2" "lg_pos l2 = lg_pos l1" "y = Inr (f item) \<or> (\<exists>e. y = Inl e)"
    using p unfolding ledgerProcessor_def by (cases rule: orElse_cases; simp)+
  have same2: "sameLedger l l2" "lg_pos l2 = lg_pos l" using same p2 sameLedger_trans by auto
  note run = less.prems[unfolded processItem.simps[of _ _ _ a] c prod.case ledger_fields p]
  show ?case
  proof (cases "\<exists>err. e = None \<and> y = Inl err \<and> shouldRetry rt err a")
    case True
    then have "nat (rp_MaxAttempts rt - (a + 1)) < nat (rp_MaxAttempts rt - a)"
      by (auto simp: shouldRetry_def split: if_splits)
    moreover have "processItem (ledgerStep k items f rt sk ft) (inEnv c) item (a + 1) (r\<lparr>RetryCount := RetryCount r + 1\<rparr>) l2 =
        ((x, r'), l')" using True run by auto
    ultimately show ?thesis using less.hyps[of "a + 1"] same2 sameLedger_trans by fastforce
  next
    case False
    then show ?thesis using run same same2 p2(3) by (cases e) (auto split: sum.splits if_splits)
  qed
qed

text \<open>
  The state between two items of a run that started at position \<open>p\<close> with the skipped items \<open>S\<close>:
  \<open>T\<close> are the items skipped so far, and \<open>pending\<close> is what the items after the committed position gave.
\<close>

definition ready ::
  "'i list \<Rightarrow> ('i \<Rightarrow> 'o option) \<Rightarrow> nat \<Rightarrow> nat set \<Rightarrow> nat set \<Rightarrow> ('o, 'w) ledger \<Rightarrow> 'o list \<Rightarrow> int \<Rightarrow> uint64 \<Rightarrow> bool" where
  "ready items f p S T l pending progress expected \<longleftrightarrow>
     p \<le> position l \<and> position l \<le> lg_pos l \<and> lg_pos l \<le> length items \<and>
     S \<subseteq> {..<p} \<and> S \<subseteq> T \<and> T - S \<subseteq> {p..<lg_pos l} \<and> lg_out l = outs f items T 0 (position l) \<and>
     pending = outs f items T (position l) (lg_pos l) \<and>
     progress = int (lg_pos l) - int (position l) \<and> expected = revision l"

definition skips :: "skipPolicy \<Rightarrow> nat set \<Rightarrow> nat set \<Rightarrow> reportData \<Rightarrow> bool" where
  "skips skip S T r \<longleftrightarrow> SkipCount r = int (card (T - S)) \<and> SkipCount r \<le> max 0 (sk_MaxSkips skip)"

lemma ready_same:
  "sameLedger l l' \<Longrightarrow> lg_pos l' = lg_pos l \<Longrightarrow> ready items f p S T l' q n e \<longleftrightarrow> ready items f p S T l q n e"
  by (simp add: ready_def sameLedger_def position_def revision_def)

lemma ready_below: "ready items f p S T l q n e \<Longrightarrow> T \<subseteq> {..<lg_pos l} \<and> finite (T - S)"
proof -
  assume rd: "ready items f p S T l q n e"
  then have "T - S \<subseteq> {p..<lg_pos l}" "S \<subseteq> {..<p}" "p \<le> lg_pos l" by (auto simp: ready_def)
  then show ?thesis using finite_subset[of "T - S" "{p..<lg_pos l}"] by fastforce
qed

text \<open>The item just read was kept or filtered, or it was skipped.\<close>

lemma ready_take:
  assumes "ready items f p S T l pending progress e" "lg_pos l < length items"
  shows "ready items f p S T (l\<lparr>lg_pos := lg_pos l + 1\<rparr>)
    (pending @ (case f (items ! lg_pos l) of None \<Rightarrow> [] | Some v \<Rightarrow> [v])) (progress + 1) e"
proof -
  have "lg_pos l \<notin> T" using ready_below[OF assms(1)] by blast
  then show ?thesis using assms by (auto simp: ready_def position_def revision_def outs_snoc)
qed

lemma ready_skip:
  assumes rd: "ready items f p S T l pending progress e" and more: "lg_pos l < length items" and sk: "skips sk S T r"
    and room: "SkipCount r + 1 \<le> max 0 (sk_MaxSkips sk)"
  shows "ready items f p S (insert (lg_pos l) T) (l\<lparr>lg_pos := lg_pos l + 1\<rparr>) pending (progress + 1) e \<and>
    skips sk S (insert (lg_pos l) T) (r\<lparr>SkipCount := SkipCount r + 1\<rparr>)"
proof -
  let ?T = "insert (lg_pos l) T"
  have n: "lg_pos l \<notin> T" "lg_pos l \<notin> S" and fin: "finite (T - S)"
    using ready_below[OF rd] rd[unfolded ready_def] by auto
  have le: "position l \<le> lg_pos l" using rd by (simp add: ready_def)
  have "outs f items ?T 0 (position l) = outs f items T 0 (position l)"
    "outs f items ?T (position l) (lg_pos l) = outs f items T (position l) (lg_pos l)"
    by (rule outs_cong; use le in auto)+
  then have "outs f items ?T 0 (position l) = outs f items T 0 (position l)"
    "outs f items ?T (position l) (Suc (lg_pos l)) = outs f items T (position l) (lg_pos l)"
    using le by (simp_all add: outs_snoc)
  then have "ready items f p S ?T (l\<lparr>lg_pos := lg_pos l + 1\<rparr>) pending (progress + 1) e"
    using rd more by (auto simp: ready_def position_def revision_def)
  moreover have "?T - S = insert (lg_pos l) (T - S)" using n by blast
  ultimately show ?thesis using sk room n fin by (simp add: skips_def)
qed

text \<open>What every run leaves behind, failed or not: a consistent ledger in which as many more items are skipped as allowed.\<close>

definition leaves :: "'i list \<Rightarrow> ('i \<Rightarrow> 'o option) \<Rightarrow> skipPolicy \<Rightarrow> nat \<Rightarrow> nat set \<Rightarrow> nat set \<Rightarrow> ('o, 'w) ledger \<Rightarrow> bool" where
  "leaves items f skip p S S' l \<longleftrightarrow> S \<subseteq> S' \<and> S' - S \<subseteq> {p..} \<and> p \<le> position l \<and> consistent items f S' l \<and>
     int (card (S' - S)) \<le> max 0 (sk_MaxSkips skip)"

lemma ready_leaves:
  assumes rd: "ready items f p S T l pending progress e" and sk: "skips sk S T r"
  shows "leaves items f sk p S (T \<inter> {..<position l}) l"
proof -
  have "outs f items (T \<inter> {..<position l}) 0 (position l) = outs f items T 0 (position l)"
    by (rule outs_cong) auto
  moreover have "card (T \<inter> {..<position l} - S) \<le> card (T - S)"
    by (rule card_mono) (use ready_below[OF rd] in auto)
  ultimately show ?thesis using rd sk by (auto simp: leaves_def consistent_def ready_def skips_def)
qed

lemma ready_commit:
  assumes rd: "ready items f p S T l pending progress e" and same: "sameLedger l l'" "lg_pos l' = lg_pos l"
  shows "ready items f p S T (l'\<lparr>lg_out := lg_out l' @ pending, lg_committed := Some (lg_pos l, v)\<rparr>) [] 0 v"
  using rd same outs_append[of 0 "position l" "lg_pos l" f items T]
  by (auto simp: ready_def position_def revision_def sameLedger_def)

lemma commit_ledger:
  assumes rd: "ready items f p S T l pending progress e"
    and run: "commitAtomic (ledgerStep k items f rt sk ft) (inEnv c) (ledgerCheckpoints ft) e pending r l = ((x, r'), l')"
  shows "lg_pos l' = lg_pos l \<and> SkipCount r' = SkipCount r \<and>
    (case x of Inl err \<Rightarrow> ready items f p S T l' pending progress e | Inr v \<Rightarrow> ready items f p S T l' [] 0 v)"
proof -
  have stays: ?thesis if "sameLedger l l'" "lg_pos l' = lg_pos l" "x = Inl err" "r' = r" for err
    using rd that by (simp add: ready_same)
  obtain e1 l1 where c1: "inEnv c l = (e1, l1)" by (rule prod.exhaust)
  obtain cp l2 where cp: "orElse (ft_Checkpoint ft) (\<lambda>l. (Some (lg_pos l), l)) l1 = (cp, l2)" by (rule prod.exhaust)
  obtain e2 l3 where c2: "inEnv c l2 = (e2, l3)" by (rule prod.exhaust)
  note run = run[unfolded commitAtomic_def c1 prod.case ledgerCheckpoints_def checkpointReader.simps cp ledger_fields]
  have s1: "sameLedger l l1" "lg_pos l1 = lg_pos l" using inEnv_same[OF c1] by simp_all
  have s2: "sameLedger l l2" "lg_pos l2 = lg_pos l" and v: "(\<exists>e. cp = Inl e) \<or> cp = Inr (Some (lg_pos l))"
    using cp s1 by (cases rule: orElse_cases; auto simp: sameLedger_def)+
  have s3: "sameLedger l l3" "lg_pos l3 = lg_pos l" using s2 inEnv_same[OF c2] by (auto simp: sameLedger_def)
  have rev: "revision l3 = e" using rd s3 by (simp add: ready_def revision_def sameLedger_def)
  show ?thesis
  proof (cases "e1 = None \<and> cp = Inr (Some (lg_pos l)) \<and> e2 = None")
    case False
    consider err where "e1 = Some err" | err where "e1 = None" "cp = Inl err"
      | err where "e1 = None" "cp = Inr (Some (lg_pos l))" "e2 = Some err" using False v by (cases e1; cases e2) auto
    then show ?thesis
    proof cases
      case 1
      with run have "((Inl err, r), l1) = ((x, r'), l')" by simp
      with s1 show ?thesis by (intro stays[of err]) auto
    next
      case 2
      with run have "((Inl err, r), l2) = ((x, r'), l')" by simp
      with s2 show ?thesis by (intro stays[of err]) auto
    next
      case 3
      with run c2 have "((Inl err, r), l3) = ((x, r'), l')" by simp
      with s3 show ?thesis by (intro stays[of err]) auto
    qed
  next
    case True
    let ?k = "\<lambda>l1. (e + 1, l1\<lparr>lg_out := lg_out l1 @ pending, lg_committed := Some (lg_pos l, e + 1)\<rparr>)"
    obtain y l4 where com: "orElse (ft_Commit ft) ?k l3 = (y, l4)" by (rule prod.exhaust)
    have run: "(case y of Inl err \<Rightarrow> ((Inl err, r), l4)
        | Inr v \<Rightarrow> ((Inr v, r\<lparr>WriteCount := WriteCount r + int (length pending)\<rparr>), l4)) = ((x, r'), l')"
      using run True c2 com rev by (simp add: ledgerWriter_def)
    from com show ?thesis
    proof (cases rule: orElse_cases)
      case (fails err)
      then have "sameLedger l l4" using s3 sameLedger_trans by blast
      moreover have "((Inl err, r), l4) = ((x, r'), l')" using run fails(1) by simp
      ultimately show ?thesis using fails(3) s3(2) by (intro stays[of err]) auto
    next
      case (works l5 v)
      then have "sameLedger l l5" "lg_pos l5 = lg_pos l" using s3 sameLedger_trans by auto
      note rdy = ready_commit[OF rd this, of "e + 1"]
      have "v = e + 1" "l4 = l5\<lparr>lg_out := lg_out l5 @ pending, lg_committed := Some (lg_pos l, e + 1)\<rparr>"
        using works(2) by auto
      moreover have "((Inr v, r\<lparr>WriteCount := WriteCount r + int (length pending)\<rparr>), l4) = ((x, r'), l')"
        using run works(1) by simp
      ultimately show ?thesis using rdy works(4) s3(2) by auto
    qed
  qed
qed

lemma finish_env: "finish (inEnv clk) st e r l = (r', l') \<Longrightarrow> sameLedger l l' \<and> lg_pos l' = lg_pos l"
  by (auto simp: finish_def inEnv_def sameLedger_def split: prod.splits)

text \<open>The result of a run: what it leaves, all of the input when it completed, and there with enough fuel.\<close>

definition runOk ::
  "'i list \<Rightarrow> ('i \<Rightarrow> 'o option) \<Rightarrow> skipPolicy \<Rightarrow> nat \<Rightarrow> nat set \<Rightarrow> bool \<Rightarrow> reportData option \<Rightarrow> ('o, 'w) ledger \<Rightarrow> bool" where
  "runOk items f skip p S enough x l \<longleftrightarrow>
     (\<exists>S'. leaves items f skip p S S' l \<and>
        (\<forall>r. x = Some r \<and> rp_Status r = StatusCompleted \<longrightarrow>
           position l = length items \<and> SkipCount r = int (card (S' - S)))) \<and> (enough \<longrightarrow> x \<noteq> None)"

lemma leaves_same: "sameLedger l l' \<Longrightarrow> leaves items f sk p S S' l \<Longrightarrow> leaves items f sk p S S' l'"
  by (simp add: leaves_def sameLedger_def consistent_def position_def)

lemma runOk_same: "sameLedger l l' \<Longrightarrow> runOk items f sk p S b x l \<Longrightarrow> runOk items f sk p S b x l'"
  using leaves_same[of l l' items f sk p S] by (auto simp: runOk_def sameLedger_def position_def)

lemma runOk_fail:
  assumes "apfst Some (failWith (inEnv clk) e r l) = (x, l')" "leaves items f sk p S S' l"
  shows "runOk items f sk p S b x l'"
proof -
  obtain r' t where f: "failWith (inEnv clk) e r l = (r', t)" by (rule prod.exhaust)
  then have "sameLedger l t" using finish_env unfolding failWith_def by blast
  from leaves_same[OF this assms(2)] show ?thesis using assms(1) f failWith_fields[OF f] by (auto simp: runOk_def)
qed

lemma runOk_finish:
  assumes "apfst Some (finish (inEnv clk) st e r l) = (x, l')" "leaves items f sk p S S' l"
    and "st = StatusCompleted \<Longrightarrow> position l = length items \<and> SkipCount r = int (card (S' - S))"
  shows "runOk items f sk p S b x l'"
proof -
  obtain r' t where f: "finish (inEnv clk) st e r l = (r', t)" by (rule prod.exhaust)
  have t: "sameLedger l t" "rp_Status r' = st" "SkipCount r' = SkipCount r"
    using finish_env[OF f] finish_fields[OF f] by (simp_all add: counts_def)
  from leaves_same[OF t(1) assms(2)] show ?thesis using assms(1,3) f t
    by (auto simp: runOk_def sameLedger_def position_def)
qed

lemma runOk_stop:
  "apfst Some (failWith (inEnv clk) err r l) = (x, l') \<Longrightarrow> ready items f p S T l pending progress e \<Longrightarrow> skips sk S T r \<Longrightarrow>
     runOk items f sk p S b x l'"
  by (rule runOk_fail[OF _ ready_leaves])

text \<open>At the end of the input everything read is committed.\<close>

lemma runOk_completed:
  assumes "apfst Some (finish (inEnv clk) StatusCompleted None r l) = (x, l')"
    and "ready items f p S T l [] 0 e" "lg_pos l = length items" "skips sk S T r"
  shows "runOk items f sk p S b x l'"
proof -
  have "T \<inter> {..<position l} = T" "position l = length items"
    using ready_below[OF assms(2)] assms(2,3) by (auto simp: ready_def)
  with ready_leaves[OF assms(2,4)] assms(4) show ?thesis
    by (intro runOk_finish[OF assms(1), of items f sk p S T]) (simp_all add: skips_def)
qed

text \<open>An iteration that goes on has kept or filtered its item, or skipped it within the limit.\<close>

lemma takeItem_ledger:
  assumes rd: "ready items f p S T l pending progress e" "lg_pos l < length items" "skips sk S T r"
    and tk: "takeItem (ledgerStep k items f rt sk ft) y pending r = (None, pending', r')"
    and y: "y = Inr (f (items ! lg_pos l)) \<or> (\<exists>e. y = Inl e)"
  shows "\<exists>T'. ready items f p S T' (l\<lparr>lg_pos := lg_pos l + 1\<rparr>) pending' (progress + 1) e \<and> skips sk S T' r'"
proof (cases y)
  case (Inl err)
  then have "shouldSkip sk err (SkipCount r) 1" "pending' = pending" "r' = r\<lparr>SkipCount := SkipCount r + 1\<rparr>"
    using tk by (auto simp: takeItem_def split: if_splits)
  then show ?thesis using ready_skip[OF rd shouldSkip_room] by blast
next
  case (Inr v)
  then have "pending' = pending @ (case v of None \<Rightarrow> [] | Some w \<Rightarrow> [w])" "SkipCount r' = SkipCount r"
    using tk by (auto simp: takeItem_def split: option.splits)
  moreover have "v = f (items ! lg_pos l)" using Inr y by simp
  ultimately show ?thesis using ready_take[OF rd(1,2)] rd(3) by (auto simp: skips_def)
qed

lemma commit_skips: "SkipCount r' = SkipCount r \<Longrightarrow> skips sk S T r' \<longleftrightarrow> skips sk S T r"
  by (simp add: skips_def)

lemma atomic_end:
  assumes rd: "ready items f p S T l pending progress e" and sk: "skips sk S T r" and stop: "lg_pos l = length items"
    and run: "(if 0 < progress then
       (case commitAtomic (ledgerStep k items f rt sk ft) (inEnv c) (ledgerCheckpoints ft) e pending r l of
          ((Inl err, r1), l1) \<Rightarrow> apfst Some (failWith (inEnv clk) err r1 l1)
        | ((Inr v, r1), l1) \<Rightarrow> apfst Some (finish (inEnv clk) StatusCompleted None r1 l1))
     else apfst Some (finish (inEnv clk) StatusCompleted None r l)) = (x, l')"
  shows "runOk items f sk p S b x l'"
proof (cases "0 < progress")
  case True
  obtain y r1 l1 where com: "commitAtomic (ledgerStep k items f rt sk ft) (inEnv c) (ledgerCheckpoints ft) e pending r l = ((y, r1), l1)"
    by (metis surj_pair)
  note ok = commit_ledger[OF rd com]
  have sk1: "skips sk S T r1" using ok sk commit_skips by blast
  show ?thesis
  proof (cases y)
    case (Inl err)
    then show ?thesis using run True com ok sk1 by (auto intro: runOk_stop)
  next
    case (Inr v)
    then show ?thesis using run True com ok stop sk1 by (auto intro: runOk_completed)
  qed
next
  case False
  then have z: "progress = 0" "position l = lg_pos l" using rd by (auto simp: ready_def)
  then have "ready items f p S T l [] 0 e" using rd by (auto simp: ready_def)
  then show ?thesis using run False stop sk by (auto intro: runOk_completed)
qed

lemma atomic_next:
  assumes rd: "ready items f p S T l pending progress e" and sk: "skips sk S T r"
    and IH: "\<And>T l pending progress e r. ready items f p S T l pending progress e \<Longrightarrow> skips sk S T r \<Longrightarrow>
      atomicLoop n (inEnv clk) (ledgerStep k items f rt sk ft) (inEnv c) (ledgerCheckpoints ft) e pending progress r l = (x, l') \<Longrightarrow>
      runOk items f sk p S (length items - lg_pos l < n) x l'"
    and run: "(if progress = k then
       (case commitAtomic (ledgerStep k items f rt sk ft) (inEnv c) (ledgerCheckpoints ft) e pending r l of
          ((Inl err, r1), l1) \<Rightarrow> apfst Some (failWith (inEnv clk) err r1 l1)
        | ((Inr v, r1), l1) \<Rightarrow> atomicLoop n (inEnv clk) (ledgerStep k items f rt sk ft) (inEnv c) (ledgerCheckpoints ft) v [] 0 r1 l1)
     else atomicLoop n (inEnv clk) (ledgerStep k items f rt sk ft) (inEnv c) (ledgerCheckpoints ft) e pending progress r l) = (x, l')"
  shows "runOk items f sk p S (length items - lg_pos l < n) x l'"
proof (cases "progress = k")
  case True
  obtain z r1 l1 where com: "commitAtomic (ledgerStep k items f rt sk ft) (inEnv c) (ledgerCheckpoints ft) e pending r l = ((z, r1), l1)"
    by (metis surj_pair)
  note ok = commit_ledger[OF rd com]
  have sk1: "skips sk S T r1" using ok sk commit_skips by blast
  show ?thesis
  proof (cases z)
    case (Inl err)
    then show ?thesis using run True com ok sk1 by (auto intro: runOk_stop)
  next
    case (Inr v)
    with ok have "ready items f p S T l1 [] 0 v" "lg_pos l1 = lg_pos l" by simp_all
    with run True com Inr IH[of T l1 "[]" 0 v r1] sk1 show ?thesis by simp
  qed
qed (use run IH[OF rd sk] in simp)

lemma atomic_item:
  assumes rd: "ready items f p S T l pending progress e" and sk: "skips sk S T r" and more: "lg_pos l < length items"
    and IH: "\<And>T l pending progress e r. ready items f p S T l pending progress e \<Longrightarrow> skips sk S T r \<Longrightarrow>
      atomicLoop n (inEnv clk) (ledgerStep k items f rt sk ft) (inEnv c) (ledgerCheckpoints ft) e pending progress r l = (x, l') \<Longrightarrow>
      runOk items f sk p S (length items - lg_pos l < n) x l'"
    and run: "(case processItem (ledgerStep k items f rt sk ft) (inEnv c) (items ! lg_pos l) 1 (r\<lparr>ReadCount := ReadCount r + 1\<rparr>)
         (l\<lparr>lg_pos := lg_pos l + 1\<rparr>) of
       ((result, r1), l3) \<Rightarrow>
         (case takeItem (ledgerStep k items f rt sk ft) result pending r1 of
            (Some err, pending1, r2) \<Rightarrow> apfst Some (failWith (inEnv clk) err r2 l3)
          | (None, pending1, r2) \<Rightarrow>
              if progress + 1 = k then
                (case commitAtomic (ledgerStep k items f rt sk ft) (inEnv c) (ledgerCheckpoints ft) e pending1 r2 l3 of
                   ((Inl err, r3), l4) \<Rightarrow> apfst Some (failWith (inEnv clk) err r3 l4)
                 | ((Inr v, r3), l4) \<Rightarrow> atomicLoop n (inEnv clk) (ledgerStep k items f rt sk ft) (inEnv c) (ledgerCheckpoints ft) v [] 0 r3 l4)
              else atomicLoop n (inEnv clk) (ledgerStep k items f rt sk ft) (inEnv c) (ledgerCheckpoints ft) e pending1
                     (progress + 1) r2 l3)) = (x, l')"
  shows "runOk items f sk p S (length items - lg_pos l < Suc n) x l'"
proof -
  let ?p = "ledgerStep k items f rt sk ft" and ?l = "l\<lparr>lg_pos := lg_pos l + 1\<rparr>" and ?i = "items ! lg_pos l"
  obtain y r1 l3 where pr: "processItem ?p (inEnv c) ?i 1 (r\<lparr>ReadCount := ReadCount r + 1\<rparr>) ?l = ((y, r1), l3)" by (metis surj_pair)
  have same: "sameLedger ?l l3" "lg_pos l3 = lg_pos l + 1" and y: "y = Inr (f ?i) \<or> (\<exists>e. y = Inl e)"
    using process_ledger[OF pr] by simp_all
  have sk1: "skips sk S T r1" using processItem_counts[OF pr] sk by (simp add: skips_def counts_def)
  obtain q p2 r2 where tk: "takeItem ?p y pending r1 = (q, p2, r2)" by (metis surj_pair)
  show ?thesis
  proof (cases q)
    case (Some err)
    have "sameLedger l l3" using same(1) by (simp add: sameLedger_def)
    then have "leaves items f sk p S (T \<inter> {..<position l}) l3" using leaves_same ready_leaves[OF rd sk] by blast
    with run pr tk Some show ?thesis by (auto intro: runOk_fail)
  next
    case None
    obtain T' where "ready items f p S T' ?l p2 (progress + 1) e" and sk2: "skips sk S T' r2"
      using takeItem_ledger[OF rd more sk1 tk[unfolded None] y] by blast
    then have rd3: "ready items f p S T' l3 p2 (progress + 1) e" 
      using ready_same[OF same(1), of items f p S T' p2 "progress + 1" e] same(2) by simp
    have fuel: "length items - lg_pos l < Suc n \<longleftrightarrow> length items - lg_pos l3 < n" using more same(2) by auto
    show ?thesis unfolding fuel
      by (rule atomic_next[where n = n and k = k and rt = rt and ft = ft and c = c and clk = clk, OF rd3 sk2 IH])
        (use run pr tk None in simp_all)
  qed
qed

lemma atomicLoop_ledger:
  "ready items f p S T l pending progress e \<Longrightarrow> skips sk S T r \<Longrightarrow>
    atomicLoop n (inEnv clk) (ledgerStep k items f rt sk ft) (inEnv c) (ledgerCheckpoints ft) e pending progress r l = (x, l') \<Longrightarrow>
    runOk items f sk p S (length items - lg_pos l < n) x l'"
proof (induction n arbitrary: T l pending progress e r)
  case 0
  then show ?case using ready_leaves[OF 0(1,2)] by (auto simp: runOk_def)
next
  case (Suc n)
  let ?p = "ledgerStep k items f rt sk ft"
  obtain e1 l1 where c1: "inEnv c l = (e1, l1)" by (rule prod.exhaust)
  obtain rd l2 where c2: "rd_Read (ledgerReader items ft) (inEnv c) l1 = (rd, l2)" by (rule prod.exhaust)
  have l1: "lg_pos l1 = lg_pos l" and rd1: "ready items f p S T l1 pending progress e"
    using Suc.prems(1) ready_same inEnv_same[OF c1] by metis+
  note run = Suc.prems(3)[unfolded atomicLoop.simps c1 prod.case ledger_fields c2]
  note sk = Suc.prems(2)
  show ?case
  proof (cases e1)
    case (Some err)
    with run show ?thesis by (auto intro: runOk_finish[OF _ ready_leaves[OF rd1 sk]])
  next
    case None
    from c2 have "orElse (ft_Read ft) (\<lambda>l. if lg_pos l < length items
        then (Some (items ! lg_pos l), l\<lparr>lg_pos := lg_pos l + 1\<rparr>) else (None, l)) l1 = (rd, l2)" by (simp add: ledgerReader_def)
    then show ?thesis
    proof (cases rule: orElse_cases)
      case (fails err)
      then have "ready items f p S T l2 pending progress e" using rd1 ready_same by blast
      with run None fails(1) sk show ?thesis by (auto intro: runOk_stop)
    next
      case (works l3 y)
      have rd3: "ready items f p S T l3 pending progress e" using works(3,4) rd1 ready_same by blast
      show ?thesis
      proof (cases "lg_pos l3 < length items")
        case False
        then have e: "l2 = l3" "rd = Inr None" "lg_pos l3 = length items" using works rd3 by (auto simp: ready_def)
        show ?thesis
          by (rule atomic_end[OF rd3 sk e(3), where k = k and rt = rt and ft = ft and c = c and clk = clk]) (use run[unfolded e None] in simp)
      next
        case True
        then have e: "l2 = l3\<lparr>lg_pos := lg_pos l3 + 1\<rparr>" "rd = Inr (Some (items ! lg_pos l3))" using works by auto
        have "runOk items f sk p S (length items - lg_pos l3 < Suc n) x l'"
          by (rule atomic_item[where n = n and k = k and rt = rt and ft = ft and c = c and clk = clk, OF rd3 sk True Suc.IH])
            (use run None e in simp_all)
        then show ?thesis using works(4) l1 by simp
      qed
    qed
  qed
qed

text \<open>Loading and restoring: the loop starts at the committed position, or the run fails and nothing changed.\<close>

lemma atomicBody_ledger:
  assumes start: "consistent items f S l" and pos: "lg_pos l = 0" and r: "SkipCount r = 0"
    and run: "atomicBody n (inEnv clk) (ledgerStep k items f rt sk ft) (inEnv c) r l = (x, l')"
  shows "runOk items f sk (position l) S (length items < n) x l'"
proof -
  let ?p = "ledgerStep k items f rt sk ft"
  have sk: "skips sk S S r" using r by (simp add: skips_def)
  have stay: "leaves items f sk (position l) S S t" if "sameLedger l t" for t
    using start that by (simp add: leaves_def consistent_def sameLedger_def position_def)
  have go: "runOk items f sk (position l) S (length items < n) x l'"
    if "sameLedger l t" "lg_pos t = position l"
      "atomicLoop n (inEnv clk) ?p (inEnv c) (ledgerCheckpoints ft) (revision l) [] 0 r t = (x, l')" for t
  proof -
    have "ready items f (position l) S S t [] 0 (revision l)"
      using start that(1,2) by (simp add: ready_def consistent_def sameLedger_def position_def revision_def)
    from atomicLoop_ledger[OF this sk that(3)] show ?thesis by (auto simp: runOk_def)
  qed
  have rdc: "rd_checkpoints (ledgerReader items ft) = Some (ledgerCheckpoints ft)" by (simp add: ledgerReader_def)
  obtain y l1 where ld: "aw_Load (ledgerWriter ft) (inEnv c) (sp_key ?p) l = (y, l1)" by (rule prod.exhaust)
  note run = run[unfolded atomicBody_def ledger_fields rdc option.case ld prod.case]
  from ld[unfolded ledgerWriter_def atomicWriter.simps] show ?thesis
  proof (cases rule: orElse_cases)
    case (fails err)
    with run stay show ?thesis by (auto intro: runOk_fail)
  next
    case (works l2 v)
    then have same: "sameLedger l l1" "lg_pos l1 = 0" and v: "v = (case lg_committed l of None \<Rightarrow> None
        | Some (c, v) \<Rightarrow> Some \<lparr>vc_Value = c, vc_Version = v\<rparr>)" using pos by (auto simp: sameLedger_def)
    show ?thesis
    proof (cases "lg_committed l")
      case None
      with run works(1) v same show ?thesis by (intro go[of l1]) (auto simp: position_def revision_def)
    next
      case (Some cv)
      obtain z l3 where rs: "orNil (ft_Restore ft) (lg_pos_update (\<lambda>_. fst cv)) l1 = (z, l3)" by (rule prod.exhaust)
      note run' = run[unfolded works(1) v Some]
      from rs show ?thesis
      proof (cases rule: orNil_cases)
        case (fails err)
        then show ?thesis using run' rs stay[of l3] same sameLedger_trans
          by (cases cv) (auto simp: ledgerCheckpoints_def intro: runOk_fail)
      next
        case (works l4)
        then have "sameLedger l l3" "lg_pos l3 = position l" using same Some by (auto simp: sameLedger_def position_def split: prod.splits)
        then show ?thesis using run' rs works(1) Some
          by (intro go[of l3]) (cases cv; auto simp: ledgerCheckpoints_def revision_def)+
      qed
    qed
  qed
qed

lemma closeReport_ledger:
  assumes "apfst Some (closeReport (inEnv clk) err r l) = (x, l')" "runOk items f sk p S b (Some r) l"
  shows "runOk items f sk p S b x l'"
proof -
  obtain S' where S': "leaves items f sk p S S' l" and fin: "rp_Status r = StatusCompleted \<longrightarrow>
      position l = length items \<and> SkipCount r = int (card (S' - S))"
    using assms(2) by (auto simp: runOk_def)
  show ?thesis
  proof (cases "err \<noteq> None \<and> rp_Err r = None \<and> rp_Status r = StatusCompleted")
    case True
    then have "apfst Some (finish (inEnv clk) StatusFailed err r l) = (x, l')" using assms(1) by (auto simp: closeReport_def)
    then show ?thesis by (rule runOk_finish[OF _ S']) simp
  next
    case False
    then have "l' = l" "\<exists>r'. x = Some r' \<and> rp_Status r' = rp_Status r \<and> SkipCount r' = SkipCount r"
      using assms(1) by (auto simp: closeReport_def split: option.splits)
    then show ?thesis using S' fin unfolding runOk_def by auto
  qed
qed

text \<open>
  C1. An atomic step delivers exactly once. Opening, loading, restoring, reading, processing,
  checkpoints, commits, closing and the context may fail at any time. Whatever fails, the committed
  outputs stay those of the items before the committed position, in order and each once, less
  skipped items; a run only adds skips after its starting position, and at most as many as the
  policy allows. A run that reports success has committed all items and counts exactly the
  skips it added; and a run over a finite input returns. The value of an item is a function of the
  item, and a commit persists outputs and position together or not at all.
\<close>

theorem atomic_exactly_once:
  assumes start: "consistent items f S l"
    and run: "runAtomic n (inEnv clk) (ledgerStep k items f retry skip ft) (inEnv c) l = (x, l')"
  shows "\<exists>S'. S \<subseteq> S' \<and> S' - S \<subseteq> {position l..<position l'} \<and> consistent items f S' l' \<and>
    int (card (S' - S)) \<le> max 0 (sk_MaxSkips skip) \<and>
    (\<forall>r. x = Some r \<and> IsSuccess r \<longrightarrow>
       lg_out l' = outs f items S' 0 (length items) \<and> SkipCount r = int (card (S' - S))) \<and>
    (length items < n \<longrightarrow> x \<noteq> None)"
proof -
  let ?p = "ledgerStep k items f retry skip ft"
  obtain r l0 where n: "newReport (inEnv clk) (sp_name ?p) l = (r, l0)" by (rule prod.exhaust)
  then have s0: "sameLedger l l0" and r: "SkipCount r = 0" by (auto simp: newReport_def dest: inEnv_same split: prod.splits)
  obtain e1 l1 where c1: "inEnv c l0 = (e1, l1)" by (rule prod.exhaust)
  have s1: "sameLedger l l1" using s0 inEnv_same[OF c1] sameLedger_trans by blast
  obtain e2 l2 where op: "orNil (ft_Open ft) (lg_pos_update (\<lambda>_. 0)) l1 = (e2, l2)" by (rule prod.exhaust)
  have s2: "sameLedger l l2" and p2: "e2 = None \<Longrightarrow> lg_pos l2 = 0"
    using op s1 by (cases rule: orNil_cases; auto simp: sameLedger_def)+
  have stay: "leaves items f skip (position l) S S t" if "sameLedger l t" for t
    using start that by (simp add: leaves_def consistent_def sameLedger_def position_def)
  have pos: "position l2 = position l" using s2 by (simp add: sameLedger_def position_def)
  note run = run[unfolded runAtomic_def n prod.case c1 ledger_fields ledgerReader_def reader.simps op]
  have ok: "runOk items f skip (position l) S (length items < n) x l'"
  proof (cases "e1 = None \<and> e2 = None")
    case False
    show ?thesis
    proof (cases e1)
      case (Some err)
      show ?thesis by (rule runOk_finish[OF _ stay[OF s1]]) (use run Some in auto)
    next
      case None
      then obtain err where "e2 = Some err" using False by auto
      then show ?thesis by (intro runOk_fail[OF _ stay[OF s2]]) (use run None in auto)
    qed
  next
    case True
    obtain y l3 where body: "atomicBody n (inEnv clk) ?p (inEnv c) r l2 = (y, l3)" by (rule prod.exhaust)
    note b = atomicBody_ledger[OF consistent_same[OF s2 start] p2 r body, unfolded pos]
    show ?thesis
    proof (cases y)
      case None
      then show ?thesis using run True body b by (auto simp: ledgerReader_def)
    next
      case (Some r1)
      obtain e3 l4 where cl: "orNil (ft_Close ft) id l3 = (e3, l4)" by (rule prod.exhaust)
      then have "sameLedger l3 l4" by (cases rule: orNil_cases) simp_all
      then have b4: "runOk items f skip (position l) S (length items < n) (Some r1) l4"
        using runOk_same b True Some by blast
      show ?thesis by (rule closeReport_ledger[OF _ b4]) (use run True body Some cl in simp)
    qed
  qed
  then obtain S' where "leaves items f skip (position l) S S' l'"
    "\<forall>r. x = Some r \<and> rp_Status r = StatusCompleted \<longrightarrow> position l' = length items \<and> SkipCount r = int (card (S' - S))"
    "length items < n \<longrightarrow> x \<noteq> None" unfolding runOk_def by blast
  then show ?thesis by (intro exI[of _ S']) (auto simp: leaves_def consistent_def IsSuccess_def)
qed

text \<open>The second commit fails in a run that may skip one item.\<close>

definition failSecond :: "nat \<Rightarrow> batchError option \<times> nat" where
  "failSecond w = (if w = 1 then Some (Message ''down'') else None, w + 1)"

definition sampleFaults :: "(nat, nat) faults" where
  "sampleFaults = \<lparr>ft_Open = Pair None, ft_Read = Pair None, ft_Close = Pair None, ft_Restore = Pair None,
     ft_Checkpoint = Pair None, ft_Process = (\<lambda>i. Pair (if i = 2 then Some (Message ''bad'') else None)),
     ft_Load = Pair None, ft_Commit = failSecond\<rparr>"

theorem atomic_exactly_once_witness:
  "\<exists>x l' S'. runAtomic 4 (inEnv (Pair 0)) (ledgerStep 2 [1, 2, 3] Some \<lparr>rp_MaxAttempts = 1, rp_RetryIf = None\<rparr>
       \<lparr>sk_MaxSkips = 1, sk_SkipIf = Some (\<lambda>e. True)\<rparr> sampleFaults) (inEnv (Pair None))
       \<lparr>lg_pos = 0, lg_committed = None, lg_out = [], lg_env = 0\<rparr> = (x, l') \<and>
     consistent [1, 2, 3] Some S' l' \<and> card S' \<le> 1 \<and> x \<noteq> None"
proof -
  let ?l = "\<lparr>lg_pos = 0, lg_committed = None, lg_out = [], lg_env = 0 :: nat\<rparr>"
  let ?p = "ledgerStep 2 [1, 2, 3] Some \<lparr>rp_MaxAttempts = 1, rp_RetryIf = None\<rparr>
    \<lparr>sk_MaxSkips = 1, sk_SkipIf = Some (\<lambda>e. True)\<rparr> sampleFaults"
  have start: "consistent [1, 2, 3 :: nat] Some {} ?l" by (simp add: consistent_def position_def)
  obtain x l' where run: "runAtomic 4 (inEnv (Pair 0)) ?p (inEnv (Pair None)) ?l = (x, l')" by (rule prod.exhaust)
  from atomic_exactly_once[OF start run] run show ?thesis by auto
qed

end
