(* ===== verification/Workflow.thy ===== *)
theory Workflow
  imports Go_Strings
begin

text \<open>
  Work reports (\<^verbatim>\<open>workreport/status.go\<close>, \<^verbatim>\<open>policy.go\<close>, \<^verbatim>\<open>errors.go\<close>, \<^verbatim>\<open>report.go\<close>) and the
  sequential, conditional and parallel runners over them (\<^verbatim>\<open>workflow/workflow.go\<close>). Works,
  predicates, contexts and the clock act on a store \<open>'s\<close>. The goroutines of a parallel run
  are interleaved by a step relation.
\<close>

section \<open>Work reports\<close>

type_synonym status = string

definition StatusCompleted :: status where
  "StatusCompleted = ''completed''"

definition StatusFailed :: status where
  "StatusFailed = ''failed''"

definition StatusPartial :: status where
  "StatusPartial = ''partial''"

definition StatusAborted :: status where
  "StatusAborted = ''aborted''"

definition StatusCancelled :: status where
  "StatusCancelled = ''cancelled''"

lemmas status_defs = StatusCompleted_def StatusFailed_def StatusPartial_def StatusAborted_def
  StatusCancelled_def

definition known :: "status \<Rightarrow> bool" where
  "known s = (s \<in> {StatusCompleted, StatusFailed, StatusPartial, StatusAborted, StatusCancelled})"

text \<open>A failure policy is any int.\<close>

definition StopOnFailure :: int where
  "StopOnFailure = 0"

definition ContinueOnFailure :: int where
  "ContinueOnFailure = 1"

definition valid :: "int \<Rightarrow> bool" where
  "valid p = (p = StopOnFailure \<or> p = ContinueOnFailure)"

definition ErrUnknownFailurePolicy :: string where
  "ErrUnknownFailurePolicy = ''unknown failure policy''"

datatype workErrorKind = FailurePolicyError (fp_Policy: int)

type_synonym workError = "workErrorKind go_error"

fun workErrorIs :: "workErrorKind \<Rightarrow> string \<Rightarrow> bool" where
  "workErrorIs (FailurePolicyError p) target = (target = ErrUnknownFailurePolicy)"

datatype report =
  Report (r_Name: string) (r_Status: status) (r_StartedAt: int) (r_EndedAt: int)
    (r_Err: "workError option") (r_Reason: string) (r_Children: "report list")

definition zeroReport :: report where
  "zeroReport = Report '''' '''' 0 0 None '''' []"

definition newReport ::
  "('s, int) act \<Rightarrow> string \<Rightarrow> status \<Rightarrow> workError option \<Rightarrow> string \<Rightarrow> report list \<Rightarrow> ('s, report) act" where
  "newReport clock name status err reason children s =
     (case clock s of (now, s') \<Rightarrow> (Report name status now now err reason children, s'))"

definition Completed :: "('s, int) act \<Rightarrow> string \<Rightarrow> ('s, report) act" where
  "Completed clock name = newReport clock name StatusCompleted None '''' []"

definition Failed :: "('s, int) act \<Rightarrow> string \<Rightarrow> workError option \<Rightarrow> ('s, report) act" where
  "Failed clock name err = newReport clock name StatusFailed err '''' []"

definition Partial :: "('s, int) act \<Rightarrow> string \<Rightarrow> report list \<Rightarrow> ('s, report) act" where
  "Partial clock name children = newReport clock name StatusPartial None '''' children"

definition Aborted :: "('s, int) act \<Rightarrow> string \<Rightarrow> string \<Rightarrow> ('s, report) act" where
  "Aborted clock name reason = newReport clock name StatusAborted None reason []"

definition Cancelled :: "('s, int) act \<Rightarrow> string \<Rightarrow> workError option \<Rightarrow> ('s, report) act" where
  "Cancelled clock name err = newReport clock name StatusCancelled err '''' []"

definition IsSuccess :: "report \<Rightarrow> bool" where
  "IsSuccess r = (r_Status r = StatusCompleted)"

definition IsFailed :: "report \<Rightarrow> bool" where
  "IsFailed r = (r_Status r = StatusFailed)"

definition IsPartial :: "report \<Rightarrow> bool" where
  "IsPartial r = (r_Status r = StatusPartial)"

definition IsAborted :: "report \<Rightarrow> bool" where
  "IsAborted r = (r_Status r = StatusAborted)"

definition IsCancelled :: "report \<Rightarrow> bool" where
  "IsCancelled r = (r_Status r = StatusCancelled)"

definition IsFailure :: "report \<Rightarrow> bool" where
  "IsFailure r = (r_Status r \<in> {StatusFailed, StatusPartial, StatusAborted, StatusCancelled})"

definition IsTerminal :: "report \<Rightarrow> bool" where
  "IsTerminal r = known (r_Status r)"

text \<open>The loop of \<^verbatim>\<open>aggregateStopOnFailure\<close>; \<open>included\<close> is what it has appended so far.\<close>

fun stopLoop :: "('s, int) act \<Rightarrow> string \<Rightarrow> report list \<Rightarrow> report list \<Rightarrow> ('s, report) act" where
  "stopLoop clock name included [] s = newReport clock name StatusCompleted None '''' included s"
| "stopLoop clock name included (child # children) s =
     (let included' = included @ [child]
      in if r_Status child \<noteq> StatusCompleted
         then newReport clock name (r_Status child) (r_Err child) (r_Reason child) included' s
         else stopLoop clock name included' children s)"

definition aggregateStopOnFailure :: "('s, int) act \<Rightarrow> string \<Rightarrow> report list \<Rightarrow> ('s, report) act" where
  "aggregateStopOnFailure clock name children = stopLoop clock name [] children"

definition aggregateContinueOnFailure :: "('s, int) act \<Rightarrow> string \<Rightarrow> report list \<Rightarrow> ('s, report) act" where
  "aggregateContinueOnFailure clock name children =
     (if list_ex (\<lambda>child. r_Status child \<noteq> StatusCompleted) children
      then newReport clock name StatusPartial None '''' children
      else newReport clock name StatusCompleted None '''' children)"

definition Aggregate ::
  "('s, int) act \<Rightarrow> string \<Rightarrow> int \<Rightarrow> report list \<Rightarrow> ('s, report \<times> workError option) act" where
  "Aggregate clock name policy children s =
     (if \<not> valid policy then ((zeroReport, Some (Typed (FailurePolicyError policy) None)), s)
      else if children = [] then (case Completed clock name s of (r, s') \<Rightarrow> ((r, None), s'))
      else if policy = StopOnFailure
      then (case aggregateStopOnFailure clock name children s of (r, s') \<Rightarrow> ((r, None), s'))
      else if policy = ContinueOnFailure
      then (case aggregateContinueOnFailure clock name children s of (r, s') \<Rightarrow> ((r, None), s'))
      else ((zeroReport, Some (Typed (FailurePolicyError policy) None)), s))"

section \<open>Runners\<close>

definition ErrNilWork :: string where
  "ErrNilWork = ''workflow work must not be nil''"

definition ErrNilPredicate :: string where
  "ErrNilPredicate = ''workflow predicate must not be nil''"

definition ErrTooManyFalseBranches :: string where
  "ErrTooManyFalseBranches = ''workflow conditional accepts at most one false branch''"

definition ErrUnknownReportStatus :: string where
  "ErrUnknownReportStatus = ''workflow work returned unknown report status''"

type_synonym 's wctxt = "('s, workError option) act"

type_synonym 's work = "'s wctxt \<Rightarrow> ('s, report) act"

type_synonym 's predicate = "'s wctxt \<Rightarrow> ('s, bool \<times> workError option) act"

record 's sequentialRunner =
  sq_name :: string
  sq_policy :: int
  sq_works :: "'s work option list"

record 's conditionalRunner =
  cd_name :: string
  cd_predicate :: "'s predicate option"
  cd_trueWork :: "'s work option"
  cd_falseBranch :: "'s work option list"

record 's parallelRunner =
  pl_name :: string
  pl_policy :: int
  pl_works :: "'s work option list"

definition Sequential :: "string \<Rightarrow> int \<Rightarrow> 's work option list \<Rightarrow> 's sequentialRunner" where
  "Sequential name policy works = \<lparr>sq_name = name, sq_policy = policy, sq_works = works\<rparr>"

definition Conditional ::
  "string \<Rightarrow> 's predicate option \<Rightarrow> 's work option \<Rightarrow> 's work option list \<Rightarrow> 's conditionalRunner" where
  "Conditional name predicate trueWork falseWork =
     \<lparr>cd_name = name, cd_predicate = predicate, cd_trueWork = trueWork, cd_falseBranch = falseWork\<rparr>"

definition Parallel :: "string \<Rightarrow> int \<Rightarrow> 's work option list \<Rightarrow> 's parallelRunner" where
  "Parallel name policy works = \<lparr>pl_name = name, pl_policy = policy, pl_works = works\<rparr>"

definition childName :: "string \<Rightarrow> nat \<Rightarrow> string" where
  "childName name index =
     (if name = '''' then ''work['' @ decimal index @ '']'' else name @ ''['' @ decimal index @ '']'')"

definition branchName :: "string \<Rightarrow> string \<Rightarrow> string" where
  "branchName name branch = (if name = '''' then branch else name @ ''.'' @ branch)"

definition normalizeContext :: "'s wctxt option \<Rightarrow> 's wctxt" where
  "normalizeContext ctx = (case ctx of None \<Rightarrow> (\<lambda>s. (None, s)) | Some c \<Rightarrow> c)"

definition isWorkContextError :: "workError \<Rightarrow> bool" where
  "isWorkContextError err = (errors_is workErrorIs err ctxCanceled \<or> errors_is workErrorIs err ctxDeadlineExceeded)"

definition aggregate :: "('s, int) act \<Rightarrow> string \<Rightarrow> int \<Rightarrow> report list \<Rightarrow> ('s, report) act" where
  "aggregate clock name policy children s =
     (case Aggregate clock name policy children s of
        ((report, Some err), s') \<Rightarrow> Failed clock name (Some err) s'
      | ((report, None), s') \<Rightarrow> (report, s'))"

definition validatePolicy :: "('s, int) act \<Rightarrow> int \<Rightarrow> ('s, workError option) act" where
  "validatePolicy clock policy s = (case Aggregate clock '''' policy [] s of ((report, err), s') \<Rightarrow> (err, s'))"

definition parentFrom :: "('s, int) act \<Rightarrow> string \<Rightarrow> report \<Rightarrow> report list \<Rightarrow> ('s, report) act" where
  "parentFrom clock name cause children s =
     (case clock s of
        (now, s') \<Rightarrow> (Report name (r_Status cause) now now (r_Err cause) (r_Reason cause) children, s'))"

text \<open>
  \<^verbatim>\<open>runWork\<close> before the call of the work, given the error of the context, and after it.
\<close>

definition admitWork ::
  "('s, int) act \<Rightarrow> string \<Rightarrow> workError option \<Rightarrow> 'v work option \<Rightarrow> ('s, report + 'v work) act" where
  "admitWork clock name err work s =
     (case err of
        Some e \<Rightarrow> (case Cancelled clock name (Some e) s of (r, s') \<Rightarrow> (Inl r, s'))
      | None \<Rightarrow>
          (case work of
             None \<Rightarrow> (case Failed clock name (Some (Sentinel ErrNilWork)) s of (r, s') \<Rightarrow> (Inl r, s'))
           | Some w \<Rightarrow> (Inr w, s)))"

definition named :: "string \<Rightarrow> report \<Rightarrow> report" where
  "named name r =
     (if r_Name r = '''' then Report name (r_Status r) (r_StartedAt r) (r_EndedAt r) (r_Err r) (r_Reason r) (r_Children r)
      else r)"

definition settleWork :: "('s, int) act \<Rightarrow> string \<Rightarrow> report \<Rightarrow> ('s, report) act" where
  "settleWork clock name report s =
     (let r = named name report
      in if \<not> IsTerminal r then Failed clock (r_Name r) (Some (Sentinel ErrUnknownReportStatus)) s else (r, s))"

definition runWork ::
  "('s, int) act \<Rightarrow> 's wctxt \<Rightarrow> string \<Rightarrow> 's work option \<Rightarrow> ('s, report) act" where
  "runWork clock ctx name work s =
     (case ctx s of
        (err, s1) \<Rightarrow>
          (case admitWork clock name err work s1 of
             (Inl r, s2) \<Rightarrow> (r, s2)
           | (Inr w, s2) \<Rightarrow> (case w ctx s2 of (r, s3) \<Rightarrow> settleWork clock name r s3)))"

definition shouldStopSequential :: "int \<Rightarrow> report \<Rightarrow> bool" where
  "shouldStopSequential policy r =
     (if IsAborted r \<or> IsCancelled r then True else policy = StopOnFailure \<and> \<not> IsSuccess r)"

definition shouldCancelParallel :: "int \<Rightarrow> report \<Rightarrow> bool" where
  "shouldCancelParallel policy r =
     (if IsAborted r \<or> IsCancelled r then True else policy = StopOnFailure \<and> \<not> IsSuccess r)"

fun sequentialLoop ::
  "('s, int) act \<Rightarrow> 's wctxt \<Rightarrow> string \<Rightarrow> int \<Rightarrow> nat \<Rightarrow> 's work option list \<Rightarrow> report list \<Rightarrow> ('s, report) act" where
  "sequentialLoop clock ctx name policy index [] children s = aggregate clock name policy children s"
| "sequentialLoop clock ctx name policy index (work # works) children s =
     (case runWork clock ctx (childName name index) work s of
        (child, s1) \<Rightarrow>
          (let children' = children @ [child]
           in if shouldStopSequential policy child then aggregate clock name StopOnFailure children' s1
              else sequentialLoop clock ctx name policy (index + 1) works children' s1))"

definition sequentialRun ::
  "('s, int) act \<Rightarrow> 's sequentialRunner \<Rightarrow> 's wctxt option \<Rightarrow> ('s, report) act" where
  "sequentialRun clock r context s =
     (let ctx = normalizeContext context
      in case validatePolicy clock (sq_policy r) s of
           (Some err, s1) \<Rightarrow> Failed clock (sq_name r) (Some err) s1
         | (None, s1) \<Rightarrow>
             (case ctx s1 of
                (Some err, s2) \<Rightarrow> Cancelled clock (sq_name r) (Some err) s2
              | (None, s2) \<Rightarrow> sequentialLoop clock ctx (sq_name r) (sq_policy r) 0 (sq_works r) [] s2))"

definition conditionalRun ::
  "('s, int) act \<Rightarrow> 's conditionalRunner \<Rightarrow> 's wctxt option \<Rightarrow> ('s, report) act" where
  "conditionalRun clock r context s =
     (let ctx = normalizeContext context
      in case cd_predicate r of
           None \<Rightarrow> Failed clock (cd_name r) (Some (Sentinel ErrNilPredicate)) s
         | Some predicate \<Rightarrow>
             if 1 < length (cd_falseBranch r) then Failed clock (cd_name r) (Some (Sentinel ErrTooManyFalseBranches)) s
             else
               (case ctx s of
                  (Some err, s1) \<Rightarrow> Cancelled clock (cd_name r) (Some err) s1
                | (None, s1) \<Rightarrow>
                    (case predicate ctx s1 of
                       ((selected, Some err), s2) \<Rightarrow>
                         if isWorkContextError err then Cancelled clock (cd_name r) (Some err) s2
                         else Failed clock (cd_name r) (Some err) s2
                     | ((selected, None), s2) \<Rightarrow>
                         (case ctx s2 of
                            (Some err, s3) \<Rightarrow> Cancelled clock (cd_name r) (Some err) s3
                          | (None, s3) \<Rightarrow>
                              if selected then
                                (case runWork clock ctx (branchName (cd_name r) ''true'') (cd_trueWork r) s3 of
                                   (child, s4) \<Rightarrow> aggregate clock (cd_name r) StopOnFailure [child] s4)
                              else if length (cd_falseBranch r) = 0 then Completed clock (cd_name r) s3
                              else
                                (case runWork clock ctx (branchName (cd_name r) ''false'') (hd (cd_falseBranch r)) s3 of
                                   (child, s4) \<Rightarrow> aggregate clock (cd_name r) StopOnFailure [child] s4)))))"

section \<open>Parallel runs\<close>

text \<open>
  A goroutine of the parallel runner is about to read the context, runs its work, holds the
  report of \<^verbatim>\<open>runWork\<close>, has stored it in its slot, or is done.
\<close>

datatype task = Ready | Running | Returned report | Stored report | Done

text \<open>
  What the goroutines share: the error of the derived context, the slots, whether
  \<^verbatim>\<open>stopOnce\<close> has run and the report it kept.
\<close>

record parState =
  ps_ctxErr :: "workError option"
  ps_results :: "report list"
  ps_stopOnce :: bool
  ps_stopCause :: report
  ps_tasks :: "task list"

definition parInit :: "'s parallelRunner \<Rightarrow> parState" where
  "parInit r =
     \<lparr>ps_ctxErr = None, ps_results = replicate (length (pl_works r)) zeroReport, ps_stopOnce = False,
      ps_stopCause = zeroReport, ps_tasks = replicate (length (pl_works r)) Ready\<rparr>"

text \<open>A goroutine that reads the clock reads some instant \<open>t\<close>.\<close>

definition instant :: "int \<Rightarrow> (unit, int) act" where
  "instant t u = (t, u)"

definition taskAdmit :: "'s parallelRunner \<Rightarrow> nat \<Rightarrow> int \<Rightarrow> parState \<Rightarrow> parState" where
  "taskAdmit r i t p =
     p\<lparr>ps_tasks := (ps_tasks p)[i :=
        (case fst (admitWork (instant t) (childName (pl_name r) i) (ps_ctxErr p) (pl_works r ! i) ()) of
           Inl report \<Rightarrow> Returned report
         | Inr w \<Rightarrow> Running)]\<rparr>"

definition taskReturn :: "'s parallelRunner \<Rightarrow> nat \<Rightarrow> int \<Rightarrow> report \<Rightarrow> parState \<Rightarrow> parState" where
  "taskReturn r i t report p =
     p\<lparr>ps_tasks := (ps_tasks p)[i := Returned (fst (settleWork (instant t) (childName (pl_name r) i) report ()))]\<rparr>"

definition taskStore :: "nat \<Rightarrow> report \<Rightarrow> parState \<Rightarrow> parState" where
  "taskStore i report p =
     p\<lparr>ps_results := (ps_results p)[i := report], ps_tasks := (ps_tasks p)[i := Stored report]\<rparr>"

text \<open>\<^verbatim>\<open>cancel\<close> sets the error of the derived context unless it has one.\<close>

definition taskStop :: "'s parallelRunner \<Rightarrow> nat \<Rightarrow> report \<Rightarrow> parState \<Rightarrow> parState" where
  "taskStop r i report p =
     (let p1 = (if shouldCancelParallel (pl_policy r) report \<and> \<not> ps_stopOnce p
                then p\<lparr>ps_stopOnce := True, ps_stopCause := report,
                       ps_ctxErr := (case ps_ctxErr p of None \<Rightarrow> Some (Sentinel ctxCanceled) | Some e \<Rightarrow> Some e)\<rparr>
                else p)
      in p1\<lparr>ps_tasks := (ps_tasks p1)[i := Done]\<rparr>)"

text \<open>
  \<open>cancels\<close> says whether the caller's context may end during the run, \<open>returns i\<close> which reports
  the work \<open>i\<close> may return.
\<close>

inductive parStep ::
  "'s parallelRunner \<Rightarrow> bool \<Rightarrow> (nat \<Rightarrow> report \<Rightarrow> bool) \<Rightarrow> parState \<Rightarrow> parState \<Rightarrow> bool"
  for r :: "'s parallelRunner" and cancels :: bool and returns :: "nat \<Rightarrow> report \<Rightarrow> bool" where
  par_admit: "i < length (ps_tasks p) \<Longrightarrow> ps_tasks p ! i = Ready \<Longrightarrow> parStep r cancels returns p (taskAdmit r i t p)"
| par_return: "i < length (ps_tasks p) \<Longrightarrow> ps_tasks p ! i = Running \<Longrightarrow> returns i report \<Longrightarrow>
     parStep r cancels returns p (taskReturn r i t report p)"
| par_store: "i < length (ps_tasks p) \<Longrightarrow> ps_tasks p ! i = Returned report \<Longrightarrow>
     parStep r cancels returns p (taskStore i report p)"
| par_stop: "i < length (ps_tasks p) \<Longrightarrow> ps_tasks p ! i = Stored report \<Longrightarrow>
     parStep r cancels returns p (taskStop r i report p)"
| par_caller: "cancels \<Longrightarrow> ps_ctxErr p = None \<Longrightarrow> parStep r cancels returns p (p\<lparr>ps_ctxErr := Some e\<rparr>)"

definition allDone :: "parState \<Rightarrow> bool" where
  "allDone p = list_all (\<lambda>t. t = Done) (ps_tasks p)"

text \<open>What the runner returns after \<^verbatim>\<open>wg.Wait\<close>.\<close>

definition parallelResult :: "('s, int) act \<Rightarrow> 's parallelRunner \<Rightarrow> parState \<Rightarrow> ('s, report) act" where
  "parallelResult clock r p s =
     (if IsTerminal (ps_stopCause p) then parentFrom clock (pl_name r) (ps_stopCause p) (ps_results p) s
      else aggregate clock (pl_name r) (pl_policy r) (ps_results p) s)"

text \<open>\<open>goroutines\<close> runs the started goroutines until \<^verbatim>\<open>wg.Wait\<close> returns.\<close>

definition parallelRun ::
  "('s, int) act \<Rightarrow> 's parallelRunner \<Rightarrow> ('s wctxt \<Rightarrow> parState \<Rightarrow> ('s, parState) act) \<Rightarrow> 's wctxt option \<Rightarrow>
   ('s, report) act" where
  "parallelRun clock r goroutines context s =
     (let ctx = normalizeContext context
      in case validatePolicy clock (pl_policy r) s of
           (Some err, s1) \<Rightarrow> Failed clock (pl_name r) (Some err) s1
         | (None, s1) \<Rightarrow>
             (case ctx s1 of
                (Some err, s2) \<Rightarrow> Cancelled clock (pl_name r) (Some err) s2
              | (None, s2) \<Rightarrow>
                  if length (pl_works r) = 0 then aggregate clock (pl_name r) (pl_policy r) [] s2
                  else (case goroutines ctx (parInit r) s2 of (p, s3) \<Rightarrow> parallelResult clock r p s3)))"

end
