(* ===== verification/Workflow_Runs.thy ===== *)
theory Workflow_Runs
  imports Workflow
begin

text \<open>
  Properties of the runners of \<^verbatim>\<open>workflow\<close>: what a sequential run reports, and the invariant
  and the outcome of parallel runs under every interleaving.
\<close>

section \<open>Reports\<close>

lemma status_neq [simp]:
  "StatusCompleted \<noteq> StatusFailed" "StatusCompleted \<noteq> StatusPartial" "StatusCompleted \<noteq> StatusAborted"
  "StatusCompleted \<noteq> StatusCancelled" "StatusFailed \<noteq> StatusPartial" "StatusFailed \<noteq> StatusAborted"
  "StatusFailed \<noteq> StatusCancelled" "StatusPartial \<noteq> StatusAborted" "StatusPartial \<noteq> StatusCancelled"
  "StatusAborted \<noteq> StatusCancelled"
  by (simp_all add: status_defs)

declare status_neq [symmetric, simp]

lemma policy_neq [simp]: "StopOnFailure \<noteq> ContinueOnFailure" "ContinueOnFailure \<noteq> StopOnFailure"
  by (simp_all add: StopOnFailure_def ContinueOnFailure_def)

lemma known_status [simp]:
  "known StatusCompleted" "known StatusFailed" "known StatusPartial" "known StatusAborted" "known StatusCancelled"
  "\<not> known ''''"
  by (simp_all add: known_def status_defs)

lemmas report_constructors = Completed_def Failed_def Partial_def Aborted_def Cancelled_def

lemmas report_tests = IsSuccess_def IsFailed_def IsPartial_def IsAborted_def IsCancelled_def IsTerminal_def

lemma newReport_sel [simp]:
  "r_Name (fst (newReport clock n st e rs cs s)) = n"
  "r_Status (fst (newReport clock n st e rs cs s)) = st"
  "r_Err (fst (newReport clock n st e rs cs s)) = e"
  "r_Reason (fst (newReport clock n st e rs cs s)) = rs"
  "r_Children (fst (newReport clock n st e rs cs s)) = cs"
  by (simp_all add: newReport_def split: prod.splits)

text \<open>A run that stops keeps the children through the first that is not completed.\<close>

definition stopAt :: "report list \<Rightarrow> report list" where
  "stopAt cs = takeWhile IsSuccess cs @ take 1 (dropWhile IsSuccess cs)"

text \<open>The fields of a parent: its name, what it takes over from its cause, and its children.\<close>

definition parentOf :: "string \<Rightarrow> report \<Rightarrow> report list \<Rightarrow> report \<Rightarrow> bool" where
  "parentOf name cause cs rep \<longleftrightarrow>
     r_Name rep = name \<and> r_Status rep = r_Status cause \<and> r_Err rep = r_Err cause \<and>
     r_Reason rep = r_Reason cause \<and> r_Children rep = cs"

text \<open>A parent without a cause.\<close>

definition summaryOf :: "string \<Rightarrow> status \<Rightarrow> report list \<Rightarrow> report \<Rightarrow> bool" where
  "summaryOf name st cs rep \<longleftrightarrow>
     r_Name rep = name \<and> r_Status rep = st \<and> r_Err rep = None \<and> r_Reason rep = '''' \<and> r_Children rep = cs"

lemma stopAt_Cons: "stopAt (c # cs) = (if IsSuccess c then c # stopAt cs else [c])"
  by (simp add: stopAt_def)

lemma stopAt_all: "list_all IsSuccess cs \<Longrightarrow> stopAt cs = cs"
  by (induction cs) (simp_all add: stopAt_def)

lemma stopAt_fail: "list_all IsSuccess cs \<Longrightarrow> \<not> IsSuccess c \<Longrightarrow> stopAt (cs @ c # ds) = cs @ [c]"
  by (induction cs) (simp_all add: stopAt_def)

lemma stopLoop_completed:
  "list_all IsSuccess cs \<Longrightarrow> summaryOf name StatusCompleted (inc @ cs) (fst (stopLoop clock name inc cs s))"
  by (induction clock name inc cs s rule: stopLoop.induct) (simp_all add: summaryOf_def report_tests)

lemma stopLoop_failed:
  "list_all IsSuccess cs \<Longrightarrow> \<not> IsSuccess c \<Longrightarrow>
   parentOf name c (inc @ cs @ [c]) (fst (stopLoop clock name inc (cs @ c # ds) s))"
  by (induction cs arbitrary: inc) (simp_all add: parentOf_def report_tests)

lemma fst_Aggregate_split: "fst (case p of (r, s') \<Rightarrow> ((r, None), s')) = (fst p, None)"
  by (simp split: prod.splits)

lemma aggregate_valid:
  assumes "valid policy"
  shows "fst (aggregate clock name policy cs s) = fst (fst (Aggregate clock name policy cs s))"
  using assms by (auto simp: aggregate_def Aggregate_def valid_def split: prod.splits)

lemma aggregate_stop_completed:
  "list_all IsSuccess cs \<Longrightarrow> summaryOf name StatusCompleted cs (fst (aggregate clock name StopOnFailure cs s))"
  using stopLoop_completed[of cs name "[]" clock s]
  by (cases "cs = []") (simp_all add: aggregate_valid Aggregate_def valid_def fst_Aggregate_split
    aggregateStopOnFailure_def summaryOf_def Completed_def)

lemma aggregate_stop_failed:
  "list_all IsSuccess cs \<Longrightarrow> \<not> IsSuccess c \<Longrightarrow>
   parentOf name c (cs @ [c]) (fst (aggregate clock name StopOnFailure (cs @ c # ds) s))"
  using stopLoop_failed[of cs c name "[]" clock ds s]
  by (simp add: aggregate_valid Aggregate_def valid_def fst_Aggregate_split aggregateStopOnFailure_def)

lemma aggregate_continue:
  "summaryOf name (if list_all IsSuccess cs then StatusCompleted else StatusPartial) cs
     (fst (aggregate clock name ContinueOnFailure cs s))"
  by (cases "cs = []") (auto simp: aggregate_valid Aggregate_def valid_def fst_Aggregate_split
    aggregateContinueOnFailure_def summaryOf_def Completed_def report_tests list_all_iff list_ex_iff)

section \<open>Works\<close>

text \<open>Whatever a work returns, \<^verbatim>\<open>runWork\<close> hands on a report with a known status and a name.\<close>

lemma settleWork_terminal: "IsTerminal (fst (settleWork clock name rep s))"
  by (simp add: settleWork_def Let_def report_tests Failed_def)

lemma admitWork_terminal: "fst (admitWork clock name err w s) = Inl rep \<Longrightarrow> IsTerminal rep"
  by (auto simp: admitWork_def Cancelled_def Failed_def newReport_def report_tests split: option.splits prod.splits)

lemma runWork_terminal: "IsTerminal (fst (runWork clock ctx name w s))"
  unfolding runWork_def
  by (auto simp: settleWork_terminal split: prod.splits sum.splits)
     (metis admitWork_terminal fst_conv)

section \<open>Sequential runs\<close>

text \<open>The reference: all works of a list one after the other, with no regard to their reports.\<close>

fun runAll ::
  "('s, int) act \<Rightarrow> 's wctxt \<Rightarrow> string \<Rightarrow> nat \<Rightarrow> 's work option list \<Rightarrow> ('s, report list) act" where
  "runAll clock ctx name index [] s = ([], s)"
| "runAll clock ctx name index (w # ws) s =
     (let (c, s1) = runWork clock ctx (childName name index) w s;
          (cs, s2) = runAll clock ctx name (index + 1) ws s1
      in (c # cs, s2))"

lemma sequentialLoop_through:
  assumes "runAll clock ctx name i ws s = (cs, s1)" and "list_all (\<lambda>c. \<not> shouldStopSequential policy c) cs"
  shows "sequentialLoop clock ctx name policy i (ws @ ws') inc s =
         sequentialLoop clock ctx name policy (i + length ws) ws' (inc @ cs) s1"
  using assms
proof (induction ws arbitrary: i s cs inc)
  case Nil
  then show ?case by simp
next
  case (Cons w ws)
  obtain c t where c: "runWork clock ctx (childName name i) w s = (c, t)" by (rule prod.exhaust)
  obtain cs' t' where cs': "runAll clock ctx name (i + 1) ws t = (cs', t')" by (rule prod.exhaust)
  have cs: "cs = c # cs'" "t' = s1" using Cons.prems(1) c cs' by simp_all
  then have "list_all (\<lambda>c. \<not> shouldStopSequential policy c) cs'" "\<not> shouldStopSequential policy c"
    using Cons.prems(2) by simp_all
  with Cons.IH[of "i + 1" t cs' "inc @ [c]"] cs' cs show ?case by (simp add: c)
qed

text \<open>A run goes through all works, or stops at the first report that stops it.\<close>

lemma sequentialLoop_split:
  "(\<exists>cs t. runAll clock ctx name i ws s = (cs, t) \<and> list_all (\<lambda>c. \<not> shouldStopSequential policy c) cs \<and>
      sequentialLoop clock ctx name policy i ws inc s = aggregate clock name policy (inc @ cs) t) \<or>
   (\<exists>ws1 w ws2 cs c t. ws = ws1 @ w # ws2 \<and> runAll clock ctx name i (ws1 @ [w]) s = (cs @ [c], t) \<and>
      list_all (\<lambda>c. \<not> shouldStopSequential policy c) cs \<and> shouldStopSequential policy c \<and>
      sequentialLoop clock ctx name policy i ws inc s = aggregate clock name StopOnFailure (inc @ cs @ [c]) t)"
  (is "?through i ws s inc \<or> ?stops i ws s inc")
proof (induction ws arbitrary: i s inc)
  case Nil
  then show ?case by simp
next
  case (Cons w ws)
  obtain c t where c: "runWork clock ctx (childName name i) w s = (c, t)" by (rule prod.exhaust)
  show ?case
  proof (cases "shouldStopSequential policy c")
    case True
    then have "?stops i (w # ws) s inc"
      by (intro exI[of _ "[]"] exI[of _ w] exI[of _ ws] exI[of _ c] exI[of _ t]) (simp add: c)
    then show ?thesis ..
  next
    case False
    from Cons.IH[of "i + 1" t "inc @ [c]"] show ?thesis
    proof (elim disjE exE conjE)
      fix cs t'
      assume "runAll clock ctx name (i + 1) ws t = (cs, t')" "list_all (\<lambda>c. \<not> shouldStopSequential policy c) cs"
        "sequentialLoop clock ctx name policy (i + 1) ws (inc @ [c]) t = aggregate clock name policy ((inc @ [c]) @ cs) t'"
      with False have "?through i (w # ws) s inc"
        by (intro exI[of _ "c # cs"] exI[of _ t']) (simp add: c)
      then show ?thesis ..
    next
      fix ws1 v ws2 cs d t'
      assume "ws = ws1 @ v # ws2" "runAll clock ctx name (i + 1) (ws1 @ [v]) t = (cs @ [d], t')"
        "list_all (\<lambda>c. \<not> shouldStopSequential policy c) cs" "shouldStopSequential policy d"
        "sequentialLoop clock ctx name policy (i + 1) ws (inc @ [c]) t =
         aggregate clock name StopOnFailure ((inc @ [c]) @ cs @ [d]) t'"
      with False have "?stops i (w # ws) s inc"
        by (intro exI[of _ "w # ws1"] exI[of _ v] exI[of _ ws2] exI[of _ "c # cs"] exI[of _ d] exI[of _ t'])
          (simp add: c)
      then show ?thesis ..
    qed
  qed
qed

lemma runAll_snoc:
  "runAll clock ctx name i (ws @ [w]) s =
     (let (cs, s1) = runAll clock ctx name i ws s;
          (c, s2) = runWork clock ctx (childName name (i + length ws)) w s1
      in (cs @ [c], s2))"
  by (induction ws arbitrary: i s) (simp_all split: prod.splits)

lemma runAll_terminal: "list_all IsTerminal (fst (runAll clock ctx name i ws s))"
proof (induction ws arbitrary: i s)
  case (Cons w ws)
  show ?case
    using runWork_terminal[of clock ctx "childName name i" w s] Cons.IH
    by (auto simp: split: prod.splits) (metis fst_conv)
qed simp

text \<open>The checks before the loop: they read the clock once and the context once.\<close>

lemma validatePolicy_valid: "valid policy \<Longrightarrow> clock s = (t, s') \<Longrightarrow> validatePolicy clock policy s = (None, s')"
  by (simp add: validatePolicy_def Aggregate_def Completed_def newReport_def)

lemma sequentialRun_loop:
  assumes "valid (sq_policy r)" and "clock s = (t0, s0)" and "normalizeContext context s0 = (None, s1)"
  shows "sequentialRun clock r context s =
         sequentialLoop clock (normalizeContext context) (sq_name r) (sq_policy r) 0 (sq_works r) [] s1"
  using assms by (simp add: sequentialRun_def validatePolicy_valid Let_def)

lemma shouldStopSequential_iff:
  "shouldStopSequential policy c \<longleftrightarrow> IsAborted c \<or> IsCancelled c \<or> (policy = StopOnFailure \<and> \<not> IsSuccess c)"
  by (simp add: shouldStopSequential_def)

lemma not_stopped_success:
  "list_all (\<lambda>c. \<not> shouldStopSequential StopOnFailure c) cs \<Longrightarrow> list_all IsSuccess cs"
  by (auto simp: shouldStopSequential_iff list_all_iff)

lemma stopped_not_success: "shouldStopSequential policy c \<Longrightarrow> \<not> IsSuccess c"
  by (auto simp: shouldStopSequential_def report_tests split: if_splits)

text \<open>An aggregation reads the clock once and does nothing else.\<close>

lemma newReport_state: "snd (newReport clock n st e rs cs s) = snd (clock s)"
  by (simp add: newReport_def split: prod.splits)

lemma stopLoop_state: "snd (stopLoop clock name inc cs s) = snd (clock s)"
  by (induction cs arbitrary: inc) (simp_all add: newReport_state Let_def)

lemma aggregate_state:
  assumes "valid policy"
  shows "snd (aggregate clock name policy cs s) = snd (clock s)"
  using assms newReport_state[of clock name _ _ _ _ s] stopLoop_state[of clock name "[]" cs s]
  by (auto simp: aggregate_def Aggregate_def valid_def aggregateStopOnFailure_def aggregateContinueOnFailure_def Completed_def
      split: prod.splits) (metis snd_conv)+

text \<open>
  C21. A sequential run executes a prefix of its works, in order, and stops only after a report
  that stops it. With \<^verbatim>\<open>StopOnFailure\<close> the parent holds the reports of all executed works; it is
  completed exactly when all works were executed and completed, and otherwise takes status,
  error and reason from the last. With \<^verbatim>\<open>ContinueOnFailure\<close> and no aborted or cancelled report
  every work is executed and the parent is completed or partial; when a report that aborts or
  cancels is the first that is not completed, the parent takes it over. Nothing is executed beyond
  that prefix: the run ends in the state after these works and the clock reading of the parent.
\<close>

theorem sequential_report:
  assumes "valid (sq_policy r)" and "clock s = (t0, s0)" and "normalizeContext context s0 = (None, s1)"
    and "sequentialRun clock r context s = (rep, s')"
  shows "\<exists>ran rest cs t. sq_works r = ran @ rest \<and>
    runAll clock (normalizeContext context) (sq_name r) 0 ran s1 = (cs, t) \<and> s' = snd (clock t) \<and>
    list_all (\<lambda>c. \<not> shouldStopSequential (sq_policy r) c) (butlast cs) \<and>
    (rest \<noteq> [] \<longrightarrow> cs \<noteq> [] \<and> shouldStopSequential (sq_policy r) (last cs)) \<and>
    (sq_policy r = StopOnFailure \<longrightarrow>
       (if list_all IsSuccess cs then rest = [] \<and> summaryOf (sq_name r) StatusCompleted cs rep
        else parentOf (sq_name r) (last cs) cs rep)) \<and>
    (sq_policy r = ContinueOnFailure \<and> list_all (\<lambda>c. \<not> IsAborted c \<and> \<not> IsCancelled c) cs \<longrightarrow>
       rest = [] \<and> summaryOf (sq_name r) (if list_all IsSuccess cs then StatusCompleted else StatusPartial) cs rep) \<and>
    (sq_policy r = ContinueOnFailure \<and> cs \<noteq> [] \<and> (IsAborted (last cs) \<or> IsCancelled (last cs)) \<and>
       list_all IsSuccess (butlast cs) \<longrightarrow> parentOf (sq_name r) (last cs) cs rep)"
proof -
  let ?ctx = "normalizeContext context" and ?name = "sq_name r" and ?policy = "sq_policy r"
  have loop: "(rep, s') = sequentialLoop clock ?ctx ?name ?policy 0 (sq_works r) [] s1"
    using assms by (simp add: sequentialRun_loop[symmetric])
  then have rep: "rep = fst (sequentialLoop clock ?ctx ?name ?policy 0 (sq_works r) [] s1)" by (metis fst_conv)
  have state: "s' = snd (clock t)" if "sequentialLoop clock ?ctx ?name ?policy 0 (sq_works r) [] s1 = aggregate clock ?name q cs t"
    "valid q" for q cs t using loop that aggregate_state[of q clock ?name cs t] by (metis snd_conv)
  from sequentialLoop_split[of clock ?ctx ?name 0 "sq_works r" s1 ?policy "[]"] show ?thesis
  proof (elim disjE exE conjE)
    fix cs t
    assume run: "runAll clock ?ctx ?name 0 (sq_works r) s1 = (cs, t)"
      and go: "list_all (\<lambda>c. \<not> shouldStopSequential ?policy c) cs"
      and agg: "sequentialLoop clock ?ctx ?name ?policy 0 (sq_works r) [] s1 = aggregate clock ?name ?policy ([] @ cs) t"
    have rep_agg: "rep = fst (aggregate clock ?name ?policy cs t)" by (simp only: rep agg append_Nil)
    have "list_all (\<lambda>c. \<not> shouldStopSequential ?policy c) (butlast cs)"
      using go by (auto simp: list_all_iff dest: in_set_butlastD)
    moreover have "?policy = StopOnFailure \<Longrightarrow> list_all IsSuccess cs \<and> summaryOf ?name StatusCompleted cs rep"
      using go not_stopped_success aggregate_stop_completed[of cs ?name clock t] by (simp add: rep_agg)
    moreover have "?policy = ContinueOnFailure \<Longrightarrow>
        summaryOf ?name (if list_all IsSuccess cs then StatusCompleted else StatusPartial) cs rep"
      using aggregate_continue[of ?name cs clock t] by (simp add: rep_agg)
    moreover have "cs \<noteq> [] \<Longrightarrow> \<not> IsAborted (last cs) \<and> \<not> IsCancelled (last cs)"
      using go by (auto simp: list_all_iff shouldStopSequential_iff)
    ultimately show ?thesis
      by (intro exI[of _ "sq_works r"] exI[of _ "[]"] exI[of _ cs] exI[of _ t]) (use run state[OF agg assms(1)] in auto)
  next
    fix ws1 w ws2 cs c t
    assume works: "sq_works r = ws1 @ w # ws2" and run: "runAll clock ?ctx ?name 0 (ws1 @ [w]) s1 = (cs @ [c], t)"
      and go: "list_all (\<lambda>c. \<not> shouldStopSequential ?policy c) cs" and stop: "shouldStopSequential ?policy c"
      and agg: "sequentialLoop clock ?ctx ?name ?policy 0 (sq_works r) [] s1 =
        aggregate clock ?name StopOnFailure ([] @ cs @ [c]) t"
    have parent: "list_all IsSuccess cs \<Longrightarrow> parentOf ?name c (cs @ [c]) rep"
      using aggregate_stop_failed[of cs c ?name clock "[]" t] stopped_not_success[OF stop]
      by (simp add: rep agg del: sequentialLoop.simps)
    have "?policy = StopOnFailure \<Longrightarrow> list_all IsSuccess cs" using go not_stopped_success by simp
    moreover have "?policy = ContinueOnFailure \<Longrightarrow> IsAborted c \<or> IsCancelled c"
      using stop by (simp add: shouldStopSequential_def split: if_splits)
    ultimately show ?thesis
      using go stop parent stopped_not_success[OF stop]
      by (intro exI[of _ "ws1 @ [w]"] exI[of _ ws2] exI[of _ "cs @ [c]"] exI[of _ t])
        (use works run state[OF agg] in \<open>auto simp: valid_def\<close>)
  qed
qed

text \<open>Works for the witnesses: each returns the same report whenever it is called.\<close>

definition sampleReport :: "string \<Rightarrow> status \<Rightarrow> report" where
  "sampleReport name st = Report name st 5 5 None '''' []"

definition sampleWork :: "string \<Rightarrow> status \<Rightarrow> unit work option" where
  "sampleWork name st = Some (\<lambda>ctx s. (sampleReport name st, s))"

definition sampleSequence :: "int \<Rightarrow> status \<Rightarrow> unit sequentialRunner" where
  "sampleSequence policy st =
     Sequential ''import'' policy [sampleWork ''read'' StatusFailed, sampleWork ''write'' st, None]"

lemma sampleWork_run [simp]:
  "known st \<Longrightarrow> name \<noteq> '''' \<Longrightarrow>
   runWork clock (normalizeContext None) label (sampleWork name st) s = (sampleReport name st, s)"
  by (simp add: runWork_def normalizeContext_def sampleWork_def sampleReport_def admitWork_def settleWork_def
    named_def report_tests)

lemma sampleSequence_sel [simp]:
  "sq_name (sampleSequence policy st) = ''import''" "sq_policy (sampleSequence policy st) = policy"
  "sq_works (sampleSequence policy st) = [sampleWork ''read'' StatusFailed, sampleWork ''write'' st, None]"
  by (simp_all add: sampleSequence_def Sequential_def)

theorem sequential_report_witness:
  "\<exists>ran rest cs t. [sampleWork ''read'' StatusFailed, sampleWork ''write'' StatusCompleted, None] = ran @ rest \<and>
     runAll (instant 5) (normalizeContext None) ''import'' 0 ran () = (cs, t) \<and>
     (if list_all IsSuccess cs then rest = [] else
      parentOf ''import'' (last cs) cs
        (fst (sequentialRun (instant 5) (sampleSequence StopOnFailure StatusCompleted) None ())))"
proof -
  let ?r = "sampleSequence StopOnFailure StatusCompleted"
  obtain rep s' where run: "sequentialRun (instant 5) ?r None () = (rep, s')" by (rule prod.exhaust)
  have "valid (sq_policy ?r)" "instant 5 () = (5, ())" "normalizeContext None () = (None :: workError option, ())"
    by (simp_all add: valid_def normalizeContext_def instant_def)
  from sequential_report[OF this run] obtain ran rest cs t where "sq_works ?r = ran @ rest"
      and "runAll (instant 5) (normalizeContext None) (sq_name ?r) 0 ran () = (cs, t)"
      and "sq_policy ?r = StopOnFailure \<longrightarrow> (if list_all IsSuccess cs
        then rest = [] \<and> summaryOf (sq_name ?r) StatusCompleted cs rep else parentOf (sq_name ?r) (last cs) cs rep)"
    by (elim exE conjE) (rule that; assumption)
  then show ?thesis
    by (intro exI[of _ ran] exI[of _ rest] exI[of _ cs] exI[of _ t]) (simp add: run split: if_splits)
qed

lemma first_failure:
  "\<not> list_all IsSuccess cs \<Longrightarrow> \<exists>ds d es. cs = ds @ d # es \<and> list_all IsSuccess ds \<and> \<not> IsSuccess d"
  using split_list_first_prop[of cs "\<lambda>c. \<not> IsSuccess c"] by (fastforce simp: list_all_iff)

text \<open>
  C22. A sequence that continues on failure hides a cancellation that follows a failure: when a
  work failed and a later one is aborted or cancelled, the run stops there but the parent takes
  the status, error and reason of the first failure, is itself neither aborted nor cancelled,
  and its children end before the report that stopped the run.
\<close>

theorem sequential_cancel_masked:
  assumes "sq_policy r = ContinueOnFailure" and "clock s = (t0, s0)" and "normalizeContext context s0 = (None, s1)"
    and "sequentialRun clock r context s = (rep, s')" and "sq_works r = ws @ w # ws'"
    and "runAll clock (normalizeContext context) (sq_name r) 0 (ws @ [w]) s1 = (cs @ [c], t)"
    and "list_all (\<lambda>c. \<not> IsAborted c \<and> \<not> IsCancelled c) cs" and "IsAborted c \<or> IsCancelled c"
    and "\<not> list_all IsSuccess cs"
  shows "\<exists>ds d es. cs = ds @ d # es \<and> list_all IsSuccess ds \<and> (IsFailed d \<or> IsPartial d) \<and>
    parentOf (sq_name r) d (ds @ [d]) rep \<and> \<not> IsAborted rep \<and> \<not> IsCancelled rep"
proof -
  let ?ctx = "normalizeContext context" and ?name = "sq_name r"
  obtain cs' t' where run: "runAll clock ?ctx ?name 0 ws s1 = (cs', t')" by (rule prod.exhaust)
  obtain c' t'' where work: "runWork clock ?ctx (childName ?name (length ws)) w t' = (c', t'')" by (rule prod.exhaust)
  have eq: "cs' = cs" "c' = c" "t'' = t"
    using assms(6) by (simp_all add: runAll_snoc run work)
  have go: "list_all (\<lambda>c. \<not> shouldStopSequential ContinueOnFailure c) cs"
    using assms(7) by (simp add: list_all_iff shouldStopSequential_def)
  have "sequentialRun clock r context s =
      sequentialLoop clock ?ctx ?name ContinueOnFailure (length ws) (w # ws') cs t'"
    using assms(1-5) run go
    by (simp add: eq sequentialRun_loop valid_def sequentialLoop_through[where inc = "[]", simplified])
  also have "\<dots> = aggregate clock ?name StopOnFailure (cs @ [c]) t"
    using assms(8) work by (simp add: eq shouldStopSequential_def)
  finally have rep: "rep = fst (aggregate clock ?name StopOnFailure (cs @ [c]) t)" using assms(4) by (metis fst_conv)
  obtain ds d es where cs: "cs = ds @ d # es" "list_all IsSuccess ds" "\<not> IsSuccess d"
    using first_failure[OF assms(9)] by blast
  have "IsTerminal d" using runAll_terminal[of clock ?ctx ?name 0 ws s1] by (simp add: run eq cs)
  moreover have "\<not> IsAborted d" "\<not> IsCancelled d" using assms(7) by (simp_all add: cs)
  ultimately have "IsFailed d \<or> IsPartial d"
    using cs(3) by (auto simp: report_tests known_def)
  moreover have "parentOf ?name d (ds @ [d]) rep"
    using aggregate_stop_failed[OF cs(2,3), of ?name clock "es @ [c]" t] by (simp add: rep cs)
  ultimately show ?thesis
    using cs \<open>\<not> IsAborted d\<close> \<open>\<not> IsCancelled d\<close> by (fastforce simp: parentOf_def report_tests)
qed

theorem sequential_cancel_masked_witness:
  "IsFailed (fst (sequentialRun (instant 5) (sampleSequence ContinueOnFailure StatusCancelled) None ())) \<and>
   length (r_Children (fst (sequentialRun (instant 5) (sampleSequence ContinueOnFailure StatusCancelled) None ()))) = 1"
proof -
  let ?r = "sampleSequence ContinueOnFailure StatusCancelled"
  obtain rep s' where run: "sequentialRun (instant 5) ?r None () = (rep, s')" by (rule prod.exhaust)
  have start: "sq_policy ?r = ContinueOnFailure" "instant 5 () = (5, ())"
      "normalizeContext None () = (None :: workError option, ())"
      "sq_works ?r = [sampleWork ''read'' StatusFailed] @ sampleWork ''write'' StatusCancelled # [None]"
    by (simp_all add: normalizeContext_def instant_def)
  have reports: "runAll (instant 5) (normalizeContext None) (sq_name ?r) 0
        ([sampleWork ''read'' StatusFailed] @ [sampleWork ''write'' StatusCancelled]) () =
      ([sampleReport ''read'' StatusFailed] @ [sampleReport ''write'' StatusCancelled], ())"
      "list_all (\<lambda>c. \<not> IsAborted c \<and> \<not> IsCancelled c) [sampleReport ''read'' StatusFailed]"
      "IsAborted (sampleReport ''write'' StatusCancelled) \<or> IsCancelled (sampleReport ''write'' StatusCancelled)"
      "\<not> list_all IsSuccess [sampleReport ''read'' StatusFailed]"
    by (simp_all add: sampleReport_def report_tests)
  from sequential_cancel_masked[OF start(1-3) run start(4) reports] obtain ds d es
    where "[sampleReport ''read'' StatusFailed] = ds @ d # es" "parentOf (sq_name ?r) d (ds @ [d]) rep"
    by (elim exE conjE) (rule that; assumption)
  then show ?thesis
    by (auto simp: run parentOf_def sampleReport_def report_tests Cons_eq_append_conv)
qed

section \<open>Parallel runs\<close>


text \<open>
  A report of the work itself: its settled result, or the failure of a nil work. The other
  reports say that the context had ended before the work was called.
\<close>

definition ownReport :: "'s parallelRunner \<Rightarrow> (nat \<Rightarrow> report \<Rightarrow> bool) \<Rightarrow> nat \<Rightarrow> report \<Rightarrow> bool" where
  "ownReport r returns i rep \<longleftrightarrow>
     pl_works r ! i = None \<and> IsFailed rep \<and> r_Err rep = Some (Sentinel ErrNilWork) \<and> r_Name rep = childName (pl_name r) i \<or>
     pl_works r ! i \<noteq> None \<and> (\<exists>t raw. returns i raw \<and> rep = fst (settleWork (instant t) (childName (pl_name r) i) raw ()))"

definition fromWork :: "'s parallelRunner \<Rightarrow> (nat \<Rightarrow> report \<Rightarrow> bool) \<Rightarrow> nat \<Rightarrow> report \<Rightarrow> bool" where
  "fromWork r returns i rep \<longleftrightarrow>
     ownReport r returns i rep \<or> IsCancelled rep \<and> r_Err rep \<noteq> None \<and> r_Name rep = childName (pl_name r) i"

text \<open>
  What holds of a goroutine and its slot: \<open>P\<close> of its report, and \<open>stopped\<close>, whether \<^verbatim>\<open>stopOnce\<close> has
  run, when the report stops the run.
\<close>

fun taskInv :: "(report \<Rightarrow> bool) \<Rightarrow> int \<Rightarrow> bool \<Rightarrow> bool \<Rightarrow> task \<Rightarrow> report \<Rightarrow> bool" where
  "taskInv P policy started stopped Ready slot = True"
| "taskInv P policy started stopped Running slot = started"
| "taskInv P policy started stopped (Returned rep) slot = (IsTerminal rep \<and> P rep)"
| "taskInv P policy started stopped (Stored rep) slot = (IsTerminal rep \<and> P rep \<and> slot = rep)"
| "taskInv P policy started stopped Done slot = (IsTerminal slot \<and> P slot \<and> (shouldCancelParallel policy slot \<longrightarrow> stopped))"

definition causeInv :: "'s parallelRunner \<Rightarrow> bool \<Rightarrow> (nat \<Rightarrow> report \<Rightarrow> bool) \<Rightarrow> parState \<Rightarrow> bool" where
  "causeInv r cancels returns p \<longleftrightarrow>
     (if ps_stopOnce p
      then shouldCancelParallel (pl_policy r) (ps_stopCause p) \<and> IsTerminal (ps_stopCause p) \<and>
        (\<exists>i < length (pl_works r). ps_tasks p ! i = Done \<and> ps_results p ! i = ps_stopCause p \<and>
           (cancels \<or> ownReport r returns i (ps_stopCause p)))
      else ps_stopCause p = zeroReport \<and>
        (cancels \<or> ps_ctxErr p = None \<and>
           (\<forall>i < length (pl_works r). \<forall>rep. ps_tasks p ! i \<in> {Returned rep, Stored rep} \<longrightarrow> ownReport r returns i rep)))"

definition parInv :: "'s parallelRunner \<Rightarrow> bool \<Rightarrow> (nat \<Rightarrow> report \<Rightarrow> bool) \<Rightarrow> parState \<Rightarrow> bool" where
  "parInv r cancels returns p \<longleftrightarrow>
     length (ps_results p) = length (pl_works r) \<and> length (ps_tasks p) = length (pl_works r) \<and>
     (\<forall>i < length (pl_works r). taskInv (fromWork r returns i) (pl_policy r) (pl_works r ! i \<noteq> None) (ps_stopOnce p)
        (ps_tasks p ! i) (ps_results p ! i)) \<and> causeInv r cancels returns p"


lemma taskInv_stopped: "taskInv P policy started stopped task slot \<Longrightarrow> taskInv P policy started True task slot"
  by (cases task) auto

lemma parInv_task:
  assumes "parInv r cancels returns p" and "i < length (ps_tasks p)" and "ps_tasks p ! i \<noteq> Done"
    and "q = Running \<and> pl_works r ! i \<noteq> None \<or> (\<exists>rep. q = Returned rep \<and> IsTerminal rep \<and> fromWork r returns i rep \<and> (cancels \<or> ps_stopOnce p \<or> ownReport r returns i rep))"
  shows "parInv r cancels returns (p\<lparr>ps_tasks := (ps_tasks p)[i := q]\<rparr>)"
proof -
  have "causeInv r cancels returns (p\<lparr>ps_tasks := (ps_tasks p)[i := q]\<rparr>)"
    using assms by (auto simp: parInv_def causeInv_def nth_list_update)
  then show ?thesis using assms by (auto simp: parInv_def nth_list_update)
qed

lemma admitWork_own:
  assumes "fst (admitWork (instant t) (childName (pl_name r) i) None (pl_works r ! i) ()) = Inl rep"
  shows "ownReport r returns i rep"
  using assms by (auto simp: admitWork_def ownReport_def Failed_def newReport_def report_tests split: option.splits prod.splits)

lemma admitWork_from:
  "fst (admitWork (instant t) (childName (pl_name r) i) e (pl_works r ! i) ()) = Inl rep \<Longrightarrow> fromWork r returns i rep"
  by (auto simp: admitWork_def fromWork_def ownReport_def Failed_def Cancelled_def newReport_def report_tests
      split: option.splits prod.splits)

lemma admitWork_started: "fst (admitWork clock n e w s) = Inr v \<Longrightarrow> w \<noteq> None"
  by (auto simp: admitWork_def split: option.splits prod.splits)

lemma taskAdmit_inv [step_inv]:
  assumes "parInv r cancels returns p" and "i < length (ps_tasks p)" and "ps_tasks p ! i = Ready"
  shows "parInv r cancels returns (taskAdmit r i t p)"
proof -
  let ?a = "fst (admitWork (instant t) (childName (pl_name r) i) (ps_ctxErr p) (pl_works r ! i) ())"
  have "cancels \<or> ps_stopOnce p \<or> ownReport r returns i rep" if "?a = Inl rep" for rep
    using assms(1) that admitWork_own[of t r i rep returns] by (auto simp: parInv_def causeInv_def split: if_splits)
  then show ?thesis
    unfolding taskAdmit_def using assms
    by (intro parInv_task) (auto split: sum.splits dest: admitWork_terminal admitWork_from admitWork_started)
qed

lemma taskReturn_inv [step_inv]:
  assumes "parInv r cancels returns p" and "i < length (ps_tasks p)" and "ps_tasks p ! i = Running" and "returns i rep"
  shows "parInv r cancels returns (taskReturn r i t rep p)"
proof -
  let ?rep = "fst (settleWork (instant t) (childName (pl_name r) i) rep ())"
  have "pl_works r ! i \<noteq> None" using assms unfolding parInv_def by (metis taskInv.simps(2))
  then have "ownReport r returns i ?rep" using assms(4) by (auto simp: ownReport_def)
  then show ?thesis unfolding taskReturn_def using assms
    by (intro parInv_task) (auto simp: settleWork_terminal fromWork_def)
qed

lemma taskStore_inv [step_inv]:
  assumes "parInv r cancels returns p" and "i < length (ps_tasks p)" and "ps_tasks p ! i = Returned rep"
  shows "parInv r cancels returns (taskStore i rep p)"
proof -
  have "IsTerminal rep" "fromWork r returns i rep" using assms unfolding parInv_def by (metis taskInv.simps(3))+
  moreover have "causeInv r cancels returns (taskStore i rep p)"
  proof (cases "ps_stopOnce p")
    case True
    then obtain j where "j < length (pl_works r)" "ps_tasks p ! j = Done" "ps_results p ! j = ps_stopCause p"
        "cancels \<or> ownReport r returns j (ps_stopCause p)"
      using assms by (auto simp: parInv_def causeInv_def)
    then show ?thesis
      using True assms by (auto simp: parInv_def causeInv_def taskStore_def nth_list_update intro!: exI[of _ j])
  qed (use assms in \<open>auto simp: parInv_def causeInv_def taskStore_def nth_list_update\<close>)
  ultimately show ?thesis using assms by (auto simp: parInv_def taskStore_def nth_list_update)
qed

lemma taskStop_inv [step_inv]:
  assumes "parInv r cancels returns p" and "i < length (ps_tasks p)" and "ps_tasks p ! i = Stored rep"
  shows "parInv r cancels returns (taskStop r i rep p)"
proof -
  have i: "i < length (pl_works r)" and own: "IsTerminal rep" "ps_results p ! i = rep" "fromWork r returns i rep"
    using assms unfolding parInv_def by (metis taskInv.simps(4))+
  have "causeInv r cancels returns (taskStop r i rep p)"
  proof (cases "ps_stopOnce p")
    case True
    then obtain j where "j < length (pl_works r)" "ps_tasks p ! j = Done" "ps_results p ! j = ps_stopCause p"
        "cancels \<or> ownReport r returns j (ps_stopCause p)"
      using assms by (auto simp: parInv_def causeInv_def)
    then show ?thesis
      using True assms by (auto simp: parInv_def causeInv_def taskStop_def nth_list_update intro!: exI[of _ j])
  next
    case False
    then show ?thesis
      using assms i own by (auto simp: parInv_def causeInv_def taskStop_def Let_def nth_list_update intro!: exI[of _ i])
  qed
  then show ?thesis
    using assms own by (auto simp: parInv_def taskStop_def Let_def nth_list_update dest: taskInv_stopped)
qed

lemma caller_inv [step_inv]:
  "parInv r cancels returns p \<Longrightarrow> cancels \<Longrightarrow> parInv r cancels returns (p\<lparr>ps_ctxErr := Some e\<rparr>)"
  by (auto simp: parInv_def causeInv_def split: if_splits)





lemma zeroReport_not_terminal [simp]: "\<not> IsTerminal zeroReport"
  by (simp add: zeroReport_def report_tests)











end
