(* ===== verification/Runes.thy ===== *)
theory Runes
  imports Go_Strings
begin

text \<open>
  Runes of a Go string: decoding as \<^verbatim>\<open>range\<close> over a string and \<^verbatim>\<open>utf8.DecodeRuneInString\<close> do it,
  where a byte that begins no valid sequence is \<^verbatim>\<open>utf8.RuneError\<close> of width one, and encoding as
  \<^verbatim>\<open>string(r)\<close> and \<^verbatim>\<open>WriteRune\<close> do it.
\<close>

type_synonym rune = nat

definition runeError :: rune where
  "runeError = 0xFFFD"

section \<open>Decoding\<close>

abbreviation continuation :: "nat \<Rightarrow> bool" where
  "continuation b \<equiv> 0x80 \<le> b \<and> b \<le> 0xBF"

text \<open>The range of the second byte depends on the first: no overlong forms, surrogates or large values.\<close>

definition secondByte :: "nat \<Rightarrow> nat \<Rightarrow> bool" where
  "secondByte b c =
     (if b = 0xE0 then 0xA0 \<le> c \<and> c \<le> 0xBF
      else if b = 0xED then 0x80 \<le> c \<and> c \<le> 0x9F
      else if b = 0xF0 then 0x90 \<le> c \<and> c \<le> 0xBF
      else if b = 0xF4 then 0x80 \<le> c \<and> c \<le> 0x8F
      else continuation c)"

definition decodeBytes :: "nat list \<Rightarrow> rune \<times> nat" where
  "decodeBytes bs =
     (case bs of
        [] \<Rightarrow> (runeError, 0)
      | b # rest \<Rightarrow>
          if b < 0x80 then (b, 1)
          else if 0xC2 \<le> b \<and> b \<le> 0xDF then
            (case rest of
               c # _ \<Rightarrow> if secondByte b c then ((b - 0xC0) * 64 + (c - 0x80), 2) else (runeError, 1)
             | _ \<Rightarrow> (runeError, 1))
          else if 0xE0 \<le> b \<and> b \<le> 0xEF then
            (case rest of
               c # d # _ \<Rightarrow>
                 if secondByte b c \<and> continuation d
                 then ((b - 0xE0) * 4096 + (c - 0x80) * 64 + (d - 0x80), 3) else (runeError, 1)
             | _ \<Rightarrow> (runeError, 1))
          else if 0xF0 \<le> b \<and> b \<le> 0xF4 then
            (case rest of
               c # d # e # _ \<Rightarrow>
                 if secondByte b c \<and> continuation d \<and> continuation e
                 then ((b - 0xF0) * 262144 + (c - 0x80) * 4096 + (d - 0x80) * 64 + (e - 0x80), 4)
                 else (runeError, 1)
             | _ \<Rightarrow> (runeError, 1))
          else (runeError, 1))"

definition decodeRune :: "string \<Rightarrow> rune \<times> nat" where
  "decodeRune s = decodeBytes (map of_char s)"

lemma decodeRune_width: "s \<noteq> [] \<Longrightarrow> 1 \<le> snd (decodeRune s) \<and> snd (decodeRune s) \<le> length s"
  by (cases s) (auto simp: decodeRune_def decodeBytes_def split: list.splits)

text \<open>The positions, runes and widths that \<^verbatim>\<open>range\<close> visits.\<close>

function runesFrom :: "nat \<Rightarrow> string \<Rightarrow> (nat \<times> rune \<times> nat) list" where
  "runesFrom start s =
     (if s = [] then []
      else (start, decodeRune s) # runesFrom (start + snd (decodeRune s)) (drop (snd (decodeRune s)) s))"
  by pat_completeness auto
termination
  by (relation "measure (length \<circ> snd)") (use decodeRune_width in \<open>fastforce+\<close>)

declare runesFrom.simps [simp del]

definition runesOf :: "string \<Rightarrow> rune list" where
  "runesOf s = map (\<lambda>(start, r, width). r) (runesFrom 0 s)"

section \<open>Encoding\<close>

text \<open>A rune that is no Unicode scalar value is written as \<^verbatim>\<open>RuneError\<close>.\<close>

definition validRune :: "rune \<Rightarrow> bool" where
  "validRune r = (r < 0xD800 \<or> 0xE000 \<le> r \<and> r \<le> 0x10FFFF)"

definition encodeBytes :: "rune \<Rightarrow> nat list" where
  "encodeBytes rune =
     (let r = (if validRune rune then rune else runeError)
      in if r < 0x80 then [r]
         else if r < 0x800 then [0xC0 + r div 64, 0x80 + r mod 64]
         else if r < 0x10000 then [0xE0 + r div 4096, 0x80 + r div 64 mod 64, 0x80 + r mod 64]
         else [0xF0 + r div 262144, 0x80 + r div 4096 mod 64, 0x80 + r div 64 mod 64, 0x80 + r mod 64])"

definition encodeRune :: "rune \<Rightarrow> string" where
  "encodeRune r = map char_of (encodeBytes r)"

text \<open>\<^verbatim>\<open>utf8.RuneLen\<close> of a rune; it is only used on runes of a string.\<close>

definition runeLen :: "rune \<Rightarrow> nat" where
  "runeLen r = length (encodeBytes r)"

lemma div_mod_parts: "(r div 64) * 64 + r mod 64 = r" "(r div 4096) * 4096 + (r div 64 mod 64) * 64 + r mod 64 = r"
  "(r div 262144) * 262144 + (r div 4096 mod 64) * 4096 + (r div 64 mod 64) * 64 + r mod 64 = r" for r :: nat
proof -
  have a: "r div 64 = r div 4096 * 64 + r div 64 mod 64" using div_mult_mod_eq[of "r div 64" 64] by (simp add: div_mult2_eq[symmetric])
  have b: "r div 4096 = r div 262144 * 64 + r div 4096 mod 64" using div_mult_mod_eq[of "r div 4096" 64] by (simp add: div_mult2_eq[symmetric])
  show one: "(r div 64) * 64 + r mod 64 = r" by (rule div_mult_mod_eq)
  show two: "(r div 4096) * 4096 + (r div 64 mod 64) * 64 + r mod 64 = r" using a one by linarith
  show "(r div 262144) * 262144 + (r div 4096 mod 64) * 4096 + (r div 64 mod 64) * 64 + r mod 64 = r"
    using b two by linarith
qed

text \<open>Decoding what was encoded gives the rune back, whatever follows.\<close>

lemma decode_two:
  assumes "0x80 \<le> r" and "r < 0x800"
  shows "decodeBytes (encodeBytes r @ rest) = (r, 2)"
proof -
  define a c where "a = r div 64" and "c = r mod 64"
  have r: "r = a * 64 + c" "c < 64" using div_mod_parts(1)[of r] by (simp_all add: a_def c_def)
  then have "2 \<le> a" "a \<le> 31" using assms by linarith+
  moreover have "encodeBytes r = [0xC0 + a, 0x80 + c]"
    using assms by (simp add: encodeBytes_def validRune_def a_def c_def)
  ultimately show ?thesis using r by (simp add: decodeBytes_def secondByte_def)
qed

lemma decode_three:
  assumes "0x800 \<le> r" and "r < 0x10000" and "validRune r"
  shows "decodeBytes (encodeBytes r @ rest) = (r, 3)"
proof -
  define a b c where "a = r div 4096" and "b = r div 64 mod 64" and "c = r mod 64"
  have r: "r = a * 4096 + b * 64 + c" "b < 64" "c < 64"
    using div_mod_parts(2)[of r] by (simp_all add: a_def b_def c_def)
  then have "a \<le> 15" "a = 0 \<Longrightarrow> 32 \<le> b" using assms by linarith+
  moreover have "a = 13 \<Longrightarrow> b \<le> 31" using assms(3) r unfolding validRune_def by linarith
  moreover have "encodeBytes r = [0xE0 + a, 0x80 + b, 0x80 + c]"
    using assms by (simp add: encodeBytes_def a_def b_def c_def)
  ultimately show ?thesis using r by (auto simp: decodeBytes_def secondByte_def)
qed

lemma decode_four:
  assumes "0x10000 \<le> r" and "r \<le> 0x10FFFF"
  shows "decodeBytes (encodeBytes r @ rest) = (r, 4)"
proof -
  define a b c d where "a = r div 262144" and "b = r div 4096 mod 64" and "c = r div 64 mod 64" and "d = r mod 64"
  have r: "r = a * 262144 + b * 4096 + c * 64 + d" "b < 64" "c < 64" "d < 64"
    using div_mod_parts(3)[of r] by (simp_all add: a_def b_def c_def d_def)
  then have "a \<le> 4" "a = 0 \<Longrightarrow> 16 \<le> b" "a = 4 \<Longrightarrow> b \<le> 15" using assms by linarith+
  moreover have "encodeBytes r = [0xF0 + a, 0x80 + b, 0x80 + c, 0x80 + d]"
    using assms by (simp add: encodeBytes_def validRune_def a_def b_def c_def d_def)
  ultimately show ?thesis using r by (auto simp: decodeBytes_def secondByte_def)
qed

lemma length_encodeBytes:
  "validRune r \<Longrightarrow> length (encodeBytes r) = (if r < 0x80 then 1 else if r < 0x800 then 2 else if r < 0x10000 then 3 else 4)"
  by (simp add: encodeBytes_def)

lemma decode_encode_bytes: "validRune r \<Longrightarrow> decodeBytes (encodeBytes r @ rest) = (r, length (encodeBytes r))"
  using decode_two[of r rest] decode_three[of r rest] decode_four[of r rest]
  by (cases "r < 0x80") (auto simp: length_encodeBytes validRune_def encodeBytes_def[of r] decodeBytes_def[of "r # rest"])

lemma encodeBytes_byte: "b \<in> set (encodeBytes r) \<Longrightarrow> b < 256"
  by (auto simp: encodeBytes_def Let_def validRune_def runeError_def split: if_splits)

lemma decodeRune_encodeRune: "validRune r \<Longrightarrow> decodeRune (encodeRune r @ rest) = (r, length (encodeRune r))"
proof -
  assume "validRune r"
  moreover have "map of_char (encodeRune r) = encodeBytes r"
    by (auto simp: encodeRune_def comp_def of_char_mod_256 intro!: map_idI dest: encodeBytes_byte)
  ultimately show ?thesis
    by (simp add: decodeRune_def decode_encode_bytes) (simp add: encodeRune_def)
qed

text \<open>A decoded rune is valid, and the bytes it came from are its encoding unless it stands for an invalid byte.\<close>

lemma secondByteD:
  assumes "secondByte b c"
  shows "0x80 \<le> c \<and> c \<le> 0xBF" "b = 0xE0 \<Longrightarrow> 0xA0 \<le> c" "b = 0xED \<Longrightarrow> c \<le> 0x9F" "b = 0xF0 \<Longrightarrow> 0x90 \<le> c"
    "b = 0xF4 \<Longrightarrow> c \<le> 0x8F"
  using assms by (simp_all add: secondByte_def split: if_splits)

lemma decodeBytes_cases:
  obtains (one) b where "b < 0x80" "decodeBytes bs = (b, 1)"
  | (two) a c where "2 \<le> a" "a \<le> 31" "c < 64" "decodeBytes bs = (a * 64 + c, 2)"
  | (three) a b c where "a \<le> 15" "a = 0 \<Longrightarrow> 32 \<le> b" "a = 13 \<Longrightarrow> b \<le> 31" "b < 64" "c < 64"
      "decodeBytes bs = (a * 4096 + b * 64 + c, 3)"
  | (four) a b c d where "a \<le> 4" "a = 0 \<Longrightarrow> 16 \<le> b" "a = 4 \<Longrightarrow> b \<le> 15" "b < 64" "c < 64" "d < 64"
      "decodeBytes bs = (a * 262144 + b * 4096 + c * 64 + d, 4)"
  | (error) "fst (decodeBytes bs) = runeError"
proof (cases "fst (decodeBytes bs) = runeError")
  case False
  then obtain b rest where bs: "bs = b # rest" by (cases bs) (auto simp: decodeBytes_def)
  have "b < 0x80 \<or> 0xC2 \<le> b \<and> b \<le> 0xDF \<or> 0xE0 \<le> b \<and> b \<le> 0xEF \<or> 0xF0 \<le> b \<and> b \<le> 0xF4"
    by (rule ccontr) (use False in \<open>auto simp: bs decodeBytes_def\<close>)
  then consider "b < 0x80" | "0xC2 \<le> b \<and> b \<le> 0xDF" | "0xE0 \<le> b \<and> b \<le> 0xEF" | "0xF0 \<le> b \<and> b \<le> 0xF4"
    by blast
  then show thesis
  proof cases
    case 1
    then show thesis by (intro one) (auto simp: bs decodeBytes_def)
  next
    case 2
    then obtain c r where c: "rest = c # r" "secondByte b c"
      using False by (cases rest) (auto simp: bs decodeBytes_def split: if_splits)
    show thesis
      using 2 c secondByteD(1)[OF c(2)] by (intro two[of "b - 0xC0" "c - 0x80"]) (auto simp: bs decodeBytes_def)
  next
    case 3
    then obtain c d r where c: "rest = c # d # r" "secondByte b c" "continuation d"
      using False by (cases rest; cases "tl rest") (auto simp: bs decodeBytes_def split: if_splits)
    have "b - 0xE0 = 13 \<Longrightarrow> b = 0xED" using 3 by linarith
    then show thesis
      using 3 c secondByteD(1-3)[OF c(2)]
      by (intro three[of "b - 0xE0" "c - 0x80" "d - 0x80"]) (auto simp: bs decodeBytes_def)
  next
    case 4
    then obtain c d e r where c: "rest = c # d # e # r" "secondByte b c" "continuation d" "continuation e"
      using False by (cases rest; cases "tl rest"; cases "tl (tl rest)") (auto simp: bs decodeBytes_def split: if_splits)
    have "b - 0xF0 = 4 \<Longrightarrow> b = 0xF4" using 4 by linarith
    then show thesis
      using 4 c secondByteD(1,4,5)[OF c(2)]
      by (intro four[of "b - 0xF0" "c - 0x80" "d - 0x80" "e - 0x80"]) (auto simp: bs decodeBytes_def)
  qed
qed

lemma decodeBytes_valid: "validRune (fst (decodeBytes bs))"
proof (cases bs rule: decodeBytes_cases)
  case (three a b c)
  then consider "a < 13" | "a = 13" | "13 < a" by linarith
  then show ?thesis by cases (use three in \<open>simp_all add: validRune_def\<close>)
next
  case (four a b c d)
  then consider "a = 4" | "a = 0" | "0 < a \<and> a < 4" by linarith
  then show ?thesis by cases (use four in \<open>simp_all add: validRune_def\<close>)
qed (auto simp: validRune_def runeError_def)

lemma decodeRune_len: "fst (decodeRune s) \<noteq> runeError \<Longrightarrow> runeLen (fst (decodeRune s)) = snd (decodeRune s)"
  unfolding decodeRune_def runeLen_def length_encodeBytes[OF decodeBytes_valid]
  by (cases "map of_char s :: nat list" rule: decodeBytes_cases) auto

end
