(* ===== verification/Wildcard.thy ===== *)
theory Wildcard
  imports Runes
begin

text \<open>
  Wildcard patterns of package \<^verbatim>\<open>core\<close> (\<^verbatim>\<open>core/wildcard.go\<close>). A text is given by its runes, as
  the code converts it; the tables of the dynamic programs are lists updated by index. The
  reference is the language of a pattern read directly from its text.
\<close>

abbreviation runeSlash :: rune where "runeSlash \<equiv> 47"

abbreviation runeStar :: rune where "runeStar \<equiv> 42"

abbreviation runeQuestion :: rune where "runeQuestion \<equiv> 63"

abbreviation runeBackslash :: rune where "runeBackslash \<equiv> 92"

section \<open>The code\<close>

definition ErrMalformedWildcardPattern :: string where
  "ErrMalformedWildcardPattern = ''malformed wildcard pattern''"

datatype wildcardToken = WildcardLiteral rune | WildcardAny | WildcardStar

type_synonym wildcardError = "unit go_error"

text \<open>The loop of \<^verbatim>\<open>parseWildcardPattern\<close>; \<open>tokens\<close> is what it has appended so far.\<close>

fun parseLoop :: "rune list \<Rightarrow> wildcardToken list \<Rightarrow> wildcardError + wildcardToken list" where
  "parseLoop [] tokens = Inr tokens"
| "parseLoop (r # rs) tokens =
     (if r = runeBackslash then
        (case rs of
           [] \<Rightarrow> Inl (Wrapped ''%w: trailing escape'' [Sentinel ErrMalformedWildcardPattern])
         | r' # rs' \<Rightarrow> parseLoop rs' (tokens @ [WildcardLiteral r']))
      else if r = runeQuestion then parseLoop rs (tokens @ [WildcardAny])
      else if r = runeStar then
        parseLoop rs (if tokens = [] \<or> last tokens \<noteq> WildcardStar then tokens @ [WildcardStar] else tokens)
      else parseLoop rs (tokens @ [WildcardLiteral r]))"

definition parseWildcardPattern :: "rune list \<Rightarrow> wildcardError + wildcardToken list" where
  "parseWildcardPattern pattern = parseLoop pattern []"

text \<open>One row of the table from the row before; the loops run over the indices from 1.\<close>

fun tokenRow :: "rune list \<Rightarrow> wildcardToken \<Rightarrow> bool list \<Rightarrow> bool list" where
  "tokenRow val WildcardStar dp =
     foldl (\<lambda>row i. row[i := dp ! i \<or> row ! (i - 1)])
       ((replicate (length val + 1) False)[0 := dp ! 0]) [1..<length val + 1]"
| "tokenRow val WildcardAny dp =
     foldl (\<lambda>row i. row[i := dp ! (i - 1)]) (replicate (length val + 1) False) [1..<length val + 1]"
| "tokenRow val (WildcardLiteral r) dp =
     foldl (\<lambda>row i. row[i := dp ! (i - 1) \<and> val ! (i - 1) = r])
       (replicate (length val + 1) False) [1..<length val + 1]"

definition matchWildcardTokens :: "wildcardToken list \<Rightarrow> rune list \<Rightarrow> bool" where
  "matchWildcardTokens tokens val =
     foldl (\<lambda>dp token. tokenRow val token dp) ((replicate (length val + 1) False)[0 := True]) tokens ! length val"

definition MatchWildcard :: "rune list \<Rightarrow> rune list \<Rightarrow> wildcardError + bool" where
  "MatchWildcard pattern val =
     (case parseWildcardPattern pattern of
        Inl err \<Rightarrow> Inl err
      | Inr tokens \<Rightarrow> Inr (matchWildcardTokens tokens val))"

text \<open>The result \<^verbatim>\<open>-1\<close> for no match.\<close>

fun firstMatch :: "(rune list \<Rightarrow> wildcardError + bool) \<Rightarrow> int \<Rightarrow> rune list list \<Rightarrow> wildcardError + int" where
  "firstMatch matches i [] = Inr (- 1)"
| "firstMatch matches i (pattern # patterns) =
     (case matches pattern of
        Inl err \<Rightarrow> Inl err
      | Inr matched \<Rightarrow> if matched then Inr i else firstMatch matches (i + 1) patterns)"

definition FirstWildcardMatch :: "rune list \<Rightarrow> rune list list \<Rightarrow> wildcardError + int" where
  "FirstWildcardMatch val patterns = firstMatch (\<lambda>pattern. MatchWildcard pattern val) 0 patterns"

text \<open>\<^verbatim>\<open>strings.FieldsFunc\<close>: the maximal runs of runes that are no separators.\<close>

fun fieldsLoop :: "(rune \<Rightarrow> bool) \<Rightarrow> rune list \<Rightarrow> rune list \<Rightarrow> rune list list" where
  "fieldsLoop sep current [] = (if current = [] then [] else [current])"
| "fieldsLoop sep current (r # rs) =
     (if sep r then (if current = [] then fieldsLoop sep [] rs else current # fieldsLoop sep [] rs)
      else fieldsLoop sep (current @ [r]) rs)"

definition splitWildcardPath :: "rune list \<Rightarrow> rune list list" where
  "splitWildcardPath path =
     filter (\<lambda>part. part \<noteq> []) (fieldsLoop (\<lambda>r. r = runeSlash \<or> r = runeBackslash) [] path)"

definition endSegment :: "rune list list \<Rightarrow> rune list \<Rightarrow> rune list list" where
  "endSegment segments current = (if current \<noteq> [] then segments @ [current] else segments)"

fun patternPathLoop :: "rune list \<Rightarrow> rune list list \<Rightarrow> rune list \<Rightarrow> rune list list" where
  "patternPathLoop [] segments current = endSegment segments current"
| "patternPathLoop (r # rs) segments current =
     (if r = runeSlash then patternPathLoop rs (endSegment segments current) []
      else if r = runeBackslash then
        (case rs of
           r' # rs' \<Rightarrow>
             if r' = runeStar \<or> r' = runeQuestion \<or> r' = runeBackslash
             then patternPathLoop rs' segments (current @ [r, r'])
             else patternPathLoop rs (endSegment segments current) []
         | [] \<Rightarrow> patternPathLoop rs (endSegment segments current) [])
      else patternPathLoop rs segments (current @ [r]))"

definition splitWildcardPatternPath :: "rune list \<Rightarrow> rune list list" where
  "splitWildcardPatternPath pattern = patternPathLoop pattern [] []"

text \<open>The rows of the table over the segments; a row only reads the row before, so \<open>dp\<close> is that row.\<close>

fun pathLoop ::
  "rune list list \<Rightarrow> rune list list \<Rightarrow> bool list \<Rightarrow> wildcardError + bool list" where
  "pathLoop pathSegments [] dp = Inr dp"
| "pathLoop pathSegments (segment # segments) dp =
     (if segment = [runeStar, runeStar] then
        pathLoop pathSegments segments
          (foldl (\<lambda>row j. row[j := dp ! j \<or> row ! (j - 1)])
             ((replicate (length pathSegments + 1) False)[0 := dp ! 0]) [1..<length pathSegments + 1])
      else
        (case parseWildcardPattern segment of
           Inl err \<Rightarrow> Inl err
         | Inr tokens \<Rightarrow>
             pathLoop pathSegments segments
               (foldl (\<lambda>row j. row[j := dp ! (j - 1) \<and> matchWildcardTokens tokens (pathSegments ! (j - 1))])
                  (replicate (length pathSegments + 1) False) [1..<length pathSegments + 1])))"

definition matchWildcardPathSegments :: "rune list list \<Rightarrow> rune list list \<Rightarrow> wildcardError + bool" where
  "matchWildcardPathSegments patternSegments pathSegments =
     (case pathLoop pathSegments patternSegments ((replicate (length pathSegments + 1) False)[0 := True]) of
        Inl err \<Rightarrow> Inl err
      | Inr dp \<Rightarrow> Inr (dp ! length pathSegments))"

definition MatchWildcardPath :: "rune list \<Rightarrow> rune list \<Rightarrow> wildcardError + bool" where
  "MatchWildcardPath pattern path =
     matchWildcardPathSegments (splitWildcardPatternPath pattern) (splitWildcardPath path)"

definition FirstWildcardPathMatch :: "rune list \<Rightarrow> rune list list \<Rightarrow> wildcardError + int" where
  "FirstWildcardPathMatch path patterns = firstMatch (\<lambda>pattern. MatchWildcardPath pattern path) 0 patterns"

section \<open>Tables\<close>

text \<open>
  Both tables decide a sequence of pieces: a piece takes any number of elements (\<open>None\<close>) or one
  element that satisfies a predicate.
\<close>

fun seqMatch :: "('a \<Rightarrow> bool) option list \<Rightarrow> 'a list \<Rightarrow> bool" where
  "seqMatch [] xs = (xs = [])"
| "seqMatch (None # ps) xs = (\<exists>k \<le> length xs. seqMatch ps (drop k xs))"
| "seqMatch (Some P # ps) xs = (case xs of [] \<Rightarrow> False | x # xs' \<Rightarrow> P x \<and> seqMatch ps xs')"

lemma sum_of_parts: "(\<exists>k \<le> n. \<exists>m \<le> n - k. A k m) \<longleftrightarrow> (\<exists>j \<le> n. \<exists>k \<le> j. A k (j - k))" for n :: nat
proof
  assume "\<exists>k \<le> n. \<exists>m \<le> n - k. A k m"
  then obtain k m where "k \<le> n" "m \<le> n - k" "A k m" by blast
  then show "\<exists>j \<le> n. \<exists>k \<le> j. A k (j - k)" by (intro exI[of _ "k + m"] conjI exI[of _ k]) auto
next
  assume "\<exists>j \<le> n. \<exists>k \<le> j. A k (j - k)"
  then obtain j k where "j \<le> n" "k \<le> j" "A k (j - k)" by blast
  then show "\<exists>k \<le> n. \<exists>m \<le> n - k. A k m" by (intro exI[of _ k] conjI exI[of _ "j - k"]) auto
qed

lemma seqMatch_snoc_None: "seqMatch (ps @ [None]) xs \<longleftrightarrow> (\<exists>k \<le> length xs. seqMatch ps (take k xs))"
proof (induction ps xs rule: seqMatch.induct)
  case (2 ps xs)
  have "seqMatch ((None # ps) @ [None]) xs \<longleftrightarrow> (\<exists>k \<le> length xs. \<exists>m \<le> length xs - k. seqMatch ps (take m (drop k xs)))"
    using 2 by simp
  also have "\<dots> \<longleftrightarrow> (\<exists>j \<le> length xs. \<exists>k \<le> j. seqMatch ps (take (j - k) (drop k xs)))"
    by (rule sum_of_parts)
  also have "\<dots> \<longleftrightarrow> (\<exists>j \<le> length xs. seqMatch (None # ps) (take j xs))"
    by (auto simp: drop_take) (blast intro: order_trans)
  finally show ?case .
next
  case (3 P ps xs)
  show ?case
  proof (cases xs)
    case (Cons y ys)
    have "(\<exists>k \<le> Suc (length ys). seqMatch (Some P # ps) (take k (y # ys))) \<longleftrightarrow>
        (\<exists>k \<le> length ys. seqMatch (Some P # ps) (take (Suc k) (y # ys)))"
    proof
      assume "\<exists>k \<le> Suc (length ys). seqMatch (Some P # ps) (take k (y # ys))"
      then obtain k where k: "k \<le> Suc (length ys)" "seqMatch (Some P # ps) (take k (y # ys))" by blast
      then show "\<exists>k \<le> length ys. seqMatch (Some P # ps) (take (Suc k) (y # ys))"
        by (cases k) auto
    qed (auto intro: Suc_leI le_imp_less_Suc simp del: take_Suc_Cons seqMatch.simps)
    then show ?thesis using 3 Cons by auto
  qed simp
next
  case (1 xs)
  have "\<exists>k \<le> length xs. length xs \<le> k" "\<exists>k \<le> length xs. k = 0" by auto
  then show ?case by auto
qed

lemma seqMatch_snoc_Some:
  "seqMatch (ps @ [Some P]) xs \<longleftrightarrow> xs \<noteq> [] \<and> seqMatch ps (butlast xs) \<and> P (last xs)"
proof (induction ps xs rule: seqMatch.induct)
  case (1 xs)
  show ?case by (cases xs rule: rev_cases) (auto split: list.splits)
next
  case (2 ps xs)
  have "seqMatch ((None # ps) @ [Some P]) xs \<longleftrightarrow>
      (\<exists>k < length xs. seqMatch ps (butlast (drop k xs)) \<and> P (last (drop k xs)))"
    using 2 by (auto simp: le_less)
  also have "\<dots> \<longleftrightarrow> xs \<noteq> [] \<and> (\<exists>k \<le> length (butlast xs). seqMatch ps (drop k (butlast xs)) \<and> P (last xs))"
    by (cases xs rule: rev_cases) (auto simp: less_Suc_eq_le)
  finally show ?case by auto
next
  case (3 Q ps xs)
  then show ?case by (cases xs) auto
qed

text \<open>The loops that fill a row.\<close>

lemma fill_row_upto:
  "m \<le> n \<Longrightarrow> length row = n + 1 \<Longrightarrow>
   foldl (\<lambda>row i. row[i := f (i - 1)]) row [1..<m + 1] = row ! 0 # map f [0..<m] @ drop (m + 1) row"
proof (induction m)
  case 0
  then show ?case by (cases row) auto
next
  case (Suc m)
  then have "drop (Suc m) row = row ! Suc m # drop (Suc (Suc m)) row" by (simp add: Cons_nth_drop_Suc)
  with Suc show ?case by (simp add: list_update_append)
qed

lemma fill_row:
  "length row = n + 1 \<Longrightarrow> foldl (\<lambda>row i. row[i := f (i - 1)]) row [1..<n + 1] = row ! 0 # map f [0..<n]"
  using fill_row_upto[of n n row f] by simp

lemma fill_star_row_upto:
  "m \<le> n \<Longrightarrow> length row = n + 1 \<Longrightarrow> length dp = n + 1 \<Longrightarrow>
   foldl (\<lambda>row i. row[i := dp ! i \<or> row ! (i - 1)]) (row[0 := dp ! 0]) [1..<m + 1] =
     map (\<lambda>j. \<exists>k \<le> j. dp ! k) [0..<m + 1] @ drop (m + 1) row"
proof (induction m)
  case 0
  then show ?case by (cases row) auto
next
  case (Suc m)
  then have "drop (Suc m) row = row ! Suc m # drop (Suc (Suc m)) row" by (simp add: Cons_nth_drop_Suc)
  with Suc show ?case by (auto simp: list_update_append nth_append le_Suc_eq)
qed

lemma fill_star_row:
  assumes "length row = n + 1" and "length dp = n + 1"
  shows "foldl (\<lambda>row i. row[i := dp ! i \<or> row ! (i - 1)]) (row[0 := dp ! 0]) [1..<n + 1] =
    map (\<lambda>j. \<exists>k \<le> j. dp ! k) [0..<n + 1]"
  using fill_star_row_upto[of n n row dp] assms by simp

text \<open>The row of a sequence of pieces tells which prefixes they match.\<close>

definition rowOf :: "('a \<Rightarrow> bool) option list \<Rightarrow> 'a list \<Rightarrow> bool list" where
  "rowOf ps xs = map (\<lambda>j. seqMatch ps (take j xs)) [0..<length xs + 1]"

lemma length_rowOf [simp]: "length (rowOf ps xs) = length xs + 1"
  by (simp add: rowOf_def)

lemma nth_rowOf [simp]: "j \<le> length xs \<Longrightarrow> rowOf ps xs ! j = seqMatch ps (take j xs)"
  by (simp add: rowOf_def del: upt_Suc)

lemma rowOf_Nil: "(replicate (length xs + 1) False)[0 := True] = rowOf [] xs"
  by (rule nth_equalityI) (auto simp: nth_list_update nth_Cons split: nat.splits)

lemma rowOf_star_entry:
  assumes "i \<le> length xs"
  shows "(\<exists>k \<le> i. rowOf ps xs ! k) \<longleftrightarrow> seqMatch (ps @ [None]) (take i xs)"
proof -
  have "seqMatch (ps @ [None]) (take i xs) \<longleftrightarrow> (\<exists>k \<le> i. seqMatch ps (take k (take i xs)))"
    using assms by (simp add: seqMatch_snoc_None min_absorb2)
  also have "\<dots> \<longleftrightarrow> (\<exists>k \<le> i. rowOf ps xs ! k)"
    using assms by (metis nth_rowOf le_trans min_absorb1 take_take)
  finally show ?thesis by simp
qed

lemma rowOf_star:
  assumes "length row = length xs + 1"
  shows "foldl (\<lambda>row i. row[i := rowOf ps xs ! i \<or> row ! (i - 1)]) (row[0 := rowOf ps xs ! 0]) [1..<length xs + 1] =
     rowOf (ps @ [None]) xs"
  unfolding fill_star_row[OF assms length_rowOf] rowOf_def[of "ps @ [None]"]
  by (rule map_cong) (simp_all add: rowOf_star_entry del: upt_Suc)

lemma rowOf_one:
  assumes "length row = length xs + 1" and "\<not> row ! 0"
  shows "foldl (\<lambda>row i. row[i := rowOf ps xs ! (i - 1) \<and> P (xs ! (i - 1))]) row [1..<length xs + 1] =
     rowOf (ps @ [Some P]) xs"
proof -
  have "rowOf (ps @ [Some P]) xs = seqMatch (ps @ [Some P]) [] # map (\<lambda>i. seqMatch (ps @ [Some P]) (take (Suc i) xs)) [0..<length xs]"
    unfolding rowOf_def by (simp add: upt_conv_Cons map_Suc_upt[symmetric] comp_def del: upt_Suc)
  also have "\<dots> = False # map (\<lambda>i. rowOf ps xs ! i \<and> P (xs ! i)) [0..<length xs]"
    by (auto simp: seqMatch_snoc_Some take_Suc_conv_app_nth)
  finally show ?thesis
    using fill_row[OF assms(1), of "\<lambda>i. rowOf ps xs ! i \<and> P (xs ! i)"] assms(2) by simp
qed

section \<open>The language of a pattern\<close>

inductive glob :: "rune list \<Rightarrow> rune list \<Rightarrow> bool" where
  glob_end: "glob [] []"
| glob_escape: "glob p v \<Longrightarrow> glob (runeBackslash # r # p) (r # v)"
| glob_any: "glob p v \<Longrightarrow> glob (runeQuestion # p) (r # v)"
| glob_star_none: "glob p v \<Longrightarrow> glob (runeStar # p) v"
| glob_star_more: "glob (runeStar # p) v \<Longrightarrow> glob (runeStar # p) (r # v)"
| glob_literal: "r \<notin> {runeBackslash, runeQuestion, runeStar} \<Longrightarrow> glob p v \<Longrightarrow> glob (r # p) (r # v)"

inductive_simps glob_Nil [simp]: "glob [] v"

inductive_simps glob_Backslash [simp]: "glob (runeBackslash # r # p) v" "glob [runeBackslash] v"

inductive_simps glob_Question [simp]: "glob (runeQuestion # p) v"

lemma glob_Star: "glob (runeStar # p) v \<longleftrightarrow> (\<exists>m w. v = m @ w \<and> glob p w)"
proof
  show "\<exists>m w. v = m @ w \<and> glob p w" if "glob (runeStar # p) v"
    using that
  proof (induction "runeStar # p" v rule: glob.induct)
    case (glob_star_more v r)
    then show ?case by (metis append_Cons)
  qed auto
  show "glob (runeStar # p) v" if "\<exists>m w. v = m @ w \<and> glob p w"
  proof -
    have "glob (runeStar # p) (m @ w)" if "glob p w" for m w
      using that by (induction m) (auto intro: glob.intros)
    with that show ?thesis by blast
  qed
qed

lemma glob_Literal:
  "r \<notin> {runeBackslash, runeQuestion, runeStar} \<Longrightarrow> glob (r # p) v \<longleftrightarrow> (\<exists>w. v = r # w \<and> glob p w)"
  by (auto elim: glob.cases intro: glob.intros)

text \<open>A pattern that ends with an escape that has nothing to escape.\<close>

fun trailingEscape :: "rune list \<Rightarrow> bool" where
  "trailingEscape [] = False"
| "trailingEscape [r] = (r = runeBackslash)"
| "trailingEscape (r # r' # rs) = trailingEscape (if r = runeBackslash then rs else r' # rs)"

fun piece :: "wildcardToken \<Rightarrow> (rune \<Rightarrow> bool) option" where
  "piece (WildcardLiteral r) = Some (\<lambda>x. x = r)"
| "piece WildcardAny = Some (\<lambda>x. True)"
| "piece WildcardStar = None"

lemma split_snoc_Some:
  "(\<exists>u w. v = u @ w \<and> seqMatch (ps @ [Some P]) u \<and> G w) \<longleftrightarrow> (\<exists>u x w. v = u @ x # w \<and> seqMatch ps u \<and> P x \<and> G w)"
proof
  assume "\<exists>u w. v = u @ w \<and> seqMatch (ps @ [Some P]) u \<and> G w"
  then obtain u w where "v = u @ w" "u \<noteq> []" "seqMatch ps (butlast u)" "P (last u)" "G w"
    by (auto simp: seqMatch_snoc_Some)
  moreover from this have "v = butlast u @ last u # w" by simp
  ultimately show "\<exists>u x w. v = u @ x # w \<and> seqMatch ps u \<and> P x \<and> G w" by blast
next
  assume "\<exists>u x w. v = u @ x # w \<and> seqMatch ps u \<and> P x \<and> G w"
  then obtain u x w where "v = (u @ [x]) @ w" "seqMatch (ps @ [Some P]) (u @ [x])" "G w"
    by (auto simp: seqMatch_snoc_Some)
  then show "\<exists>u w. v = u @ w \<and> seqMatch (ps @ [Some P]) u \<and> G w" by blast
qed

lemma split_snoc_None:
  "(\<exists>u w. v = u @ w \<and> seqMatch (ps @ [None]) u \<and> G w) \<longleftrightarrow> (\<exists>u m w. v = u @ m @ w \<and> seqMatch ps u \<and> G w)"
proof -
  have "seqMatch (ps @ [None]) u \<longleftrightarrow> (\<exists>u' m. u = u' @ m \<and> seqMatch ps u')" for u
    unfolding seqMatch_snoc_None by (metis append_eq_conv_conj append_take_drop_id length_append le_add1)
  note snoc = this
  show ?thesis
  proof
    assume "\<exists>u w. v = u @ w \<and> seqMatch (ps @ [None]) u \<and> G w"
    then obtain u m w where "v = (u @ m) @ w" "seqMatch ps u" "G w" by (auto simp: snoc)
    then show "\<exists>u m w. v = u @ m @ w \<and> seqMatch ps u \<and> G w" by (metis append.assoc)
  next
    assume "\<exists>u m w. v = u @ m @ w \<and> seqMatch ps u \<and> G w"
    then obtain u m w where "v = (u @ m) @ w" "seqMatch ps u" "G w" by auto
    then show "\<exists>u w. v = u @ w \<and> seqMatch (ps @ [None]) u \<and> G w" unfolding snoc by blast
  qed
qed

lemma star_twice:
  assumes "tokens \<noteq> []" and "last tokens = WildcardStar"
  shows "(\<exists>u m w. v = u @ m @ w \<and> seqMatch (map piece tokens) u \<and> G w) \<longleftrightarrow>
    (\<exists>u w. v = u @ w \<and> seqMatch (map piece tokens) u \<and> G w)"
proof -
  obtain ts where ts: "map piece tokens = ts @ [None]"
    using assms by (cases tokens rule: rev_cases) auto
  have "(\<exists>u m w. v = u @ m @ w \<and> seqMatch (ts @ [None]) u \<and> G w) \<longleftrightarrow>
      (\<exists>u z. v = u @ z \<and> seqMatch (ts @ [None]) u \<and> (\<exists>m w. z = m @ w \<and> G w))"
    by blast
  also have "\<dots> \<longleftrightarrow> (\<exists>u m m' w. v = u @ m @ m' @ w \<and> seqMatch ts u \<and> G w)"
    unfolding split_snoc_None by blast
  also have "\<dots> \<longleftrightarrow> (\<exists>u m w. v = u @ m @ w \<and> seqMatch ts u \<and> G w)"
    by (metis append.assoc append_Nil)
  finally show ?thesis by (simp only: ts split_snoc_None)
qed

lemma parseLoop_language:
  "parseLoop p tokens = Inr ts \<Longrightarrow>
   seqMatch (map piece ts) v \<longleftrightarrow> (\<exists>u w. v = u @ w \<and> seqMatch (map piece tokens) u \<and> glob p w)"
proof (induction p tokens arbitrary: ts v rule: parseLoop.induct)
  case (1 tokens)
  then show ?case by simp
next
  case (2 r rs tokens)
  consider (escape) r' rs' where "r = runeBackslash" "rs = r' # rs'" | (any) "r = runeQuestion" | (star) "r = runeStar"
    | (literal) "r \<notin> {runeBackslash, runeQuestion, runeStar}"
    using 2(5) by (cases rs) (auto split: if_splits)
  then show ?case
  proof cases
    case escape
    with 2 show ?thesis by (simp add: split_snoc_Some) blast
  next
    case any
    with 2 show ?thesis by (simp add: split_snoc_Some) blast
  next
    case star
    have "seqMatch (map piece ts) v \<longleftrightarrow>
        (\<exists>u m w. v = u @ m @ w \<and> seqMatch (map piece tokens) u \<and> glob rs w)"
      using star 2(3)[of ts v] 2(5) by (auto simp: split_snoc_None star_twice split: if_splits)
    also have "\<dots> \<longleftrightarrow> (\<exists>u z. v = u @ z \<and> seqMatch (map piece tokens) u \<and> glob (runeStar # rs) z)"
      unfolding glob_Star by blast
    finally show ?thesis using star by simp
  next
    case literal
    with 2 show ?thesis by (simp add: split_snoc_Some glob_Literal) blast
  qed
qed

lemma trailingEscape_Cons:
  "trailingEscape (r # rs) =
     (if r = runeBackslash then (case rs of [] \<Rightarrow> True | r' # rs' \<Rightarrow> trailingEscape rs') else trailingEscape rs)"
  by (cases rs) auto

lemma parseLoop_error:
  "trailingEscape p \<Longrightarrow>
   parseLoop p tokens = Inl (Wrapped ''%w: trailing escape'' [Sentinel ErrMalformedWildcardPattern])"
  by (induction p tokens rule: parseLoop.induct)
    (auto simp: trailingEscape_Cons simp del: trailingEscape.simps(2,3) split: list.splits if_splits)

lemma parseLoop_Inl: "parseLoop p tokens = Inl e \<Longrightarrow> trailingEscape p"
proof (induction p tokens rule: parseLoop.induct)
  case (2 r rs tokens)
  show ?case
  proof (cases "r = runeBackslash")
    case True
    with 2 show ?thesis by (cases rs) auto
  next
    case False
    with 2 have "trailingEscape rs" by (auto split: if_splits)
    with False show ?thesis by (simp add: trailingEscape_Cons del: trailingEscape.simps(2,3))
  qed
qed simp

lemma parseLoop_ok: "\<not> trailingEscape p \<Longrightarrow> \<exists>ts. parseLoop p tokens = Inr ts"
  using parseLoop_Inl[of p tokens] by (cases "parseLoop p tokens") auto

lemma tokens_row:
  "foldl (\<lambda>dp token. tokenRow val token dp) (rowOf ps val) tokens = rowOf (ps @ map piece tokens) val"
proof (induction tokens arbitrary: ps)
  case (Cons token tokens)
  have "tokenRow val token (rowOf ps val) = rowOf (ps @ [piece token]) val"
  proof (cases token)
    case (WildcardLiteral r)
    then show ?thesis using rowOf_one[of "replicate (length val + 1) False" val ps "\<lambda>x. x = r"] by simp
  next
    case WildcardAny
    then show ?thesis using rowOf_one[of "replicate (length val + 1) False" val ps "\<lambda>x. True"] by simp
  next
    case WildcardStar
    then show ?thesis using rowOf_star[of "replicate (length val + 1) False" val ps] by simp
  qed
  with Cons.IH[of "ps @ [piece token]"] show ?case by simp
qed simp

lemma matchWildcardTokens_seq: "matchWildcardTokens tokens val = seqMatch (map piece tokens) val"
  unfolding matchWildcardTokens_def rowOf_Nil tokens_row by simp

lemma parse_language:
  assumes "parseWildcardPattern p = Inr ts"
  shows "matchWildcardTokens ts v = glob p v"
  using parseLoop_language[OF assms[unfolded parseWildcardPattern_def], of v]
  by (simp add: matchWildcardTokens_seq)

text \<open>
  C16. \<^verbatim>\<open>MatchWildcard\<close> decides the language of the pattern: a pattern that ends in an escape with
  nothing after it is malformed, and for every other pattern the table of the dynamic program
  answers whether the text is in the language, where \<^verbatim>\<open>*\<close> stands for any runes, \<^verbatim>\<open>?\<close> for one, an
  escaped rune and every other rune for itself.
\<close>

theorem wildcard_language:
  "MatchWildcard p v =
     (if trailingEscape p then Inl (Wrapped ''%w: trailing escape'' [Sentinel ErrMalformedWildcardPattern])
      else Inr (glob p v))"
proof (cases "trailingEscape p")
  case False
  then obtain ts where "parseWildcardPattern p = Inr ts"
    using parseLoop_ok unfolding parseWildcardPattern_def by blast
  with False show ?thesis by (simp add: MatchWildcard_def parse_language)
qed (simp add: MatchWildcard_def parseWildcardPattern_def parseLoop_error)

section \<open>Paths\<close>

text \<open>A segment of a path pattern: \<^verbatim>\<open>**\<close> takes any number of path segments, another takes one.\<close>

definition segmentPiece :: "rune list \<Rightarrow> (rune list \<Rightarrow> bool) option" where
  "segmentPiece segment = (if segment = [runeStar, runeStar] then None else Some (glob segment))"

lemma pathLoop_row:
  "list_all (\<lambda>segment. \<not> trailingEscape segment) segments \<Longrightarrow>
   pathLoop parts segments (rowOf ps parts) = Inr (rowOf (ps @ map segmentPiece segments) parts)"
proof (induction segments arbitrary: ps)
  case (Cons segment segments)
  show ?case
  proof (cases "segment = [runeStar, runeStar]")
    case True
    with Cons show ?thesis
      using rowOf_star[of "replicate (length parts + 1) False" parts ps] by (simp add: segmentPiece_def)
  next
    case False
    obtain ts where ts: "parseWildcardPattern segment = Inr ts"
      using Cons.prems parseLoop_ok unfolding parseWildcardPattern_def by auto
    with Cons False show ?thesis
      using rowOf_one[of "replicate (length parts + 1) False" parts ps "glob segment"]
      by (simp add: segmentPiece_def parse_language)
  qed
qed simp

text \<open>An escape of a path pattern always keeps the rune it escapes in the same segment.\<close>

lemma trailingEscape_append: "\<not> trailingEscape u \<Longrightarrow> trailingEscape (u @ v) = trailingEscape v"
proof (induction u rule: trailingEscape.induct)
  case (2 r)
  then show ?case by (cases v) auto
qed auto

lemma patternPathLoop_closed:
  "list_all (\<lambda>s. \<not> trailingEscape s) segments \<Longrightarrow> \<not> trailingEscape current \<Longrightarrow>
   list_all (\<lambda>s. \<not> trailingEscape s) (patternPathLoop p segments current)"
  by (induction p segments current rule: patternPathLoop.induct)
    (auto simp: endSegment_def trailingEscape_append split: list.splits)

lemma fieldsLoop_parts:
  "concat (fieldsLoop sep current p) = current @ filter (\<lambda>r. \<not> sep r) p"
  "list_all (\<lambda>r. \<not> sep r) current \<Longrightarrow>
   list_all (\<lambda>part. part \<noteq> [] \<and> list_all (\<lambda>r. \<not> sep r) part) (fieldsLoop sep current p)"
  by (induction sep current p rule: fieldsLoop.induct) auto

text \<open>
  C23. \<^verbatim>\<open>MatchWildcardPath\<close> never fails: no segment of a path pattern ends in an open escape. It
  answers whether the pieces of the pattern match the segments of the path one after the
  other. The segments of a path are non-empty, have no separator, and together are the path
  without its separators.
\<close>

theorem wildcard_path:
  "MatchWildcardPath pattern path =
     Inr (seqMatch (map segmentPiece (splitWildcardPatternPath pattern)) (splitWildcardPath path)) \<and>
   list_all (\<lambda>s. \<not> trailingEscape s) (splitWildcardPatternPath pattern) \<and>
   concat (splitWildcardPath path) = filter (\<lambda>r. r \<noteq> runeSlash \<and> r \<noteq> runeBackslash) path \<and>
   list_all (\<lambda>part. part \<noteq> [] \<and> list_all (\<lambda>r. r \<noteq> runeSlash \<and> r \<noteq> runeBackslash) part) (splitWildcardPath path)"
proof -
  have closed: "list_all (\<lambda>s. \<not> trailingEscape s) (splitWildcardPatternPath pattern)"
    unfolding splitWildcardPatternPath_def by (rule patternPathLoop_closed) simp_all
  let ?sep = "\<lambda>r. r = runeSlash \<or> r = runeBackslash"
  have parts: "list_all (\<lambda>part. part \<noteq> [] \<and> list_all (\<lambda>r. \<not> ?sep r) part) (fieldsLoop ?sep [] path)"
    by (rule fieldsLoop_parts(2)) simp
  then have "\<forall>part \<in> set (fieldsLoop ?sep [] path). part \<noteq> []" unfolding list_all_iff by blast
  then have split: "splitWildcardPath path = fieldsLoop ?sep [] path"
    unfolding splitWildcardPath_def by (rule filter_True)
  have result: "MatchWildcardPath pattern path =
      Inr (seqMatch (map segmentPiece (splitWildcardPatternPath pattern)) (splitWildcardPath path))"
    unfolding MatchWildcardPath_def matchWildcardPathSegments_def rowOf_Nil pathLoop_row[OF closed] by simp
  have joined: "concat (splitWildcardPath path) = filter (\<lambda>r. r \<noteq> runeSlash \<and> r \<noteq> runeBackslash) path"
    unfolding split fieldsLoop_parts(1) by simp
  have "list_all (\<lambda>part. part \<noteq> [] \<and> list_all (\<lambda>r. r \<noteq> runeSlash \<and> r \<noteq> runeBackslash) part) (splitWildcardPath path)"
    using parts unfolding split de_Morgan_disj .
  with result joined closed show ?thesis by (intro conjI)
qed

end
