(* ===== verification/Matcher.thy ===== *)
theory Matcher
  imports Runes
begin

text \<open>
  The multi-pattern matcher of package \<^verbatim>\<open>textsearch\<close>: patterns and configuration (\<^verbatim>\<open>types.go\<close>),
  normalization (\<^verbatim>\<open>normalize.go\<close>), the automaton with its goto, failure and output functions and
  the search (\<^verbatim>\<open>matcher.go\<close>), and replacement (\<^verbatim>\<open>replace.go\<close>). The nodes are a list updated by
  index. The order in which Go visits a map is the argument \<open>shuffle\<close>. The Unicode tables and
  the normalization iterator of \<^verbatim>\<open>golang.org/x/text\<close> are arguments too. A loop that does not
  return and a slice out of range are \<open>None\<close>.
\<close>

section \<open>Patterns and normalization\<close>

definition ErrEmptyPattern :: string where
  "ErrEmptyPattern = ''textsearch: pattern must not be empty''"

definition ErrNoPatterns :: string where
  "ErrNoPatterns = ''textsearch: at least one pattern is required''"

type_synonym textsearchError = "unit go_error"

definition NormalizeNone :: int where
  "NormalizeNone = 0"

definition NormalizeNFC :: int where
  "NormalizeNFC = 1"

definition NormalizeNFKC :: int where
  "NormalizeNFKC = 2"

definition BoundaryNone :: int where
  "BoundaryNone = 0"

definition BoundaryASCIIWord :: int where
  "BoundaryASCIIWord = 1"

definition BoundaryUnicodeWord :: int where
  "BoundaryUnicodeWord = 2"

definition OverlapAll :: int where
  "OverlapAll = 0"

definition OverlapLeftmostLongest :: int where
  "OverlapLeftmostLongest = 1"

record pattern =
  pt_ID :: string
  pt_Text :: string

record config =
  cf_IgnoreCase :: bool
  cf_Normalize :: int
  cf_Boundary :: int
  cf_Overlap :: int

record textMatch =
  tm_Pattern :: pattern
  tm_Start :: nat
  tm_End :: nat
  tm_Text :: string

datatype normForm = NFC | NFKC

text \<open>
  The tables of package \<^verbatim>\<open>unicode\<close> and the segments of \<^verbatim>\<open>norm.Iter\<close>: the runes of a segment and
  the part of the input they come from.
\<close>

record unicodeTables =
  u_ToLower :: "rune \<Rightarrow> rune"
  u_IsLetter :: "rune \<Rightarrow> bool"
  u_IsDigit :: "rune \<Rightarrow> bool"
  u_IsMark :: "rune \<Rightarrow> bool"
  u_IsSpace :: "rune \<Rightarrow> bool"
  u_IsPunct :: "rune \<Rightarrow> bool"
  u_Segments :: "normForm \<Rightarrow> string \<Rightarrow> (rune list \<times> nat \<times> nat) list"

record normalizedText =
  nt_text :: string
  nt_runes :: "rune list"
  nt_starts :: "nat list"
  nt_ends :: "nat list"

definition emptyText :: normalizedText where
  "emptyText = \<lparr>nt_text = [], nt_runes = [], nt_starts = [], nt_ends = []\<rparr>"

definition appendNormalizedSegment ::
  "unicodeTables \<Rightarrow> config \<Rightarrow> rune list \<Rightarrow> nat \<Rightarrow> nat \<Rightarrow> normalizedText \<Rightarrow> normalizedText" where
  "appendNormalizedSegment u cfg segment start stop t =
     (let runes = (if cf_IgnoreCase cfg then map (u_ToLower u) segment else segment)
      in \<lparr>nt_text = nt_text t @ concat (map encodeRune runes),
          nt_runes = nt_runes t @ runes,
          nt_starts = nt_starts t @ replicate (length runes) start,
          nt_ends = nt_ends t @ replicate (length runes) stop\<rparr>)"

definition normalizeByRuneSegments :: "unicodeTables \<Rightarrow> string \<Rightarrow> config \<Rightarrow> normalizedText" where
  "normalizeByRuneSegments u input cfg =
     foldl (\<lambda>t (start, r, width).
              let stop = (if r = runeError then start + width else start + runeLen r)
              in appendNormalizedSegment u cfg [r] start stop t)
       emptyText (runesFrom 0 input)"

definition normForm :: "int \<Rightarrow> normForm" where
  "normForm mode = (if mode = NormalizeNFC then NFC else if mode = NormalizeNFKC then NFKC else NFC)"

definition normalizeString :: "unicodeTables \<Rightarrow> string \<Rightarrow> config \<Rightarrow> normalizedText" where
  "normalizeString u input cfg =
     (if input = [] then emptyText
      else if cf_Normalize cfg = NormalizeNone then normalizeByRuneSegments u input cfg
      else foldl (\<lambda>t (segment, start, stop). appendNormalizedSegment u cfg segment start stop t)
             emptyText (u_Segments u (normForm (cf_Normalize cfg)) input))"

record compiledPattern =
  cp_Pattern :: pattern
  cp_runes :: "rune list"
  cp_length :: nat
  cp_order :: nat

definition normalizedPatternText ::
  "unicodeTables \<Rightarrow> pattern \<Rightarrow> nat \<Rightarrow> config \<Rightarrow> textsearchError + compiledPattern" where
  "normalizedPatternText u pat index cfg =
     (if pt_Text pat = [] then Inl (Sentinel ErrEmptyPattern)
      else
        let pat' = (if pt_ID pat = [] then pat\<lparr>pt_ID := decimal index\<rparr> else pat);
            normalized = normalizeString u (pt_Text pat') cfg
        in if nt_runes normalized = [] then Inl (Sentinel ErrEmptyPattern)
           else Inr \<lparr>cp_Pattern = pat', cp_runes = nt_runes normalized,
                     cp_length = length (nt_runes normalized), cp_order = index\<rparr>)"

section \<open>The automaton\<close>

record patternOutput =
  ou_pattern :: nat
  ou_length :: nat
  ou_order :: nat

record node =
  nd_next :: "(rune \<times> nat) list"
  nd_fail :: nat
  nd_outputs :: "patternOutput list"

definition emptyNode :: node where
  "emptyNode = \<lparr>nd_next = [], nd_fail = 0, nd_outputs = []\<rparr>"

definition goto :: "node list \<Rightarrow> nat \<Rightarrow> rune \<Rightarrow> nat option" where
  "goto nodes state r = map_of (nd_next (nodes ! state)) r"

fun insertRunes :: "rune list \<Rightarrow> nat \<Rightarrow> node list \<Rightarrow> nat \<times> node list" where
  "insertRunes [] state nodes = (state, nodes)"
| "insertRunes (r # rs) state nodes =
     (case goto nodes state r of
        Some nxt \<Rightarrow> insertRunes rs nxt nodes
      | None \<Rightarrow>
          (let nxt = length nodes
           in insertRunes rs nxt
                (nodes[state := (nodes ! state)\<lparr>nd_next := (r, nxt) # nd_next (nodes ! state)\<rparr>] @ [emptyNode])))"

definition addPattern :: "nat \<Rightarrow> compiledPattern \<Rightarrow> node list \<Rightarrow> node list" where
  "addPattern index pat nodes =
     (case insertRunes (cp_runes pat) 0 nodes of
        (state, nodes') \<Rightarrow>
          nodes'[state := (nodes' ! state)\<lparr>nd_outputs := nd_outputs (nodes' ! state) @
            [\<lparr>ou_pattern = index, ou_length = cp_length pat, ou_order = cp_order pat\<rparr>]\<rparr>])"

text \<open>The inner loop of \<^verbatim>\<open>buildFailures\<close> over the failure links.\<close>

partial_function (option) climb :: "node list \<Rightarrow> rune \<Rightarrow> nat \<Rightarrow> nat option" where
  "climb nodes r failure =
     (if failure = 0 then Some 0
      else
        (case goto nodes failure r of
           Some nxt \<Rightarrow> Some nxt
         | None \<Rightarrow> climb nodes r (nd_fail (nodes ! failure))))"

definition linkChild :: "nat \<Rightarrow> rune \<Rightarrow> nat \<Rightarrow> node list \<Rightarrow> node list" where
  "linkChild failure r child nodes =
     (let failure' = (if failure = 0
                      then (case goto nodes 0 r of Some nxt \<Rightarrow> if nxt \<noteq> child then nxt else failure | None \<Rightarrow> failure)
                      else failure)
      in nodes[child := (nodes ! child)\<lparr>nd_fail := failure',
           nd_outputs := nd_outputs (nodes ! child) @ nd_outputs (nodes ! failure')\<rparr>])"

fun childLoop :: "nat \<Rightarrow> (rune \<times> nat) list \<Rightarrow> nat list \<Rightarrow> node list \<Rightarrow> (nat list \<times> node list) option" where
  "childLoop current [] queue nodes = Some (queue, nodes)"
| "childLoop current ((r, child) # children) queue nodes =
     (case climb nodes r (nd_fail (nodes ! current)) of
        None \<Rightarrow> None
      | Some failure \<Rightarrow> childLoop current children (queue @ [child]) (linkChild failure r child nodes))"

text \<open>The outer loop; \<open>queue\<close> is what is left of the queue from its head.\<close>

partial_function (option) failureLoop ::
  "(nat \<Rightarrow> (rune \<times> nat) list \<Rightarrow> (rune \<times> nat) list) \<Rightarrow> nat list \<Rightarrow> node list \<Rightarrow> node list option" where
  "failureLoop shuffle queue nodes =
     (case queue of
        [] \<Rightarrow> Some nodes
      | current # rest \<Rightarrow>
          Option.bind (childLoop current (shuffle current (nd_next (nodes ! current))) rest nodes)
            (\<lambda>p. failureLoop shuffle (fst p) (snd p)))"

definition buildFailures ::
  "(nat \<Rightarrow> (rune \<times> nat) list \<Rightarrow> (rune \<times> nat) list) \<Rightarrow> node list \<Rightarrow> node list option" where
  "buildFailures shuffle nodes = failureLoop shuffle (map snd (shuffle 0 (nd_next (nodes ! 0)))) nodes"

record matcher =
  mt_cfg :: config
  mt_patterns :: "compiledPattern list"
  mt_nodes :: "node list"

fun compileLoop ::
  "unicodeTables \<Rightarrow> config \<Rightarrow> nat \<Rightarrow> pattern list \<Rightarrow> matcher \<Rightarrow> textsearchError + matcher" where
  "compileLoop u cfg index [] m = Inr m"
| "compileLoop u cfg index (pat # pats) m =
     (case normalizedPatternText u pat index cfg of
        Inl err \<Rightarrow> Inl err
      | Inr compiled \<Rightarrow>
          compileLoop u cfg (index + 1) pats
            (m\<lparr>mt_nodes := addPattern (length (mt_patterns m)) compiled (mt_nodes m),
               mt_patterns := mt_patterns m @ [compiled]\<rparr>))"

definition Compile ::
  "unicodeTables \<Rightarrow> (nat \<Rightarrow> (rune \<times> nat) list \<Rightarrow> (rune \<times> nat) list) \<Rightarrow> pattern list \<Rightarrow> config \<Rightarrow>
   (textsearchError + matcher) option" where
  "Compile u shuffle patterns cfg =
     (if patterns = [] then Some (Inl (Sentinel ErrNoPatterns))
      else
        (case compileLoop u cfg 0 patterns \<lparr>mt_cfg = cfg, mt_patterns = [], mt_nodes = [emptyNode]\<rparr> of
           Inl err \<Rightarrow> Some (Inl err)
         | Inr m \<Rightarrow>
             (case buildFailures shuffle (mt_nodes m) of
                None \<Rightarrow> None
              | Some nodes \<Rightarrow> Some (Inr (m\<lparr>mt_nodes := nodes\<rparr>)))))"

definition CompileStrings ::
  "unicodeTables \<Rightarrow> (nat \<Rightarrow> (rune \<times> nat) list \<Rightarrow> (rune \<times> nat) list) \<Rightarrow> string list \<Rightarrow> config \<Rightarrow>
   (textsearchError + matcher) option" where
  "CompileStrings u shuffle patterns cfg =
     Compile u shuffle (map (\<lambda>text. \<lparr>pt_ID = [], pt_Text = text\<rparr>) patterns) cfg"

section \<open>Search\<close>

definition isASCIIWordRune :: "rune \<Rightarrow> bool" where
  "isASCIIWordRune r = (r = 95 \<or> 48 \<le> r \<and> r \<le> 57 \<or> 65 \<le> r \<and> r \<le> 90 \<or> 97 \<le> r \<and> r \<le> 122)"

definition isUnicodeWordRune :: "unicodeTables \<Rightarrow> rune \<Rightarrow> bool" where
  "isUnicodeWordRune u r = (r = 95 \<or> u_IsLetter u r \<or> u_IsDigit u r)"

definition isBoundary :: "rune list \<Rightarrow> nat \<Rightarrow> nat \<Rightarrow> (rune \<Rightarrow> bool) \<Rightarrow> bool" where
  "isBoundary runes start stop word =
     ((start = 0 \<or> \<not> word (runes ! (start - 1))) \<and> (stop = length runes \<or> \<not> word (runes ! stop)))"

definition acceptBoundary :: "unicodeTables \<Rightarrow> config \<Rightarrow> rune list \<Rightarrow> nat \<Rightarrow> nat \<Rightarrow> bool" where
  "acceptBoundary u cfg runes start stop =
     (if cf_Boundary cfg = BoundaryASCIIWord then isBoundary runes start stop isASCIIWordRune
      else if cf_Boundary cfg = BoundaryUnicodeWord then isBoundary runes start stop (isUnicodeWordRune u)
      else True)"

text \<open>\<^verbatim>\<open>s[a:b]\<close>, which panics when the bounds are out of order or out of range.\<close>

definition goSlice :: "string \<Rightarrow> nat \<Rightarrow> nat \<Rightarrow> string option" where
  "goSlice s a b = (if a \<le> b \<and> b \<le> length s then Some (take (b - a) (drop a s)) else None)"

record rankedMatch =
  rm_Match :: textMatch
  rm_startRune :: nat
  rm_endRune :: nat
  rm_order :: nat

partial_function (option) follow :: "node list \<Rightarrow> rune \<Rightarrow> nat \<Rightarrow> nat option" where
  "follow nodes r state =
     (if state = 0 then Some 0
      else
        (case goto nodes state r of
           Some nxt \<Rightarrow> Some state
         | None \<Rightarrow> follow nodes r (nd_fail (nodes ! state))))"

definition advance :: "node list \<Rightarrow> rune \<Rightarrow> nat \<Rightarrow> nat option" where
  "advance nodes r state =
     (case follow nodes r state of
        None \<Rightarrow> None
      | Some state' \<Rightarrow> Some (case goto nodes state' r of Some nxt \<Rightarrow> nxt | None \<Rightarrow> state'))"

fun outputLoop ::
  "unicodeTables \<Rightarrow> matcher \<Rightarrow> normalizedText \<Rightarrow> string \<Rightarrow> nat \<Rightarrow> patternOutput list \<Rightarrow> rankedMatch list \<Rightarrow>
   rankedMatch list option" where
  "outputLoop u m t input index [] matches = Some matches"
| "outputLoop u m t input index (out # outs) matches =
     (let startRune = int index - int (ou_length out) + 1
      in if startRune < 0 \<or> \<not> acceptBoundary u (mt_cfg m) (nt_runes t) (nat startRune) (index + 1)
         then outputLoop u m t input index outs matches
         else
           let start = nt_starts t ! nat startRune; stop = nt_ends t ! index
           in case goSlice input start stop of
                None \<Rightarrow> None
              | Some text \<Rightarrow>
                  outputLoop u m t input index outs
                    (matches @ [\<lparr>rm_Match = \<lparr>tm_Pattern = cp_Pattern (mt_patterns m ! ou_pattern out),
                                   tm_Start = start, tm_End = stop, tm_Text = text\<rparr>,
                                 rm_startRune = nat startRune, rm_endRune = index + 1, rm_order = ou_order out\<rparr>]))"

fun scanLoop ::
  "unicodeTables \<Rightarrow> matcher \<Rightarrow> normalizedText \<Rightarrow> string \<Rightarrow> nat \<Rightarrow> rune list \<Rightarrow> nat \<Rightarrow> rankedMatch list \<Rightarrow>
   rankedMatch list option" where
  "scanLoop u m t input index [] state matches = Some matches"
| "scanLoop u m t input index (r # rs) state matches =
     (case advance (mt_nodes m) r state of
        None \<Rightarrow> None
      | Some state' \<Rightarrow>
          (case outputLoop u m t input index (nd_outputs (mt_nodes m ! state')) matches of
             None \<Rightarrow> None
           | Some matches' \<Rightarrow> scanLoop u m t input (index + 1) rs state' matches'))"

text \<open>The stable sort by start, then decreasing length, then order of the pattern.\<close>

definition rankKey :: "rankedMatch \<Rightarrow> nat \<times> int \<times> nat" where
  "rankKey m = (tm_Start (rm_Match m), - (int (tm_End (rm_Match m)) - int (tm_Start (rm_Match m))), rm_order m)"

definition sortRankedMatches :: "rankedMatch list \<Rightarrow> rankedMatch list" where
  "sortRankedMatches matches = sort_key rankKey matches"

fun selectLoop :: "('a \<Rightarrow> nat) \<Rightarrow> ('a \<Rightarrow> nat) \<Rightarrow> nat \<Rightarrow> 'a list \<Rightarrow> 'a list" where
  "selectLoop start stop nextStart [] = []"
| "selectLoop start stop nextStart (m # ms) =
     (if start m < nextStart then selectLoop start stop nextStart ms
      else m # selectLoop start stop (stop m) ms)"

definition selectLeftmostLongest :: "rankedMatch list \<Rightarrow> rankedMatch list" where
  "selectLeftmostLongest matches =
     selectLoop (\<lambda>m. tm_Start (rm_Match m)) (\<lambda>m. tm_End (rm_Match m)) 0 matches"

definition findMatches :: "unicodeTables \<Rightarrow> matcher option \<Rightarrow> string \<Rightarrow> bool \<Rightarrow> textMatch list option" where
  "findMatches u matcher input firstOnly =
     (case matcher of
        None \<Rightarrow> Some []
      | Some m \<Rightarrow>
          (let t = normalizeString u input (mt_cfg m)
           in if nt_runes t = [] then Some []
              else
                (case scanLoop u m t input 0 (nt_runes t) 0 [] of
                   None \<Rightarrow> None
                 | Some matches \<Rightarrow>
                     if matches = [] then Some []
                     else
                       let sorted = sortRankedMatches matches;
                           chosen = (if cf_Overlap (mt_cfg m) = OverlapLeftmostLongest
                                     then selectLeftmostLongest sorted else sorted);
                           kept = (if firstOnly \<and> 1 < length chosen then take 1 chosen else chosen)
                       in Some (map rm_Match kept))))"

definition FindAll :: "unicodeTables \<Rightarrow> matcher option \<Rightarrow> string \<Rightarrow> textMatch list option" where
  "FindAll u m input = findMatches u m input False"

definition First :: "unicodeTables \<Rightarrow> matcher option \<Rightarrow> string \<Rightarrow> textMatch option option" where
  "First u m input =
     (case findMatches u m input True of
        None \<Rightarrow> None
      | Some matches \<Rightarrow> Some (if length matches = 0 then None else Some (matches ! 0)))"

definition Contains :: "unicodeTables \<Rightarrow> matcher option \<Rightarrow> string \<Rightarrow> bool option" where
  "Contains u m input =
     (case First u m input of None \<Rightarrow> None | Some found \<Rightarrow> Some (found \<noteq> None))"

section \<open>Replacement\<close>

definition findForReplacement :: "unicodeTables \<Rightarrow> matcher \<Rightarrow> string \<Rightarrow> textMatch list option" where
  "findForReplacement u m input = findMatches u (Some (m\<lparr>mt_cfg := (mt_cfg m)\<lparr>cf_Overlap := OverlapLeftmostLongest\<rparr>\<rparr>)) input False"

fun replaceLoop ::
  "string \<Rightarrow> (textMatch \<Rightarrow> string) \<Rightarrow> nat \<Rightarrow> textMatch list \<Rightarrow> string \<Rightarrow> string option" where
  "replaceLoop input replacer offset [] built =
     (case goSlice input offset (length input) of None \<Rightarrow> None | Some rest \<Rightarrow> Some (built @ rest))"
| "replaceLoop input replacer offset (m # ms) built =
     (case goSlice input offset (tm_Start m) of
        None \<Rightarrow> None
      | Some between \<Rightarrow> replaceLoop input replacer (tm_End m) ms (built @ between @ replacer m))"

text \<open>The replacer is a function of the match.\<close>

definition Replace ::
  "unicodeTables \<Rightarrow> matcher option \<Rightarrow> string \<Rightarrow> (textMatch \<Rightarrow> string) option \<Rightarrow> string option" where
  "Replace u matcher input replacer =
     (case (matcher, replacer) of
        (Some m, Some f) \<Rightarrow>
          (case findForReplacement u m input of
             None \<Rightarrow> None
           | Some matches \<Rightarrow> if matches = [] then Some input else replaceLoop input f 0 matches [])
      | _ \<Rightarrow> Some input)"

definition Mask :: "unicodeTables \<Rightarrow> matcher option \<Rightarrow> string \<Rightarrow> rune \<Rightarrow> string option" where
  "Mask u m input c =
     Replace u m input (Some (\<lambda>found. concat (replicate (length (runesOf (tm_Text found))) (encodeRune c))))"

end
