(* ===== verification/Matcher_Automaton.thy ===== *)
theory Matcher_Automaton
  imports Matcher "HOL-Library.Sublist" "HOL-Library.Multiset"
begin

text \<open>
  Correctness of the automaton: the nodes form a trie, a node stands for a word, and after
  \<^verbatim>\<open>buildFailures\<close> the failure link of a word leads to its longest proper suffix in the trie and
  its outputs are those of all its suffixes. So the state after reading a text stands for the
  longest suffix of the text in the trie.
\<close>

section \<open>Longest suffixes\<close>

text \<open>The longest suffix of a word in a set that contains the empty word.\<close>

fun lsuf :: "'a list set \<Rightarrow> 'a list \<Rightarrow> 'a list" where
  "lsuf W [] = []"
| "lsuf W (x # xs) = (if x # xs \<in> W then x # xs else lsuf W xs)"

definition closed :: "'a list set \<Rightarrow> bool" where
  "closed W \<longleftrightarrow> [] \<in> W \<and> (\<forall>w r. w @ [r] \<in> W \<longrightarrow> w \<in> W)"

lemma lsuf_member [simp]: "w \<in> W \<Longrightarrow> lsuf W w = w"
  by (cases w) auto

lemma lsuf_in: "closed W \<Longrightarrow> lsuf W w \<in> W"
  by (induction w) (auto simp: closed_def)

lemma lsuf_suffix: "suffix (lsuf W w) w"
  by (induction w) (auto intro: suffix_ConsI)

lemma lsuf_longest: "suffix v w \<Longrightarrow> v \<in> W \<Longrightarrow> suffix v (lsuf W w)"
  by (induction w) (auto simp: suffix_Cons)

lemma lsuf_between: "suffix u w \<Longrightarrow> suffix (lsuf W w) u \<Longrightarrow> closed W \<Longrightarrow> lsuf W u = lsuf W w"
  by (meson lsuf_in lsuf_longest lsuf_suffix suffix_order.antisym suffix_order.trans)

lemma lsuf_snoc:
  assumes "closed W"
  shows "lsuf W (lsuf W w @ [r]) = lsuf W (w @ [r])"
proof (rule lsuf_between)
  show "suffix (lsuf W w @ [r]) (w @ [r])" using lsuf_suffix[of W w] by simp
  show "suffix (lsuf W (w @ [r])) (lsuf W w @ [r])"
  proof (cases "lsuf W (w @ [r])" rule: rev_cases)
    case (snoc x r')
    with lsuf_suffix[of W "w @ [r]"] have "r' = r" "suffix x w" by auto
    moreover have "x \<in> W" using lsuf_in[OF assms, of "w @ [r]"] snoc assms by (auto simp: closed_def)
    ultimately show ?thesis using snoc lsuf_longest by auto
  qed simp
qed (rule assms)

lemma length_lsuf: "length (lsuf W w) \<le> length w"
  by (simp add: lsuf_suffix suffix_length_le)

lemma lsuf_step: "u \<noteq> [] \<Longrightarrow> u @ [r] \<notin> W \<Longrightarrow> closed W \<Longrightarrow> lsuf W (u @ [r]) = lsuf W (lsuf W (tl u) @ [r])"
  by (cases u) (simp_all add: lsuf_snoc)

section \<open>Tries\<close>

definition trie :: "node list \<Rightarrow> rune list list \<Rightarrow> bool" where
  "trie nodes ws \<longleftrightarrow>
     length ws = length nodes \<and> ws \<noteq> [] \<and> ws ! 0 = [] \<and> distinct ws \<and> closed (set ws) \<and>
     (\<forall>i < length nodes. distinct (map fst (nd_next (nodes ! i))) \<and>
        (\<forall>r j. (r, j) \<in> set (nd_next (nodes ! i)) \<longleftrightarrow> j < length nodes \<and> ws ! j = ws ! i @ [r]))"

lemma trieD:
  assumes "trie nodes ws"
  shows "length ws = length nodes" "0 < length nodes" "ws ! 0 = []" "distinct ws" "closed (set ws)"
    "i < length nodes \<Longrightarrow> distinct (map fst (nd_next (nodes ! i)))"
    "i < length nodes \<Longrightarrow> (r, j) \<in> set (nd_next (nodes ! i)) \<longleftrightarrow> j < length nodes \<and> ws ! j = ws ! i @ [r]"
  using assms by (auto simp: trie_def)

lemma goto_Some:
  "trie nodes ws \<Longrightarrow> i < length nodes \<Longrightarrow> goto nodes i r = Some j \<longleftrightarrow> j < length nodes \<and> ws ! j = ws ! i @ [r]"
  by (simp add: goto_def map_of_eq_Some_iff trieD)

lemma trie_index: "trie nodes ws \<Longrightarrow> w \<in> set ws \<Longrightarrow> \<exists>i < length nodes. ws ! i = w"
  by (metis in_set_conv_nth trieD(1))

lemma trie_inj: "trie nodes ws \<Longrightarrow> i < length nodes \<Longrightarrow> j < length nodes \<Longrightarrow> ws ! i = ws ! j \<longleftrightarrow> i = j"
  by (simp add: nth_eq_iff_index_eq trieD)

lemma trie_root: "trie nodes ws \<Longrightarrow> i < length nodes \<Longrightarrow> ws ! i = [] \<longleftrightarrow> i = 0"
  using trie_inj[of nodes ws i 0] trieD(2,3)[of nodes ws] by simp

lemma trie_nth_in: "trie nodes ws \<Longrightarrow> i < length nodes \<Longrightarrow> ws ! i \<in> set ws"
  by (simp add: trieD)

lemma goto_None:
  assumes "trie nodes ws" and "i < length nodes"
  shows "goto nodes i r = None \<longleftrightarrow> ws ! i @ [r] \<notin> set ws"
proof -
  have "goto nodes i r \<noteq> None \<longleftrightarrow> (\<exists>j < length nodes. ws ! j = ws ! i @ [r])"
    using goto_Some[OF assms] by auto
  then show ?thesis using trie_index[OF assms(1)] trie_nth_in[OF assms(1)] by metis
qed

text \<open>The trie depends on the goto functions only.\<close>

lemma trie_cong:
  assumes "trie nodes ws" and "length nodes' = length nodes" and "\<And>i. i < length nodes \<Longrightarrow> nd_next (nodes' ! i) = nd_next (nodes ! i)"
  shows "trie nodes' ws"
  using assms by (simp add: trie_def)

lemma trie_empty: "trie [emptyNode] [[]]"
  by (auto simp: trie_def closed_def emptyNode_def)

lemma trie_extend:
  assumes "trie nodes ws" and "i < length nodes" and "goto nodes i r = None"
  shows "trie (nodes[i := (nodes ! i)\<lparr>nd_next := (r, length nodes) # nd_next (nodes ! i)\<rparr>] @ [emptyNode]) (ws @ [ws ! i @ [r]])"
    (is "trie ?nodes ?ws")
proof -
  note t = trieD[OF assms(1)]
  have new: "ws ! i @ [r] \<notin> set ws" using goto_None[OF assms(1,2)] assms(3) by simp
  have r: "r \<notin> fst ` set (nd_next (nodes ! i))" using assms(3) by (auto simp: goto_def map_of_eq_None_iff)
  have edges: "distinct (map fst (nd_next (?nodes ! k))) \<and>
      (\<forall>x j. (x, j) \<in> set (nd_next (?nodes ! k)) \<longleftrightarrow> j < length ?nodes \<and> ?ws ! j = ?ws ! k @ [x])"
    if "k < length ?nodes" for k
  proof -
    consider "k = i" | "k < length nodes" "k \<noteq> i" | "k = length nodes" using \<open>k < length ?nodes\<close> by force
    then show ?thesis
    proof cases
      case 1
      then show ?thesis using assms(2) t r by (auto simp: nth_append less_Suc_eq)
    next
      case 2
      then have "ws ! i \<noteq> ws ! k" using trie_inj[OF assms(1)] assms(2) by metis
      with 2 show ?thesis using t by (auto simp: nth_append less_Suc_eq)
    next
      case 3
      have "ws ! j \<noteq> ws ! i @ [r, x]" if "j < length nodes" for j x
      proof
        assume "ws ! j = ws ! i @ [r, x]"
        then have "(ws ! i @ [r]) @ [x] \<in> set ws" using trie_nth_in[OF assms(1) that] by simp
        with t(5) new show False unfolding closed_def by blast
      qed
      with 3 show ?thesis using t(1) by (auto simp: nth_append emptyNode_def less_Suc_eq)
    qed
  qed
  moreover have "closed (set ?ws)"
    using t(5) trie_nth_in[OF assms(1,2)] by (auto simp: closed_def)
  ultimately show ?thesis using t new by (simp add: trie_def nth_append)
qed

text \<open>The failure link and the outputs of a node.\<close>

definition links :: "node \<Rightarrow> nat \<times> patternOutput list" where
  "links n = (nd_fail n, nd_outputs n)"

lemma insertRunes_trie:
  assumes "trie nodes ws" and "i < length nodes" and "insertRunes rs i nodes = (k, nodes')"
  shows "\<exists>vs. trie nodes' (ws @ vs) \<and> k < length nodes' \<and> (ws @ vs) ! k = ws ! i @ rs \<and>
    (\<forall>j < length nodes'. links (nodes' ! j) = (if j < length nodes then links (nodes ! j) else (0, [])))"
  using assms
proof (induction rs i nodes arbitrary: ws rule: insertRunes.induct)
  case (1 i nodes)
  then show ?case by (intro exI[of _ "[]"]) auto
next
  case (2 r rs i nodes)
  show ?case
  proof (cases "goto nodes i r")
    case (Some n)
    then have "n < length nodes" "ws ! n = ws ! i @ [r]" using goto_Some[OF "2.prems"(1,2)] by auto
    with "2.IH"(2)[OF Some] "2.prems" Some show ?thesis by fastforce
  next
    case None
    let ?nodes = "nodes[i := (nodes ! i)\<lparr>nd_next := (r, length nodes) # nd_next (nodes ! i)\<rparr>] @ [emptyNode]"
    let ?ws = "ws @ [ws ! i @ [r]]"
    have "trie ?nodes ?ws" using "2.prems" None by (intro trie_extend)
    moreover have "insertRunes rs (length nodes) ?nodes = (k, nodes')" using "2.prems"(3) None by (simp add: Let_def)
    ultimately obtain vs where vs: "trie nodes' (?ws @ vs)" "k < length nodes'"
        "(?ws @ vs) ! k = ?ws ! length nodes @ rs"
        "\<forall>j < length nodes'. links (nodes' ! j) = (if j < length ?nodes then links (?nodes ! j) else (0, []))"
      using "2.IH"(1)[OF None refl, of ?ws] by auto
    moreover have "?ws ! length nodes = ws ! i @ [r]" using trieD(1)[OF "2.prems"(1)] by (metis nth_append_length)
    moreover have "links (?nodes ! j) = (if j < length nodes then links (nodes ! j) else (0, []))"
      if "j < length ?nodes" for j
      using that "2.prems"(2) by (auto simp: links_def nth_append nth_list_update emptyNode_def)
    ultimately show ?thesis
      by (intro exI[of _ "(ws ! i @ [r]) # vs"]) auto
  qed
qed

section \<open>Outputs\<close>

text \<open>The outputs of the patterns that are exactly a word, and of those that are a suffix of it.\<close>

definition own :: "compiledPattern list \<Rightarrow> rune list \<Rightarrow> patternOutput list" where
  "own pats w =
     map (\<lambda>(k, p). \<lparr>ou_pattern = k, ou_length = cp_length p, ou_order = cp_order p\<rparr>)
       (filter (\<lambda>(k, p). cp_runes p = w) (enumerate 0 pats))"

fun outs :: "compiledPattern list \<Rightarrow> rune list \<Rightarrow> patternOutput list" where
  "outs pats [] = []"
| "outs pats (x # xs) = own pats (x # xs) @ outs pats xs"

lemma own_snoc:
  "own (pats @ [p]) w = own pats w @ (if cp_runes p = w
     then [\<lparr>ou_pattern = length pats, ou_length = cp_length p, ou_order = cp_order p\<rparr>] else [])"
  by (simp add: own_def enumerate_append_eq)

lemma own_none: "\<forall>p \<in> set pats. cp_runes p \<noteq> w \<Longrightarrow> own pats w = []"
  by (auto simp: own_def filter_empty_conv in_set_enumerate_eq)

lemma outs_tl: "w \<noteq> [] \<Longrightarrow> outs pats w = own pats w @ outs pats (tl w)"
  by (cases w) simp_all

definition covers :: "rune list set \<Rightarrow> compiledPattern list \<Rightarrow> bool" where
  "covers W pats \<longleftrightarrow> (\<forall>p \<in> set pats. cp_runes p \<in> W \<and> cp_runes p \<noteq> [])"

lemma outs_lsuf: "covers W pats \<Longrightarrow> outs pats (lsuf W w) = outs pats w"
  by (induction w) (auto simp: covers_def intro!: own_none)

text \<open>The nodes after the patterns have been added.\<close>

definition built :: "compiledPattern list \<Rightarrow> node list \<Rightarrow> rune list list \<Rightarrow> bool" where
  "built pats nodes ws \<longleftrightarrow> trie nodes ws \<and> covers (set ws) pats \<and>
     (\<forall>j < length nodes. links (nodes ! j) = (0, own pats (ws ! j)))"

lemma built_empty: "built [] [emptyNode] [[]]"
  by (simp add: built_def trie_empty covers_def) (simp add: links_def emptyNode_def own_def)

lemma addPattern_built:
  assumes "built pats nodes ws" and "cp_runes p \<noteq> []"
  shows "\<exists>ws'. built (pats @ [p]) (addPattern (length pats) p nodes) ws'"
proof -
  obtain k nodes' where ins: "insertRunes (cp_runes p) 0 nodes = (k, nodes')" by (rule prod.exhaust)
  have t: "trie nodes ws" using assms by (simp add: built_def)
  from insertRunes_trie[OF t trieD(2)[OF t] ins] obtain vs where vs: "trie nodes' (ws @ vs)" "k < length nodes'"
      "(ws @ vs) ! k = cp_runes p"
      "\<forall>j < length nodes'. links (nodes' ! j) = (if j < length nodes then links (nodes ! j) else (0, []))"
    using trieD(3)[OF t] by auto
  let ?nodes = "addPattern (length pats) p nodes" and ?ws = "ws @ vs"
  have trie: "trie ?nodes ?ws"
    by (rule trie_cong[OF vs(1)]) (auto simp: addPattern_def ins nth_list_update vs(2))
  have own: "links (nodes' ! j) = (0, own pats (?ws ! j))" if "j < length nodes'" for j
  proof (cases "j < length nodes")
    case True
    then show ?thesis using assms vs(4) that trieD(1)[OF t] by (simp add: built_def nth_append)
  next
    case False
    have "?ws ! j \<notin> set ws"
    proof
      assume "?ws ! j \<in> set ws"
      then obtain i where "i < length nodes" "?ws ! j = ?ws ! i"
        using trie_index[OF t] trieD(1)[OF t] by (metis nth_append)
      with that False show False using trie_inj[OF vs(1), of j i] trieD(1)[OF t] trieD(1)[OF vs(1)] by auto
    qed
    then have "own pats (?ws ! j) = []"
      using assms by (intro own_none) (auto simp: built_def covers_def)
    then show ?thesis using False vs(4) that by simp
  qed
  have "links (?nodes ! j) = (0, own (pats @ [p]) (?ws ! j))" if "j < length ?nodes" for j
    using own[of j] own[of k] that vs(2,3) trie_inj[OF vs(1), of j k]
    by (auto simp: addPattern_def ins links_def nth_list_update own_snoc)
  moreover have "covers (set ?ws) (pats @ [p])"
    using assms vs(3) trie_nth_in[OF vs(1,2)] by (auto simp: built_def covers_def)
  ultimately show ?thesis using trie by (auto simp: built_def)
qed

section \<open>Failure links\<close>

text \<open>
  A node is linked when its failure link leads to the longest proper suffix of its word in the
  trie and its outputs are complete.
\<close>

definition linked :: "compiledPattern list \<Rightarrow> rune list list \<Rightarrow> node list \<Rightarrow> nat \<Rightarrow> bool" where
  "linked pats ws nodes i \<longleftrightarrow>
     nd_fail (nodes ! i) < length nodes \<and> ws ! nd_fail (nodes ! i) = lsuf (set ws) (tl (ws ! i)) \<and>
     nd_outputs (nodes ! i) = outs pats (ws ! i)"

definition linkedUpto :: "compiledPattern list \<Rightarrow> rune list list \<Rightarrow> node list \<Rightarrow> nat \<Rightarrow> bool" where
  "linkedUpto pats ws nodes d \<longleftrightarrow> (\<forall>i < length nodes. length (ws ! i) \<le> d \<longrightarrow> linked pats ws nodes i)"

lemma fail_shorter:
  assumes "trie nodes ws" and "linked pats ws nodes i" and "i < length nodes" and "i \<noteq> 0"
  shows "length (ws ! nd_fail (nodes ! i)) < length (ws ! i)"
proof -
  have "length (lsuf (set ws) (tl (ws ! i))) \<le> length (tl (ws ! i))" by (rule length_lsuf)
  moreover have "ws ! i \<noteq> []" using trie_root[OF assms(1,3)] assms(4) by simp
  ultimately show ?thesis using assms(2) by (simp add: linked_def) (metis Suc_pred le_imp_less_Suc length_greater_0_conv)
qed

text \<open>The failure loop finds the longest suffix that has an edge, unless only the root is left.\<close>

lemma climb_correct:
  assumes "trie nodes ws" and "linkedUpto pats ws nodes d" and "i < length nodes" and "length (ws ! i) \<le> d"
  shows "\<exists>k < length nodes. climb nodes r i = Some k \<and>
    (if k = 0 then lsuf (set ws) (ws ! i @ [r]) = lsuf (set ws) [r] else ws ! k = lsuf (set ws) (ws ! i @ [r]))"
  using assms(3,4)
proof (induction "length (ws ! i)" arbitrary: i rule: less_induct)
  case less
  note t = trieD[OF assms(1)]
  show ?case
  proof (cases "i = 0")
    case True
    then show ?thesis using t(2,3) by (intro exI[of _ 0]) (simp add: climb.simps[of nodes r 0])
  next
    case False
    have linked: "linked pats ws nodes i" using assms(2) less.prems by (simp add: linkedUpto_def)
    show ?thesis
    proof (cases "goto nodes i r")
      case (Some k)
      then have k: "k < length nodes" "ws ! k = ws ! i @ [r]" using goto_Some[OF assms(1) less.prems(1)] by auto
      moreover have "k \<noteq> 0"
      proof
        assume "k = 0"
        with k(2) t(3) show False by simp
      qed
      moreover have "ws ! i @ [r] \<in> set ws" using k trie_nth_in[OF assms(1)] by metis
      ultimately show ?thesis using Some False by (simp add: climb.simps[of nodes r i])
    next
      case None
      let ?f = "nd_fail (nodes ! i)"
      have f: "?f < length nodes" "length (ws ! ?f) < length (ws ! i)" "ws ! ?f = lsuf (set ws) (tl (ws ! i))"
        using linked fail_shorter[OF assms(1) linked less.prems(1) False] by (simp_all add: linked_def)
      have word: "lsuf (set ws) (ws ! i @ [r]) = lsuf (set ws) (ws ! ?f @ [r])"
        using lsuf_step[of "ws ! i" r "set ws"] goto_None[OF assms(1) less.prems(1), of r] None f(3) t(5)
          trie_root[OF assms(1) less.prems(1)] False by simp
      have climb: "climb nodes r i = climb nodes r ?f" using None False by (simp add: climb.simps[of nodes r i])
      have "length (ws ! ?f) \<le> d" using f(2) less.prems(2) by simp
      from less.hyps[OF f(2,1) this] show ?thesis unfolding word climb .
    qed
  qed
qed

lemma follow_correct:
  assumes "trie nodes ws" and "linkedUpto pats ws nodes d" and "i < length nodes" and "length (ws ! i) \<le> d"
  shows "\<exists>k < length nodes. follow nodes r i = Some k \<and> (k = 0 \<or> goto nodes k r \<noteq> None) \<and>
    lsuf (set ws) (ws ! i @ [r]) = lsuf (set ws) (ws ! k @ [r])"
  using assms(3,4)
proof (induction "length (ws ! i)" arbitrary: i rule: less_induct)
  case less
  note t = trieD[OF assms(1)]
  show ?case
  proof (cases "i = 0 \<or> goto nodes i r \<noteq> None")
    case True
    then show ?thesis using less.prems(1) by (intro exI[of _ i]) (auto simp: follow.simps[of nodes r i])
  next
    case False
    have linked: "linked pats ws nodes i" using assms(2) less.prems by (simp add: linkedUpto_def)
    let ?f = "nd_fail (nodes ! i)"
    have f: "?f < length nodes" "length (ws ! ?f) < length (ws ! i)" "ws ! ?f = lsuf (set ws) (tl (ws ! i))"
      using linked fail_shorter[OF assms(1) linked less.prems(1)] False by (simp_all add: linked_def)
    have "lsuf (set ws) (ws ! i @ [r]) = lsuf (set ws) (ws ! ?f @ [r])"
      using lsuf_step[of "ws ! i" r "set ws"] goto_None[OF assms(1) less.prems(1), of r] False f(3) t(5)
        trie_root[OF assms(1) less.prems(1)] by simp
    moreover have "follow nodes r i = follow nodes r ?f" using False by (simp add: follow.simps[of nodes r i])
    ultimately show ?thesis using less.hyps[OF f(2,1)] f(2) less.prems(2) by simp
  qed
qed

text \<open>One rune of the text: the state moves to the longest suffix in the trie.\<close>

lemma advance_correct:
  assumes "trie nodes ws" and "linkedUpto pats ws nodes d" and "i < length nodes" and "length (ws ! i) \<le> d"
  shows "\<exists>k < length nodes. advance nodes r i = Some k \<and> ws ! k = lsuf (set ws) (ws ! i @ [r])"
proof -
  obtain k where k: "k < length nodes" "follow nodes r i = Some k" "k = 0 \<or> goto nodes k r \<noteq> None"
      "lsuf (set ws) (ws ! i @ [r]) = lsuf (set ws) (ws ! k @ [r])"
    using follow_correct[OF assms] by blast
  show ?thesis
  proof (cases "goto nodes k r")
    case (Some j)
    then have "j < length nodes" "ws ! j = ws ! k @ [r]" using goto_Some[OF assms(1) k(1)] by auto
    moreover from this have "ws ! k @ [r] \<in> set ws" using trie_nth_in[OF assms(1)] by metis
    ultimately show ?thesis using Some k by (auto simp: advance_def)
  next
    case None
    then have "k = 0" "[r] \<notin> set ws" using k(3) goto_None[OF assms(1) k(1), of r] trieD(3)[OF assms(1)] by auto
    then show ?thesis using None k trieD(3)[OF assms(1)] by (auto simp: advance_def)
  qed
qed

text \<open>The child of a linked node gets its link and its outputs.\<close>

lemma linkChild_correct:
  assumes "trie nodes ws" and "covers (set ws) pats" and "linkedUpto pats ws nodes (length (ws ! current))"
    and "current < length nodes" and "current \<noteq> 0"
    and "child < length nodes" and "ws ! child = ws ! current @ [r]" and "nd_outputs (nodes ! child) = own pats (ws ! child)"
  shows "\<exists>failure. climb nodes r (nd_fail (nodes ! current)) = Some failure \<and>
    linked pats ws (linkChild failure r child nodes) child"
proof -
  note t = trieD[OF assms(1)]
  let ?W = "set ws" and ?f = "nd_fail (nodes ! current)"
  have cur: "ws ! current \<noteq> []" using trie_root[OF assms(1,4)] assms(5) by simp
  have "linked pats ws nodes current" using assms(3,4) by (simp add: linkedUpto_def)
  then have f: "?f < length nodes" "ws ! ?f = lsuf ?W (tl (ws ! current))" "length (ws ! ?f) \<le> length (ws ! current)"
    using fail_shorter[OF assms(1) _ assms(4,5)] by (auto simp: linked_def less_imp_le)
  obtain k where k: "k < length nodes" "climb nodes r ?f = Some k"
      "if k = 0 then lsuf ?W (ws ! ?f @ [r]) = lsuf ?W [r] else ws ! k = lsuf ?W (ws ! ?f @ [r])"
    using climb_correct[OF assms(1,3) f(1,3)] by blast
  define g where "g = (if k = 0
    then (case goto nodes 0 r of Some nxt \<Rightarrow> if nxt \<noteq> child then nxt else k | None \<Rightarrow> k) else k)"
  have tl: "tl (ws ! child) = tl (ws ! current) @ [r]" using assms(7) cur by simp
  have g: "g < length nodes \<and> ws ! g = lsuf ?W (tl (ws ! child))"
  proof (cases "k = 0")
    case True
    have "j \<noteq> child" if "goto nodes 0 r = Some j" for j
      using that goto_Some[OF assms(1) t(2)] t(3) assms(7) cur by auto
    then show ?thesis
      using True k t(2,3) goto_Some[OF assms(1) t(2)] goto_None[OF assms(1) t(2), of r] f(2) trie_nth_in[OF assms(1)]
      by (auto simp: g_def tl lsuf_snoc[OF t(5)] split: option.splits) (metis append_Nil)
  next
    case False
    then show ?thesis using k f(2) by (simp add: g_def tl lsuf_snoc[OF t(5)])
  qed
  have "length (ws ! g) \<le> length (ws ! current)"
    using g length_lsuf[of ?W "tl (ws ! child)"] tl cur by (simp add: assms(7))
  then have "nd_outputs (nodes ! g) = outs pats (tl (ws ! child))"
    using assms(3) g outs_lsuf[OF assms(2)] by (simp add: linkedUpto_def linked_def)
  then have "nd_outputs (nodes ! child) @ nd_outputs (nodes ! g) = outs pats (ws ! child)"
    using assms(7,8) outs_tl[of "ws ! child" pats] by simp
  moreover have "linkChild k r child nodes = nodes[child := (nodes ! child)\<lparr>nd_fail := g,
      nd_outputs := nd_outputs (nodes ! child) @ nd_outputs (nodes ! g)\<rparr>]"
    by (simp add: linkChild_def g_def Let_def)
  ultimately have "linked pats ws (linkChild k r child nodes) child"
    using g assms(6) by (simp add: linked_def)
  then show ?thesis using k(2) by blast
qed

text \<open>Linking a child touches nothing but its failure link and outputs.\<close>

lemma linkChild_frame:
  "length (linkChild failure r child nodes) = length nodes"
  "nd_next (linkChild failure r child nodes ! i) = nd_next (nodes ! i)"
  "i \<noteq> child \<Longrightarrow> linkChild failure r child nodes ! i = nodes ! i"
  by (cases "child < length nodes"; auto simp: linkChild_def Let_def nth_list_update list_update_beyond)+

lemma linked_frame:
  "length nodes' = length nodes \<Longrightarrow> nodes' ! i = nodes ! i \<Longrightarrow> linked pats ws nodes' i = linked pats ws nodes i"
  by (simp add: linked_def)

lemma childLoop_correct:
  assumes "trie nodes ws" and "covers (set ws) pats" and "linkedUpto pats ws nodes (length (ws ! current))"
    and "current < length nodes" and "current \<noteq> 0" and "distinct (map snd children)"
    and "\<forall>(r, child) \<in> set children. child < length nodes \<and> ws ! child = ws ! current @ [r] \<and>
      nd_outputs (nodes ! child) = own pats (ws ! child)"
  shows "\<exists>nodes'. childLoop current children queue nodes = Some (queue @ map snd children, nodes') \<and>
    length nodes' = length nodes \<and> (\<forall>i. nd_next (nodes' ! i) = nd_next (nodes ! i)) \<and>
    (\<forall>child \<in> snd ` set children. linked pats ws nodes' child) \<and>
    (\<forall>i. i \<notin> snd ` set children \<longrightarrow> nodes' ! i = nodes ! i)"
  using assms
proof (induction children arbitrary: queue nodes)
  case Nil
  then show ?case by simp
next
  case (Cons rc children)
  obtain r child where rc: "rc = (r, child)" by (rule prod.exhaust)
  have child: "child < length nodes" "ws ! child = ws ! current @ [r]" "nd_outputs (nodes ! child) = own pats (ws ! child)"
    using Cons.prems(7) by (auto simp: rc)
  from linkChild_correct[OF Cons.prems(1-5) this] obtain failure where
    climb: "climb nodes r (nd_fail (nodes ! current)) = Some failure"
    and linked: "linked pats ws (linkChild failure r child nodes) child" by blast
  let ?nodes = "linkChild failure r child nodes"
  have len: "length ?nodes = length nodes" by (simp add: linkChild_frame)
  have upto: "linkedUpto pats ws ?nodes (length (ws ! current))"
    unfolding linkedUpto_def
  proof (intro allI impI)
    fix i assume i: "i < length ?nodes" "length (ws ! i) \<le> length (ws ! current)"
    then have "i \<noteq> child" using child(2) by auto
    then show "linked pats ws ?nodes i"
      using i Cons.prems(3) linked_frame[OF len] by (simp add: linkedUpto_def linkChild_frame len)
  qed
  have trie: "trie ?nodes ws" using Cons.prems(1) by (rule trie_cong) (simp_all add: linkChild_frame)
  have rest: "\<forall>(r, c) \<in> set children. c < length ?nodes \<and> ws ! c = ws ! current @ [r] \<and>
      nd_outputs (?nodes ! c) = own pats (ws ! c)"
  proof (clarify, intro conjI)
    fix x c assume c: "(x, c) \<in> set children"
    then have "c \<noteq> child" using Cons.prems(6) by (force simp: rc)
    moreover have "c < length nodes \<and> ws ! c = ws ! current @ [x] \<and> nd_outputs (nodes ! c) = own pats (ws ! c)"
      using Cons.prems(7) c by auto
    ultimately show "c < length ?nodes" "ws ! c = ws ! current @ [x]" "nd_outputs (?nodes ! c) = own pats (ws ! c)"
      by (simp_all add: linkChild_frame)
  qed
  have dist: "distinct (map snd children)" using Cons.prems(6) by simp
  obtain nodes' where nodes': "childLoop current children (queue @ [child]) ?nodes =
        Some ((queue @ [child]) @ map snd children, nodes')"
      "length nodes' = length ?nodes" "\<forall>i. nd_next (nodes' ! i) = nd_next (?nodes ! i)"
      "\<forall>child \<in> snd ` set children. linked pats ws nodes' child"
      "\<forall>i. i \<notin> snd ` set children \<longrightarrow> nodes' ! i = ?nodes ! i"
    using Cons.IH[OF trie Cons.prems(2) upto _ Cons.prems(5) dist rest, of "queue @ [child]"] Cons.prems(4)
    unfolding len by (elim meta_impE exE conjE) (assumption | rule that)+
  have "child \<notin> snd ` set children" using Cons.prems(6) by (force simp: rc)
  then have last: "linked pats ws nodes' child" using nodes'(5) linked linked_frame[OF nodes'(2)] by simp
  have "nodes' ! i = nodes ! i" if "i \<notin> snd ` set (rc # children)" for i
    using that nodes'(5) by (simp add: rc linkChild_frame)
  moreover have "\<forall>c \<in> snd ` set (rc # children). linked pats ws nodes' c" using nodes'(4) last by (simp add: rc)
  ultimately show ?case
    using nodes'(1-3) climb by (intro exI[of _ nodes']) (simp add: rc linkChild_frame)
qed

section \<open>The breadth-first loop\<close>

text \<open>Go visits the entries of a map in any order, each once.\<close>

definition visits :: "(nat \<Rightarrow> (rune \<times> nat) list \<Rightarrow> (rune \<times> nat) list) \<Rightarrow> bool" where
  "visits shuffle \<longleftrightarrow> (\<forall>k xs. mset (shuffle k xs) = mset xs)"

text \<open>
  \<open>P\<close> are the nodes taken from the queue. A node has been reached exactly when its parent is the
  root or was taken; the queue is sorted by depth and spans at most two levels.
\<close>

definition bfsInv :: "compiledPattern list \<Rightarrow> rune list list \<Rightarrow> node list \<Rightarrow> nat set \<Rightarrow> nat list \<Rightarrow> bool" where
  "bfsInv pats ws nodes P Q \<longleftrightarrow>
     trie nodes ws \<and> covers (set ws) pats \<and> P \<subseteq> {1..<length nodes} \<and> set Q \<subseteq> {1..<length nodes} \<and>
     distinct Q \<and> set Q \<inter> P = {} \<and> sorted (map (\<lambda>j. length (ws ! j)) Q) \<and>
     (\<forall>j \<in> set Q. length (ws ! j) \<le> Suc (length (ws ! hd Q))) \<and>
     (\<forall>i < length nodes. \<forall>j < length nodes. \<forall>r. ws ! j = ws ! i @ [r] \<longrightarrow> (j \<in> set Q \<union> P \<longleftrightarrow> i = 0 \<or> i \<in> P)) \<and>
     (\<forall>j < length nodes. j = 0 \<or> j \<in> set Q \<union> P \<longrightarrow> linked pats ws nodes j) \<and>
     (\<forall>j < length nodes. j \<noteq> 0 \<and> j \<notin> set Q \<union> P \<longrightarrow> nd_outputs (nodes ! j) = own pats (ws ! j))"

lemma bfsInvD:
  assumes "bfsInv pats ws nodes P Q"
  shows "trie nodes ws" "covers (set ws) pats" "P \<subseteq> {1..<length nodes}" "set Q \<subseteq> {1..<length nodes}" "distinct Q"
    "set Q \<inter> P = {}" "sorted (map (\<lambda>j. length (ws ! j)) Q)"
    "j \<in> set Q \<Longrightarrow> length (ws ! j) \<le> Suc (length (ws ! hd Q))"
    "i < length nodes \<Longrightarrow> j < length nodes \<Longrightarrow> ws ! j = ws ! i @ [r] \<Longrightarrow> j \<in> set Q \<union> P \<longleftrightarrow> i = 0 \<or> i \<in> P"
    "j < length nodes \<Longrightarrow> j = 0 \<or> j \<in> set Q \<union> P \<Longrightarrow> linked pats ws nodes j"
    "j < length nodes \<Longrightarrow> j \<noteq> 0 \<Longrightarrow> j \<notin> set Q \<union> P \<Longrightarrow> nd_outputs (nodes ! j) = own pats (ws ! j)"
  using assms by (simp_all add: bfsInv_def) blast

text \<open>All nodes that are no deeper than the queue have been reached.\<close>

lemma bfs_reached:
  assumes "bfsInv pats ws nodes P Q" and "\<forall>k \<in> set Q. d \<le> length (ws ! k)"
    and "i < length nodes" and "length (ws ! i) \<le> d"
  shows "i = 0 \<or> i \<in> set Q \<union> P"
  using assms(3,4)
proof (induction "length (ws ! i)" arbitrary: i rule: less_induct)
  case less
  note inv = bfsInvD[OF assms(1)]
  show ?case
  proof (cases "ws ! i" rule: rev_cases)
    case Nil
    then show ?thesis using trie_root[OF inv(1) less.prems(1)] by simp
  next
    case (snoc w r)
    have "w \<in> set ws" using trie_nth_in[OF inv(1) less.prems(1)] trieD(5)[OF inv(1)] snoc by (auto simp: closed_def)
    then obtain k where k: "k < length nodes" "ws ! k = w" using trie_index[OF inv(1)] by blast
    then have "k = 0 \<or> k \<in> set Q \<union> P" using less.hyps[of k] less.prems(2) snoc by simp
    moreover have "k \<notin> set Q" using assms(2) k less.prems(2) snoc by auto
    ultimately show ?thesis using inv(9)[OF k(1) less.prems(1)] k(2) snoc by blast
  qed
qed

lemma bfs_upto:
  assumes "bfsInv pats ws nodes P (c # Q)"
  shows "linkedUpto pats ws nodes (length (ws ! c))"
proof -
  have "\<forall>k \<in> set (c # Q). length (ws ! c) \<le> length (ws ! k)"
    using bfsInvD(7)[OF assms] by auto
  then show ?thesis
    using bfs_reached[OF assms] bfsInvD(10)[OF assms] unfolding linkedUpto_def by blast
qed

lemma children_of:
  assumes "trie nodes ws" and "c < length nodes" and "mset children = mset (nd_next (nodes ! c))"
  shows "(r, j) \<in> set children \<longleftrightarrow> j < length nodes \<and> ws ! j = ws ! c @ [r]" and "distinct (map snd children)"
proof -
  have set: "set children = set (nd_next (nodes ! c))" using assms(3) by (rule mset_eq_setD)
  then show edge: "(r, j) \<in> set children \<longleftrightarrow> j < length nodes \<and> ws ! j = ws ! c @ [r]" for r j
    using trieD(7)[OF assms(1,2)] by simp
  have "distinct (nd_next (nodes ! c))" using trieD(6)[OF assms(1,2)] by (simp add: distinct_map)
  then have "distinct children" using assms(3) by (metis mset_eq_imp_distinct_iff)
  moreover have "inj_on snd (set children)"
    by (rule inj_onI) (clarsimp simp: edge)
  ultimately show "distinct (map snd children)" by (simp add: distinct_map)
qed

text \<open>A queue sorted by depth stays so when the head is replaced by its children at the end.\<close>

lemma level_queue:
  fixes f :: "nat \<Rightarrow> nat"
  assumes "sorted (map f (c # Q))" and "\<forall>j \<in> set (c # Q). f j \<le> Suc (f c)" and "\<forall>j \<in> set cs. f j = Suc (f c)"
  shows "sorted (map f (Q @ cs))" and "\<forall>j \<in> set (Q @ cs). f j \<le> Suc (f (hd (Q @ cs)))"
proof -
  have "sorted (map f cs)" using assms(3) by (induction cs) auto
  then show "sorted (map f (Q @ cs))" using assms by (auto simp: sorted_append)
  have low: "f c \<le> f j" if "j \<in> set (Q @ cs)" for j using assms(1,3) that by auto
  show "\<forall>j \<in> set (Q @ cs). f j \<le> Suc (f (hd (Q @ cs)))"
  proof
    fix j assume j: "j \<in> set (Q @ cs)"
    then have "f c \<le> f (hd (Q @ cs))" by (intro low hd_in_set) auto
    moreover have "f j \<le> Suc (f c)" using j assms(2,3) by auto
    ultimately show "f j \<le> Suc (f (hd (Q @ cs)))" by simp
  qed
qed

lemma bfs_children:
  assumes "bfsInv pats ws nodes P (c # Q)" and "mset children = mset (nd_next (nodes ! c))"
  shows "j \<in> snd ` set children \<longleftrightarrow> j < length nodes \<and> (\<exists>r. ws ! j = ws ! c @ [r])"
    and "j \<in> snd ` set children \<Longrightarrow> j \<notin> set (c # Q) \<union> P \<and> j \<noteq> 0 \<and> length (ws ! j) = Suc (length (ws ! c)) \<and>
      nd_outputs (nodes ! j) = own pats (ws ! j)"
proof -
  note inv = bfsInvD[OF assms(1)]
  have c: "c < length nodes" "c \<noteq> 0" "c \<notin> P" using inv(4,6) by auto
  show iff: "j \<in> snd ` set children \<longleftrightarrow> j < length nodes \<and> (\<exists>r. ws ! j = ws ! c @ [r])"
    using children_of(1)[OF inv(1) c(1) assms(2)] by force
  assume "j \<in> snd ` set children"
  then obtain r where j: "j < length nodes" "ws ! j = ws ! c @ [r]" using iff by blast
  have "j \<notin> set (c # Q) \<union> P" using inv(9)[OF c(1) j] c(2,3) by blast
  moreover have "j \<noteq> 0"
  proof
    assume "j = 0"
    with j(2) trieD(3)[OF inv(1)] show False by simp
  qed
  ultimately show "j \<notin> set (c # Q) \<union> P \<and> j \<noteq> 0 \<and> length (ws ! j) = Suc (length (ws ! c)) \<and>
      nd_outputs (nodes ! j) = own pats (ws ! j)"
    using inv(11)[OF j(1)] j(2) by simp
qed

lemma bfs_edges:
  assumes "bfsInv pats ws nodes P (c # Q)" and "mset children = mset (nd_next (nodes ! c))"
    and "i < length nodes" and "j < length nodes" and "ws ! j = ws ! i @ [r]"
  shows "j \<in> set (Q @ map snd children) \<union> insert c P \<longleftrightarrow> i = 0 \<or> i \<in> insert c P"
proof -
  note inv = bfsInvD[OF assms(1)]
  have c: "c < length nodes" using inv(4) by auto
  have "j \<in> snd ` set children \<longleftrightarrow> ws ! i = ws ! c"
    unfolding bfs_children(1)[OF assms(1,2)] using assms(4,5) by auto
  then have "j \<in> snd ` set children \<longleftrightarrow> i = c" using trie_inj[OF inv(1) assms(3) c] by simp
  moreover have "j \<in> set (c # Q) \<union> P \<longleftrightarrow> i = 0 \<or> i \<in> P" by (rule inv(9)[OF assms(3-5)])
  ultimately show ?thesis by auto
qed

lemma bfsInv_next:
  assumes "bfsInv pats ws nodes P (c # Q)" and "mset children = mset (nd_next (nodes ! c))"
    and "length nodes' = length nodes" and "\<forall>i. nd_next (nodes' ! i) = nd_next (nodes ! i)"
    and "\<forall>j \<in> snd ` set children. linked pats ws nodes' j" and "\<forall>i. i \<notin> snd ` set children \<longrightarrow> nodes' ! i = nodes ! i"
  shows "bfsInv pats ws nodes' (insert c P) (Q @ map snd children)"
  unfolding bfsInv_def
proof (intro conjI)
  note inv = bfsInvD[OF assms(1)] and child = bfs_children[OF assms(1,2)]
  have c: "c < length nodes" "c \<noteq> 0" using inv(4) by auto
  have queue: "\<forall>j \<in> set (c # Q). length (ws ! j) \<le> Suc (length (ws ! c))" using inv(8) by simp
  have kids: "\<forall>j \<in> set (map snd children). length (ws ! j) = Suc (length (ws ! c))" using child(2) by simp
  show "trie nodes' ws" by (rule trie_cong[OF inv(1) assms(3)]) (simp add: assms(4))
  show "covers (set ws) pats" by (rule inv(2))
  show "insert c P \<subseteq> {1..<length nodes'}" using inv(3) c assms(3) by auto
  have "j \<in> {1..<length nodes'}" if "j \<in> snd ` set children" for j
    using child(1)[of j] child(2)[of j] that assms(3) by simp
  then have "snd ` set children \<subseteq> {1..<length nodes'}" by blast
  then show "set (Q @ map snd children) \<subseteq> {1..<length nodes'}" using inv(4) assms(3) by simp
  show "distinct (Q @ map snd children)"
    using inv(5) children_of(2)[OF inv(1) c(1) assms(2)] child(2) by auto
  show "set (Q @ map snd children) \<inter> insert c P = {}" using inv(5,6) child(2) by auto
  show "sorted (map (\<lambda>j. length (ws ! j)) (Q @ map snd children))" by (rule level_queue(1)[OF inv(7) queue kids])
  show "\<forall>j \<in> set (Q @ map snd children). length (ws ! j) \<le> Suc (length (ws ! hd (Q @ map snd children)))"
    by (rule level_queue(2)[OF inv(7) queue kids])
  show "\<forall>i < length nodes'. \<forall>j < length nodes'. \<forall>r. ws ! j = ws ! i @ [r] \<longrightarrow>
      (j \<in> set (Q @ map snd children) \<union> insert c P \<longleftrightarrow> i = 0 \<or> i \<in> insert c P)"
    using bfs_edges[OF assms(1,2)] unfolding assms(3) by blast
  show "\<forall>j < length nodes'. j = 0 \<or> j \<in> set (Q @ map snd children) \<union> insert c P \<longrightarrow> linked pats ws nodes' j"
  proof (intro allI impI)
    fix j assume j: "j < length nodes'" "j = 0 \<or> j \<in> set (Q @ map snd children) \<union> insert c P"
    show "linked pats ws nodes' j"
    proof (cases "j \<in> snd ` set children")
      case False
      then have "linked pats ws nodes j" using j assms(3) by (intro inv(10)) auto
      with False show ?thesis using linked_frame[OF assms(3)] assms(6) by simp
    qed (use assms(5) in blast)
  qed
  show "\<forall>j < length nodes'. j \<noteq> 0 \<and> j \<notin> set (Q @ map snd children) \<union> insert c P \<longrightarrow>
      nd_outputs (nodes' ! j) = own pats (ws ! j)"
    using inv(11) assms(3,6) by simp
qed

lemma bfs_step:
  assumes "bfsInv pats ws nodes P (c # Q)" and "mset children = mset (nd_next (nodes ! c))"
  shows "\<exists>nodes'. childLoop c children Q nodes = Some (Q @ map snd children, nodes') \<and>
    length nodes' = length nodes \<and> (\<forall>i. nd_next (nodes' ! i) = nd_next (nodes ! i)) \<and>
    bfsInv pats ws nodes' (insert c P) (Q @ map snd children)"
proof -
  note inv = bfsInvD[OF assms(1)]
  have c: "c < length nodes" "c \<noteq> 0" using inv(4) by auto
  note child = children_of[OF inv(1) c(1) assms(2)]
  have fresh: "\<forall>(r, j) \<in> set children. j < length nodes \<and> ws ! j = ws ! c @ [r] \<and> nd_outputs (nodes ! j) = own pats (ws ! j)"
  proof (clarify, intro conjI)
    fix r j assume j: "(r, j) \<in> set children"
    then show "j < length nodes" "ws ! j = ws ! c @ [r]" using child(1) by auto
    from j have "j \<in> snd ` set children" by force
    then show "nd_outputs (nodes ! j) = own pats (ws ! j)" using bfs_children(2)[OF assms] by blast
  qed
  from childLoop_correct[OF inv(1,2) bfs_upto[OF assms(1)] c child(2) fresh, of Q] obtain nodes'
    where "childLoop c children Q nodes = Some (Q @ map snd children, nodes')" "length nodes' = length nodes"
      "\<forall>i. nd_next (nodes' ! i) = nd_next (nodes ! i)" "\<forall>j \<in> snd ` set children. linked pats ws nodes' j"
      "\<forall>i. i \<notin> snd ` set children \<longrightarrow> nodes' ! i = nodes ! i"
    by (elim exE conjE) (rule that; assumption)
  with bfsInv_next[OF assms] show ?thesis by blast
qed

text \<open>The loop returns, with every node linked.\<close>

lemma failureLoop_correct:
  assumes "visits shuffle" and "bfsInv pats ws nodes P Q"
  shows "\<exists>nodes'. failureLoop shuffle Q nodes = Some nodes' \<and> trie nodes' ws \<and> length nodes' = length nodes \<and>
    (\<forall>i < length nodes. linked pats ws nodes' i)"
  using assms(2)
proof (induction "length nodes - card P" arbitrary: nodes P Q rule: less_induct)
  case less
  note inv = bfsInvD[OF less.prems]
  show ?case
  proof (cases Q)
    case Nil
    have "linked pats ws nodes i" if "i < length nodes" for i
      using bfs_reached[OF less.prems _ that order_refl] inv(10)[OF that] Nil by auto
    then show ?thesis using Nil inv(1) by (simp add: failureLoop.simps[of shuffle "[]"])
  next
    case (Cons c Q')
    have "mset (shuffle c (nd_next (nodes ! c))) = mset (nd_next (nodes ! c))" using assms(1) by (simp add: visits_def)
    from bfs_step[OF less.prems[unfolded Cons] this] obtain nodes' where step:
        "childLoop c (shuffle c (nd_next (nodes ! c))) Q' nodes = Some (Q' @ map snd (shuffle c (nd_next (nodes ! c))), nodes')"
        "length nodes' = length nodes"
        "bfsInv pats ws nodes' (insert c P) (Q' @ map snd (shuffle c (nd_next (nodes ! c))))"
      by (elim exE conjE) (rule that; assumption)
    have P: "finite P" "card P < length nodes"
    proof -
      show "finite P" using inv(3) finite_subset by blast
      have "card P \<le> card {1..<length nodes}" using inv(3) by (intro card_mono) auto
      then show "card P < length nodes" using trieD(2)[OF inv(1)] by (simp only: card_atLeastLessThan)
    qed
    have "c \<notin> P" using inv(6) Cons by auto
    then have "length nodes' - card (insert c P) < length nodes - card P" using P step(2) by simp
    from less.hyps[OF this step(3)] step(1,2) show ?thesis by (simp add: Cons failureLoop.simps[of shuffle "c # Q'"])
  qed
qed

lemma bfsInv_init:
  assumes "built pats nodes ws" and "mset children = mset (nd_next (nodes ! 0))"
  shows "bfsInv pats ws nodes {} (map snd children)"
proof -
  have t: "trie nodes ws" and cov: "covers (set ws) pats"
    and node: "\<And>j. j < length nodes \<Longrightarrow> nd_fail (nodes ! j) = 0 \<and> nd_outputs (nodes ! j) = own pats (ws ! j)"
    using assms(1) by (auto simp: built_def links_def)
  note child = children_of[OF t trieD(2)[OF t] assms(2)]
  have kid: "j \<in> snd ` set children \<longleftrightarrow> j < length nodes \<and> (\<exists>r. ws ! j = [r])" for j
    using child(1) trieD(3)[OF t] by force
  have kid0: "j \<noteq> 0" if "j \<in> snd ` set children" for j
    using that trieD(3)[OF t] by (metis kid list.distinct(1))
  have len: "length (ws ! j) = 1" if "j \<in> snd ` set children" for j
    using that by (metis kid length_Cons list.size(3) One_nat_def)
  have own_Nil: "own pats [] = []" using cov by (intro own_none) (auto simp: covers_def)
  have root: "linked pats ws nodes 0"
    using node[OF trieD(2)[OF t]] trieD(2,3)[OF t] own_Nil by (simp add: linked_def)
  have linked: "linked pats ws nodes j" if "j \<in> snd ` set children" for j
    using that node[of j] trieD(2,3)[OF t] kid[of j] by (auto simp: linked_def)
  have edges: "j \<in> set (map snd children) \<union> {} \<longleftrightarrow> i = 0 \<or> i \<in> {}" if "i < length nodes" "j < length nodes" "ws ! j = ws ! i @ [r]" for i j r
    using that kid[of j] trie_root[OF t that(1)] by auto
  have "sorted (map (\<lambda>j. length (ws ! j)) (map snd children))" "\<forall>j \<in> set (map snd children). length (ws ! j) = 1"
  proof -
    show "\<forall>j \<in> set (map snd children). length (ws ! j) = 1" using len by simp
    then show "sorted (map (\<lambda>j. length (ws ! j)) (map snd children))" by (induction children) auto
  qed
  moreover have "j \<in> {1..<length nodes}" if "j \<in> snd ` set children" for j using kid[of j] kid0[OF that] that by simp
  then have "snd ` set children \<subseteq> {1..<length nodes}" by blast
  ultimately show ?thesis
    unfolding bfsInv_def using t cov child(2) edges root linked node by simp
qed

lemma buildFailures_correct:
  assumes "visits shuffle" and "built pats nodes ws"
  shows "\<exists>nodes'. buildFailures shuffle nodes = Some nodes' \<and> trie nodes' ws \<and> linkedUpto pats ws nodes' d"
proof -
  have "mset (shuffle 0 (nd_next (nodes ! 0))) = mset (nd_next (nodes ! 0))" using assms(1) by (simp add: visits_def)
  from failureLoop_correct[OF assms(1) bfsInv_init[OF assms(2) this]] show ?thesis
    by (auto simp: buildFailures_def linkedUpto_def)
qed

end
