(* ===== verification/Matcher_Search.thy ===== *)
theory Matcher_Search
  imports Matcher_Automaton
begin

text \<open>
  The search is equivalent to trying every pattern at every position, and its results are
  complete, ordered, and in the leftmost-longest mode free of overlaps; replacement keeps the
  text between the matches.
\<close>

section \<open>Compilation\<close>

definition compiledOk :: "compiledPattern list \<Rightarrow> bool" where
  "compiledOk pats \<longleftrightarrow>
     (\<forall>k < length pats. cp_runes (pats ! k) \<noteq> [] \<and> cp_length (pats ! k) = length (cp_runes (pats ! k)) \<and> cp_order (pats ! k) = k)"

definition wellCompiled :: "matcher \<Rightarrow> bool" where
  "wellCompiled m \<longleftrightarrow> compiledOk (mt_patterns m) \<and>
     (\<exists>ws. trie (mt_nodes m) ws \<and> covers (set ws) (mt_patterns m) \<and> (\<forall>d. linkedUpto (mt_patterns m) ws (mt_nodes m) d))"

lemma normalizedPatternText_Inr:
  assumes "normalizedPatternText u pat index cfg = Inr c"
  shows "cp_runes c \<noteq> []" "cp_length c = length (cp_runes c)" "cp_order c = index"
    "cp_runes c = nt_runes (normalizeString u (pt_Text pat) cfg)" "pt_Text (cp_Pattern c) = pt_Text pat"
  using assms by (auto simp: normalizedPatternText_def Let_def split: if_splits)

lemma compileLoop_built:
  assumes "compileLoop u cfg (length (mt_patterns m)) pats m = Inr m'"
    and "built (mt_patterns m) (mt_nodes m) ws" and "compiledOk (mt_patterns m)"
  shows "mt_cfg m' = mt_cfg m \<and> compiledOk (mt_patterns m') \<and> (\<exists>ws'. built (mt_patterns m') (mt_nodes m') ws') \<and>
    map (\<lambda>c. pt_Text (cp_Pattern c)) (mt_patterns m') = map (\<lambda>c. pt_Text (cp_Pattern c)) (mt_patterns m) @ map pt_Text pats \<and>
    map cp_runes (mt_patterns m') = map cp_runes (mt_patterns m) @ map (\<lambda>p. nt_runes (normalizeString u (pt_Text p) cfg)) pats"
  using assms
proof (induction pats arbitrary: m ws)
  case Nil
  then show ?case by auto
next
  case (Cons pat pats)
  obtain c where c: "normalizedPatternText u pat (length (mt_patterns m)) cfg = Inr c"
    using Cons.prems(1) by (auto split: sum.splits)
  note cp = normalizedPatternText_Inr[OF c]
  let ?m = "m\<lparr>mt_nodes := addPattern (length (mt_patterns m)) c (mt_nodes m), mt_patterns := mt_patterns m @ [c]\<rparr>"
  obtain ws' where "built (mt_patterns ?m) (mt_nodes ?m) ws'"
    using addPattern_built[OF Cons.prems(2) cp(1)] by auto
  moreover have "compileLoop u cfg (length (mt_patterns ?m)) pats ?m = Inr m'"
    using Cons.prems(1) c by simp
  moreover have "compiledOk (mt_patterns ?m)"
    using Cons.prems(3) cp by (auto simp: compiledOk_def nth_append less_Suc_eq)
  ultimately show ?case using Cons.IH[of ?m ws'] cp by simp
qed

lemma compileLoop_errors:
  "(\<exists>e. compileLoop u cfg index pats m = Inl e) \<longleftrightarrow>
     (\<exists>p \<in> set pats. pt_Text p = [] \<or> nt_runes (normalizeString u (pt_Text p) cfg) = [])"
  "compileLoop u cfg index pats m = Inl e \<Longrightarrow> e = Sentinel ErrEmptyPattern"
  by (induction pats arbitrary: index m) (auto simp: normalizedPatternText_def Let_def split: if_splits)

lemma Compile_result:
  assumes "visits shuffle"
  shows "\<exists>res. Compile u shuffle pats cfg = Some res \<and>
    (case res of
       Inl e \<Rightarrow> e = (if pats = [] then Sentinel ErrNoPatterns else Sentinel ErrEmptyPattern) \<and>
         (pats = [] \<or> (\<exists>p \<in> set pats. pt_Text p = [] \<or> nt_runes (normalizeString u (pt_Text p) cfg) = []))
     | Inr m \<Rightarrow> wellCompiled m \<and> mt_cfg m = cfg \<and>
         map cp_runes (mt_patterns m) = map (\<lambda>p. nt_runes (normalizeString u (pt_Text p) cfg)) pats)"
proof -
  let ?m = "\<lparr>mt_cfg = cfg, mt_patterns = [], mt_nodes = [emptyNode]\<rparr>"
  show ?thesis
  proof (cases "compileLoop u cfg 0 pats ?m")
    case (Inl e)
    then show ?thesis using compileLoop_errors[of u cfg 0 pats ?m] by (auto simp: Compile_def)
  next
    case (Inr m)
    have "built (mt_patterns ?m) (mt_nodes ?m) [[]]" "compiledOk (mt_patterns ?m)"
      by (simp_all add: built_empty compiledOk_def)
    from compileLoop_built[OF _ this, of u cfg pats m] Inr obtain ws where
      m: "mt_cfg m = cfg" "compiledOk (mt_patterns m)" "built (mt_patterns m) (mt_nodes m) ws"
        "map cp_runes (mt_patterns m) = map (\<lambda>p. nt_runes (normalizeString u (pt_Text p) cfg)) pats"
      by auto
    obtain nodes where nodes: "buildFailures shuffle (mt_nodes m) = Some nodes" "trie nodes ws"
        "\<forall>d. linkedUpto (mt_patterns m) ws nodes d"
      using buildFailures_correct[OF assms m(3)] by (metis option.inject)
    have "covers (set ws) (mt_patterns m)" using m(3) by (simp add: built_def)
    with m nodes have "wellCompiled (m\<lparr>mt_nodes := nodes\<rparr>)" by (auto simp: wellCompiled_def)
    then show ?thesis using Inr m nodes(1) by (cases "pats = []") (auto simp: Compile_def)
  qed
qed

section \<open>Positions\<close>

text \<open>The parts of the input that segments come from follow each other.\<close>

fun tiles :: "nat \<Rightarrow> ('a \<times> nat \<times> nat) list \<Rightarrow> nat \<Rightarrow> bool" where
  "tiles start [] stop = (start \<le> stop)"
| "tiles start ((segment, a, b) # segments) stop = (a = start \<and> a \<le> b \<and> tiles b segments stop)"

text \<open>\<^verbatim>\<open>Pos\<close> of \<^verbatim>\<open>norm.Iter\<close> moves forward and stays within the input.\<close>

definition iterates :: "unicodeTables \<Rightarrow> bool" where
  "iterates u \<longleftrightarrow> (\<forall>form input. tiles 0 (u_Segments u form input) (length input))"

definition placed :: "normalizedText \<Rightarrow> nat \<Rightarrow> bool" where
  "placed t p \<longleftrightarrow> length (nt_starts t) = length (nt_runes t) \<and> length (nt_ends t) = length (nt_runes t) \<and>
     sorted (nt_starts t) \<and> list_all2 (\<le>) (nt_starts t) (nt_ends t) \<and> (\<forall>e \<in> set (nt_ends t). e \<le> p)"

lemma placed_start: "placed t p \<Longrightarrow> a \<in> set (nt_starts t) \<Longrightarrow> a \<le> p"
  by (auto simp: placed_def in_set_conv_nth list_all2_conv_all_nth) (metis le_trans nth_mem)

lemma append_placed:
  assumes "placed t start" and "start \<le> stop"
  shows "placed (appendNormalizedSegment u cfg segment start stop t) stop"
proof -
  have "list_all2 (\<le>) (replicate n start) (replicate n stop)" for n
    using assms(2) by (simp add: list_all2_conv_all_nth)
  then show ?thesis
    using assms placed_start[OF assms(1)]
    by (auto simp: placed_def appendNormalizedSegment_def Let_def sorted_append intro!: list_all2_appendI dest: le_trans)
qed

lemma fold_placed:
  "placed t start \<Longrightarrow> tiles start segments stop \<Longrightarrow>
   placed (foldl (\<lambda>t (segment, a, b). appendNormalizedSegment u cfg segment a b t) t segments) stop"
proof (induction segments arbitrary: t start)
  case Nil
  then show ?case by (auto simp: placed_def intro: le_trans)
next
  case (Cons s segments)
  then show ?case by (cases s) (auto intro: append_placed)
qed

lemma runesFrom_tiles: "tiles start (map (\<lambda>(a, r, w). ([r], a, a + w)) (runesFrom start s)) (start + length s)"
proof (induction start s rule: runesFrom.induct)
  case (1 start s)
  show ?case
  proof (cases "s = []")
    case False
    then show ?thesis
      using 1[OF False] decodeRune_width[OF False] by (subst runesFrom.simps) (auto split: prod.splits)
  qed (simp add: runesFrom.simps)
qed

lemma runesFrom_len: "(a, r, w) \<in> set (runesFrom start s) \<Longrightarrow> r \<noteq> runeError \<Longrightarrow> runeLen r = w"
proof (induction start s rule: runesFrom.induct)
  case (1 start s)
  then have "s \<noteq> []" by (auto simp: runesFrom.simps)
  moreover from this have "(a, r, w) = (start, decodeRune s) \<or>
      (a, r, w) \<in> set (runesFrom (start + snd (decodeRune s)) (drop (snd (decodeRune s)) s))"
    using 1(2) by (simp add: runesFrom.simps[of start s])
  ultimately show ?case using 1(1,3) decodeRune_len[of s] by (metis fst_conv snd_conv)
qed

lemma normalizeByRuneSegments_fold:
  "normalizeByRuneSegments u input cfg =
     foldl (\<lambda>t (segment, a, b). appendNormalizedSegment u cfg segment a b t) emptyText
       (map (\<lambda>(a, r, w). ([r], a, a + w)) (runesFrom 0 input))"
  unfolding normalizeByRuneSegments_def foldl_map
  by (rule foldl_cong) (auto simp: runesFrom_len)

lemma normalizeString_placed:
  assumes "iterates u"
  shows "placed (normalizeString u input cfg) (length input)"
proof -
  have empty: "placed emptyText 0" by (simp add: placed_def emptyText_def)
  have "placed (normalizeByRuneSegments u input cfg) (length input)"
    unfolding normalizeByRuneSegments_fold
    using fold_placed[OF empty] runesFrom_tiles[of 0 input] by simp
  moreover have "placed (foldl (\<lambda>t (segment, a, b). appendNormalizedSegment u cfg segment a b t) emptyText
      (u_Segments u (normForm (cf_Normalize cfg)) input)) (length input)"
    using assms by (intro fold_placed[OF empty]) (simp add: iterates_def)
  moreover have "placed emptyText (length input)" by (simp add: placed_def emptyText_def)
  ultimately show ?thesis using empty by (simp add: normalizeString_def)
qed

lemma placed_slice:
  assumes "placed t p" and "s \<le> i" and "i < length (nt_runes t)"
  shows "nt_starts t ! s \<le> nt_ends t ! i" and "nt_ends t ! i \<le> p"
proof -
  have "nt_starts t ! s \<le> nt_starts t ! i" using assms by (intro sorted_nth_mono) (auto simp: placed_def)
  also have "\<dots> \<le> nt_ends t ! i" using assms by (auto simp: placed_def list_all2_conv_all_nth)
  finally show "nt_starts t ! s \<le> nt_ends t ! i" .
  show "nt_ends t ! i \<le> p" using assms by (auto simp: placed_def)
qed

section \<open>Trying every pattern everywhere\<close>

text \<open>The match of pattern \<open>k\<close> on the runes from \<open>s\<close> to \<open>i\<close>.\<close>

definition rankAt :: "matcher \<Rightarrow> normalizedText \<Rightarrow> string \<Rightarrow> nat \<Rightarrow> nat \<Rightarrow> nat \<Rightarrow> rankedMatch" where
  "rankAt m t input i s k =
     \<lparr>rm_Match = \<lparr>tm_Pattern = cp_Pattern (mt_patterns m ! k), tm_Start = nt_starts t ! s, tm_End = nt_ends t ! i,
        tm_Text = take (nt_ends t ! i - nt_starts t ! s) (drop (nt_starts t ! s) input)\<rparr>,
      rm_startRune = s, rm_endRune = i + 1, rm_order = cp_order (mt_patterns m ! k)\<rparr>"

definition occurs :: "unicodeTables \<Rightarrow> matcher \<Rightarrow> normalizedText \<Rightarrow> nat \<Rightarrow> nat \<Rightarrow> nat \<Rightarrow> bool" where
  "occurs u m t i s k \<longleftrightarrow> cp_runes (mt_patterns m ! k) = drop s (take (i + 1) (nt_runes t)) \<and>
     acceptBoundary u (mt_cfg m) (nt_runes t) s (i + 1)"

definition naiveEnding :: "unicodeTables \<Rightarrow> matcher \<Rightarrow> normalizedText \<Rightarrow> string \<Rightarrow> nat \<Rightarrow> rankedMatch list" where
  "naiveEnding u m t input i =
     concat (map (\<lambda>s. map (rankAt m t input i s) (filter (occurs u m t i s) [0..<length (mt_patterns m)])) [0..<i + 1])"

definition naiveMatches :: "unicodeTables \<Rightarrow> matcher \<Rightarrow> normalizedText \<Rightarrow> string \<Rightarrow> rankedMatch list" where
  "naiveMatches u m t input = concat (map (naiveEnding u m t input) [0..<length (nt_runes t)])"

lemma own_upt:
  "own pats w = map (\<lambda>k. \<lparr>ou_pattern = k, ou_length = cp_length (pats ! k), ou_order = cp_order (pats ! k)\<rparr>)
     (filter (\<lambda>k. cp_runes (pats ! k) = w) [0..<length pats])"
proof (induction pats rule: rev_induct)
  case (snoc p pats)
  have "filter (\<lambda>k. cp_runes ((pats @ [p]) ! k) = w) [0..<length pats] = filter (\<lambda>k. cp_runes (pats ! k) = w) [0..<length pats]"
    by (rule filter_cong) (auto simp: nth_append)
  then show ?case using snoc by (auto simp: own_snoc nth_append)
qed (simp add: own_def)

lemma outs_upt: "outs pats w = concat (map (\<lambda>s. own pats (drop s w)) [0..<length w])"
proof (induction w)
  case (Cons x w)
  have "map (\<lambda>s. own pats (drop s (x # w))) [0..<length (x # w)] =
      own pats (x # w) # map (\<lambda>s. own pats (drop s w)) [0..<length w]"
    by (simp add: upt_conv_Cons map_Suc_upt[symmetric] comp_def del: upt_Suc)
  with Cons show ?case by simp
qed simp

text \<open>The match of an output at a position.\<close>

definition outRank :: "matcher \<Rightarrow> normalizedText \<Rightarrow> string \<Rightarrow> nat \<Rightarrow> patternOutput \<Rightarrow> rankedMatch" where
  "outRank m t input i out = (rankAt m t input i (i + 1 - ou_length out) (ou_pattern out))\<lparr>rm_order := ou_order out\<rparr>"

lemma outputLoop_map:
  assumes "placed t (length input)" and "i < length (nt_runes t)"
    and "\<forall>out \<in> set os. 1 \<le> ou_length out \<and> ou_length out \<le> i + 1"
  shows "outputLoop u m t input i os matches = Some (matches @ map (outRank m t input i)
    (filter (\<lambda>out. acceptBoundary u (mt_cfg m) (nt_runes t) (i + 1 - ou_length out) (i + 1)) os))"
  using assms(3)
proof (induction os arbitrary: matches)
  case (Cons out os)
  have start: "nat (int i - int (ou_length out) + 1) = i + 1 - ou_length out" "\<not> int i - int (ou_length out) + 1 < 0"
    using Cons.prems by auto
  have "i + 1 - ou_length out \<le> i" using Cons.prems by auto
  then have "goSlice input (nt_starts t ! (i + 1 - ou_length out)) (nt_ends t ! i) =
      Some (take (nt_ends t ! i - nt_starts t ! (i + 1 - ou_length out)) (drop (nt_starts t ! (i + 1 - ou_length out)) input))"
    using placed_slice[OF assms(1) _ assms(2), of "i + 1 - ou_length out"] by (simp add: goSlice_def)
  with Cons show ?case
    unfolding outputLoop.simps Let_def start by (simp add: start(2) outRank_def rankAt_def)
qed simp

lemma outRank_own:
  assumes "compiledOk (mt_patterns m)" and "s \<le> i" and "i < length (nt_runes t)"
  shows "map (outRank m t input i) (filter (\<lambda>out. acceptBoundary u (mt_cfg m) (nt_runes t) (i + 1 - ou_length out) (i + 1))
      (own (mt_patterns m) (drop s (take (i + 1) (nt_runes t))))) =
    map (rankAt m t input i s) (filter (occurs u m t i s) [0..<length (mt_patterns m)])"
proof -
  let ?w = "drop s (take (i + 1) (nt_runes t))"
  have len: "Suc i - cp_length (mt_patterns m ! k) = s" if "k < length (mt_patterns m)" "cp_runes (mt_patterns m ! k) = ?w" for k
    using assms that by (simp add: compiledOk_def)
  have "filter (\<lambda>k. cp_runes (mt_patterns m ! k) = ?w \<and>
        acceptBoundary u (mt_cfg m) (nt_runes t) (i + 1 - cp_length (mt_patterns m ! k)) (i + 1)) [0..<length (mt_patterns m)] =
      filter (occurs u m t i s) [0..<length (mt_patterns m)]"
    by (rule filter_cong) (auto simp: occurs_def len[simplified])
  moreover have "outRank m t input i \<lparr>ou_pattern = k, ou_length = cp_length (mt_patterns m ! k), ou_order = cp_order (mt_patterns m ! k)\<rparr> =
      rankAt m t input i s k" if "k \<in> set (filter (occurs u m t i s) [0..<length (mt_patterns m)])" for k
    using that len[of k] by (simp add: outRank_def occurs_def rankAt_def)
  ultimately show ?thesis
    by (simp add: own_upt filter_map comp_def conj_commute cong: map_cong)
qed

section \<open>The search equals the reference\<close>

lemma ending_outputs:
  assumes "compiledOk (mt_patterns m)" and "placed t (length input)" and "i < length (nt_runes t)"
  shows "outputLoop u m t input i (outs (mt_patterns m) (take (i + 1) (nt_runes t))) matches =
    Some (matches @ naiveEnding u m t input i)"
proof -
  let ?w = "take (i + 1) (nt_runes t)" and ?acc = "\<lambda>out. acceptBoundary u (mt_cfg m) (nt_runes t) (i + 1 - ou_length out) (i + 1)"
  have len: "length ?w = i + 1" using assms(3) by simp
  have "1 \<le> ou_length out \<and> ou_length out \<le> i + 1" if out: "out \<in> set (outs (mt_patterns m) ?w)" for out
  proof -
    obtain s k where "s < i + 1" "k < length (mt_patterns m)" "cp_runes (mt_patterns m ! k) = drop s ?w"
        "ou_length out = cp_length (mt_patterns m ! k)"
      using out unfolding outs_upt len by (auto simp: own_upt simp del: upt_Suc)
    then show ?thesis using assms(1,3) by (auto simp: compiledOk_def)
  qed
  then have "outputLoop u m t input i (outs (mt_patterns m) ?w) matches =
      Some (matches @ map (outRank m t input i) (filter ?acc (outs (mt_patterns m) ?w)))"
    using assms by (intro outputLoop_map) auto
  also have "map (outRank m t input i) (filter ?acc (outs (mt_patterns m) ?w)) =
      concat (map (\<lambda>s. map (outRank m t input i) (filter ?acc (own (mt_patterns m) (drop s ?w)))) [0..<i + 1])"
    unfolding outs_upt len by (simp add: filter_concat map_concat comp_def del: upt_Suc)
  also have "\<dots> = naiveEnding u m t input i"
    unfolding naiveEnding_def using assms(1,3)
    by (intro arg_cong[of _ _ concat] map_cong) (auto simp: outRank_own[simplified] less_Suc_eq_le simp del: upt_Suc)
  finally show ?thesis .
qed

lemma scanLoop_naive:
  assumes "compiledOk (mt_patterns m)" and "trie (mt_nodes m) ws" and "covers (set ws) (mt_patterns m)"
    and "\<forall>d. linkedUpto (mt_patterns m) ws (mt_nodes m) d" and "placed t (length input)"
    and "nt_runes t = xs @ ys" and "state < length (mt_nodes m)" and "ws ! state = lsuf (set ws) xs"
  shows "scanLoop u m t input (length xs) ys state matches =
    Some (matches @ concat (map (naiveEnding u m t input) [length xs..<length (nt_runes t)]))"
  using assms(6-8)
proof (induction ys arbitrary: xs state matches)
  case Nil
  then show ?case by simp
next
  case (Cons r ys)
  note t = trieD[OF assms(2)]
  obtain k where k: "k < length (mt_nodes m)" "advance (mt_nodes m) r state = Some k"
      "ws ! k = lsuf (set ws) (ws ! state @ [r])"
    using advance_correct[OF assms(2) assms(4)[rule_format] Cons.prems(2) order_refl] by blast
  have word: "ws ! k = lsuf (set ws) (xs @ [r])" using k(3) Cons.prems(3) lsuf_snoc[OF t(5)] by simp
  have i: "length xs < length (nt_runes t)" "take (length xs + 1) (nt_runes t) = xs @ [r]"
    using Cons.prems(1) by simp_all
  have "linked (mt_patterns m) ws (mt_nodes m) k" using assms(4) k(1) unfolding linkedUpto_def by blast
  then have "nd_outputs (mt_nodes m ! k) = outs (mt_patterns m) (xs @ [r])"
    using word outs_lsuf[OF assms(3)] by (simp add: linked_def)
  then have "outputLoop u m t input (length xs) (nd_outputs (mt_nodes m ! k)) matches =
      Some (matches @ naiveEnding u m t input (length xs))"
    using ending_outputs[OF assms(1,5) i(1)] i(2) by simp
  moreover have "[length xs..<length (nt_runes t)] = length xs # [length (xs @ [r])..<length (nt_runes t)]"
    using i(1) by (simp add: upt_conv_Cons)
  ultimately show ?case
    using Cons.IH[of "xs @ [r]" k "matches @ naiveEnding u m t input (length xs)"] Cons.prems(1) k word by simp
qed

lemma scan_naive:
  assumes "wellCompiled m" and "placed t (length input)"
  shows "scanLoop u m t input 0 (nt_runes t) 0 [] = Some (naiveMatches u m t input)"
proof -
  obtain ws where ws: "compiledOk (mt_patterns m)" "trie (mt_nodes m) ws" "covers (set ws) (mt_patterns m)"
      "\<forall>d. linkedUpto (mt_patterns m) ws (mt_nodes m) d"
    using assms(1) by (auto simp: wellCompiled_def)
  show ?thesis
    using scanLoop_naive[OF ws assms(2), of "[]" "nt_runes t" 0 u "[]"] trieD(2,3)[OF ws(2)]
    by (simp add: naiveMatches_def)
qed

text \<open>The whole search with the reference in place of the automaton.\<close>

definition naiveChosen :: "unicodeTables \<Rightarrow> matcher \<Rightarrow> string \<Rightarrow> rankedMatch list" where
  "naiveChosen u m input =
     (let sorted = sortRankedMatches (naiveMatches u m (normalizeString u input (mt_cfg m)) input)
      in if cf_Overlap (mt_cfg m) = OverlapLeftmostLongest then selectLeftmostLongest sorted else sorted)"

lemma selectLeftmostLongest_Nil [simp]: "selectLeftmostLongest [] = []" "sortRankedMatches [] = []"
  by (simp_all add: selectLeftmostLongest_def sortRankedMatches_def)

lemma findMatches_naive:
  assumes "wellCompiled m" and "iterates u"
  shows "findMatches u (Some m) input firstOnly =
    Some (map rm_Match (if firstOnly then take 1 (naiveChosen u m input) else naiveChosen u m input))"
proof -
  let ?t = "normalizeString u input (mt_cfg m)"
  have scan: "scanLoop u m ?t input 0 (nt_runes ?t) 0 [] = Some (naiveMatches u m ?t input)"
    by (rule scan_naive[OF assms(1) normalizeString_placed[OF assms(2)]])
  have "nt_runes ?t = [] \<Longrightarrow> naiveMatches u m ?t input = []" by (simp add: naiveMatches_def)
  then show ?thesis
    by (auto simp: findMatches_def scan naiveChosen_def Let_def not_less take_all_iff)
qed

lemma naiveMatches_iff:
  "x \<in> set (naiveMatches u m t input) \<longleftrightarrow>
     (\<exists>i < length (nt_runes t). \<exists>s \<le> i. \<exists>k < length (mt_patterns m). occurs u m t i s k \<and> x = rankAt m t input i s k)"
proof
  assume "x \<in> set (naiveMatches u m t input)"
  then obtain i s k where "i < length (nt_runes t)" "s < Suc i" "k < length (mt_patterns m)" "occurs u m t i s k"
      "x = rankAt m t input i s k"
    by (auto simp: naiveMatches_def naiveEnding_def simp del: upt_Suc)
  moreover from this(2) have "s \<le> i" by simp
  ultimately show "\<exists>i < length (nt_runes t). \<exists>s \<le> i. \<exists>k < length (mt_patterns m). occurs u m t i s k \<and> x = rankAt m t input i s k"
    by blast
next
  assume "\<exists>i < length (nt_runes t). \<exists>s \<le> i. \<exists>k < length (mt_patterns m). occurs u m t i s k \<and> x = rankAt m t input i s k"
  then obtain i s k where found: "i < length (nt_runes t)" "s \<le> i" "k < length (mt_patterns m)" "occurs u m t i s k"
      "x = rankAt m t input i s k"
    by blast
  then have "x \<in> set (map (rankAt m t input i s) (filter (occurs u m t i s) [0..<length (mt_patterns m)]))" by simp
  with found(2) have "x \<in> set (naiveEnding u m t input i)"
    by (auto simp: naiveEnding_def less_Suc_eq_le simp del: upt_Suc intro!: bexI[of _ s])
  with found(1) show "x \<in> set (naiveMatches u m t input)" by (auto simp: naiveMatches_def)
qed

lemma Compile_wellCompiled:
  assumes "visits shuffle" and "Compile u shuffle pats cfg = Some (Inr m)"
  shows "wellCompiled m" and "mt_cfg m = cfg"
    and "map cp_runes (mt_patterns m) = map (\<lambda>p. nt_runes (normalizeString u (pt_Text p) cfg)) pats"
  using Compile_result[OF assms(1), of u pats cfg] assms(2) by auto

section \<open>Selection without overlaps\<close>

lemma selectLoop_subset: "set (selectLoop start stop n xs) \<subseteq> set xs"
  by (induction start stop n xs rule: selectLoop.induct) auto

lemma selectLoop_start: "m \<in> set (selectLoop start stop n xs) \<Longrightarrow> \<forall>x \<in> set xs. start x \<le> stop x \<Longrightarrow> n \<le> start m"
  by (induction start stop n xs rule: selectLoop.induct) (auto split: if_splits intro: le_trans)

lemma selectLoop_apart:
  "\<forall>x \<in> set xs. start x \<le> stop x \<Longrightarrow> sorted_wrt (\<lambda>a b. stop a \<le> start b) (selectLoop start stop n xs)"
  by (induction start stop n xs rule: selectLoop.induct) (auto dest: selectLoop_start)

lemma selectLoop_maximal:
  assumes "sorted (map key xs)" and "m \<in> set xs"
  shows "m \<in> set (selectLoop start stop n xs) \<or> start m < n \<or>
    (\<exists>m' \<in> set (selectLoop start stop n xs). key m' \<le> key m \<and> start m < stop m')"
  using assms
proof (induction xs arbitrary: n)
  case (Cons x xs)
  show ?case
  proof (cases "m = x \<or> start x < n")
    case True
    then show ?thesis using Cons.IH[of n] Cons.prems by auto
  next
    case False
    then have "m \<in> set xs" "key x \<le> key m" using Cons.prems by auto
    then show ?thesis using Cons.IH[of "stop x"] Cons.prems(1) False by auto
  qed
qed simp

lemma sortRankedMatches_sorted:
  "set (sortRankedMatches ms) = set ms" "sorted (map rankKey (sortRankedMatches ms))"
  by (simp_all add: sortRankedMatches_def)

lemma naiveMatches_extent:
  assumes "placed t (length input)" and "x \<in> set (naiveMatches u m t input)"
  shows "tm_Start (rm_Match x) \<le> tm_End (rm_Match x)" "tm_End (rm_Match x) \<le> length input"
    "tm_Text (rm_Match x) = take (tm_End (rm_Match x) - tm_Start (rm_Match x)) (drop (tm_Start (rm_Match x)) input)"
  using assms(2) placed_slice[OF assms(1)] by (auto simp: naiveMatches_iff rankAt_def)

lemma naiveChosen_subset: "set (naiveChosen u m input) \<subseteq> set (naiveMatches u m (normalizeString u input (mt_cfg m)) input)"
proof -
  have "set (selectLeftmostLongest (sortRankedMatches ms)) \<subseteq> set ms" for ms
    using selectLoop_subset[where xs = "sortRankedMatches ms"]
    by (simp add: selectLeftmostLongest_def sortRankedMatches_sorted(1))
  then show ?thesis by (simp add: naiveChosen_def Let_def sortRankedMatches_sorted(1))
qed

lemma naiveChosen_apart:
  assumes "iterates u" and "cf_Overlap (mt_cfg m) = OverlapLeftmostLongest"
  shows "sorted_wrt (\<lambda>a b. tm_End (rm_Match a) \<le> tm_Start (rm_Match b)) (naiveChosen u m input)"
  unfolding naiveChosen_def Let_def selectLeftmostLongest_def if_P[OF assms(2)]
  by (rule selectLoop_apart)
    (use naiveMatches_extent(1)[OF normalizeString_placed[OF assms(1)]] in \<open>auto simp: sortRankedMatches_sorted(1)\<close>)

section \<open>Replacement\<close>

text \<open>Gaps and the texts between them, in turn.\<close>

fun interleave :: "string list \<Rightarrow> string list \<Rightarrow> string" where
  "interleave (g # gs) (x # xs) = g @ x @ interleave gs xs"
| "interleave gs [] = concat gs"
| "interleave [] xs = []"

lemma replaceLoop_interleave:
  assumes "sorted_wrt (\<lambda>a b. tm_End a \<le> tm_Start b) ms" and "offset \<le> length input" and "\<forall>x \<in> set ms. offset \<le> tm_Start x"
    and "\<forall>x \<in> set ms. tm_Start x \<le> tm_End x \<and> tm_End x \<le> length input \<and>
           tm_Text x = take (tm_End x - tm_Start x) (drop (tm_Start x) input)"
  shows "\<exists>gaps. length gaps = length ms + 1 \<and> drop offset input = interleave gaps (map tm_Text ms) \<and>
    (\<forall>built. replaceLoop input f offset ms built = Some (built @ interleave gaps (map f ms)))"
  using assms
proof (induction ms arbitrary: offset)
  case Nil
  then show ?case by (intro exI[of _ "[drop offset input]"]) (simp add: goSlice_def)
next
  case (Cons x ms)
  from Cons obtain gaps where gaps: "length gaps = length ms + 1" "drop (tm_End x) input = interleave gaps (map tm_Text ms)"
      "\<And>built. replaceLoop input f (tm_End x) ms built = Some (built @ interleave gaps (map f ms))"
    by (metis (no_types, lifting) list.set_intros(1,2) sorted_wrt.simps(2))
  let ?g = "take (tm_Start x - offset) (drop offset input)"
  have x: "offset \<le> tm_Start x" "tm_Start x \<le> tm_End x" "tm_End x \<le> length input"
      "tm_Text x = take (tm_End x - tm_Start x) (drop (tm_Start x) input)"
    using Cons.prems by auto
  have "drop offset input = ?g @ drop (tm_Start x) input"
    using x(1) append_take_drop_id[of "tm_Start x - offset" "drop offset input"] by simp
  also have "drop (tm_Start x) input = tm_Text x @ drop (tm_End x) input"
    using x append_take_drop_id[of "tm_End x - tm_Start x" "drop (tm_Start x) input"] by simp
  finally have "drop offset input = interleave (?g # gaps) (map tm_Text (x # ms))" using gaps(2) by simp
  moreover have "replaceLoop input f offset (x # ms) built = Some (built @ interleave (?g # gaps) (map f (x # ms)))" for built
    using x gaps(3) by (simp add: goSlice_def)
  ultimately show ?case using gaps(1) by (intro exI[of _ "?g # gaps"]) simp
qed


lemma FindAll_naive: "wellCompiled m \<Longrightarrow> iterates u \<Longrightarrow> FindAll u (Some m) input = Some (map rm_Match (naiveChosen u m input))"
  by (simp add: FindAll_def findMatches_naive)

lemma naiveChosen_Nil_iff: "naiveChosen u m input = [] \<longleftrightarrow> naiveMatches u m (normalizeString u input (mt_cfg m)) input = []"
proof -
  have "selectLoop start stop 0 xs = [] \<longleftrightarrow> xs = []" for start stop and xs :: "rankedMatch list"
    by (cases xs) auto
  moreover have "sortRankedMatches ms = [] \<longleftrightarrow> ms = []" for ms
    by (metis set_empty sortRankedMatches_sorted(1))
  ultimately show ?thesis by (simp add: naiveChosen_def Let_def selectLeftmostLongest_def)
qed

section \<open>A sample\<close>

text \<open>Tables for ASCII, and a matcher of two patterns of which one ends the other.\<close>

definition asciiTables :: unicodeTables where
  "asciiTables =
     \<lparr>u_ToLower = (\<lambda>r. if 65 \<le> r \<and> r \<le> 90 then r + 32 else r),
      u_IsLetter = (\<lambda>r. 65 \<le> r \<and> r \<le> 90 \<or> 97 \<le> r \<and> r \<le> 122),
      u_IsDigit = (\<lambda>r. 48 \<le> r \<and> r \<le> 57),
      u_IsMark = (\<lambda>r. False),
      u_IsSpace = (\<lambda>r. r = 32 \<or> 9 \<le> r \<and> r \<le> 13),
      u_IsPunct = (\<lambda>r. r \<in> {33, 44, 45, 46, 58, 59, 63}),
      u_Segments = (\<lambda>form input. map (\<lambda>(a, r, w). ([r], a, a + w)) (runesFrom 0 input))\<rparr>"

definition samplePatterns :: "pattern list" where
  "samplePatterns = [\<lparr>pt_ID = ''1'', pt_Text = ''ab''\<rparr>, \<lparr>pt_ID = ''2'', pt_Text = ''b''\<rparr>]"

definition sampleConfig :: config where
  "sampleConfig =
     \<lparr>cf_IgnoreCase = True, cf_Normalize = NormalizeNone, cf_Boundary = BoundaryNone, cf_Overlap = OverlapLeftmostLongest\<rparr>"

definition sampleMatcher :: matcher where
  "sampleMatcher =
     \<lparr>mt_cfg = sampleConfig,
      mt_patterns = [\<lparr>cp_Pattern = \<lparr>pt_ID = ''1'', pt_Text = ''ab''\<rparr>, cp_runes = [97, 98], cp_length = 2, cp_order = 0\<rparr>,
                     \<lparr>cp_Pattern = \<lparr>pt_ID = ''2'', pt_Text = ''b''\<rparr>, cp_runes = [98], cp_length = 1, cp_order = 1\<rparr>],
      mt_nodes = [\<lparr>nd_next = [(98, 3), (97, 1)], nd_fail = 0, nd_outputs = []\<rparr>,
        \<lparr>nd_next = [(98, 2)], nd_fail = 0, nd_outputs = []\<rparr>,
        \<lparr>nd_next = [], nd_fail = 3, nd_outputs = [\<lparr>ou_pattern = 0, ou_length = 2, ou_order = 0\<rparr>,
                                               \<lparr>ou_pattern = 1, ou_length = 1, ou_order = 1\<rparr>]\<rparr>,
        \<lparr>nd_next = [], nd_fail = 0, nd_outputs = [\<lparr>ou_pattern = 1, ou_length = 1, ou_order = 1\<rparr>]\<rparr>]\<rparr>"

lemma sample_laws: "visits (\<lambda>k xs. xs)" "iterates asciiTables"
  using runesFrom_tiles[of 0] by (simp_all add: visits_def iterates_def asciiTables_def)

lemma sample_runes:
  "runesFrom 0 ''xAB'' = [(0, 120, 1), (1, 65, 1), (2, 66, 1)]" "runesFrom 0 ''ab'' = [(0, 97, 1), (1, 98, 1)]"
  "runesFrom 0 ''b'' = [(0, 98, 1)]"
  by (simp_all add: runesFrom.simps decodeRune_def decodeBytes_def)

lemma sample_texts:
  "normalizeString asciiTables ''xAB'' sampleConfig =
     \<lparr>nt_text = ''xab'', nt_runes = [120, 97, 98], nt_starts = [0, 1, 2], nt_ends = [1, 2, 3]\<rparr>"
  "normalizeString asciiTables ''ab'' sampleConfig = \<lparr>nt_text = ''ab'', nt_runes = [97, 98], nt_starts = [0, 1], nt_ends = [1, 2]\<rparr>"
  "normalizeString asciiTables ''b'' sampleConfig = \<lparr>nt_text = ''b'', nt_runes = [98], nt_starts = [0], nt_ends = [1]\<rparr>"
  by (simp_all add: normalizeString_def normalizeByRuneSegments_def sample_runes sampleConfig_def asciiTables_def
      NormalizeNone_def appendNormalizedSegment_def emptyText_def encodeRune_def runeError_def runeLen_def encodeBytes_def
      validRune_def char_of_def bit_0)

lemma sample_compiles: "Compile asciiTables (\<lambda>k xs. xs) samplePatterns sampleConfig = Some (Inr sampleMatcher)"
  by (simp add: Compile_def sampleMatcher_def samplePatterns_def normalizedPatternText_def sample_texts addPattern_def goto_def
      emptyNode_def buildFailures_def failureLoop.simps climb.simps linkChild_def)

lemma sample_matches:
  "naiveMatches asciiTables sampleMatcher (normalizeString asciiTables ''xAB'' sampleConfig) ''xAB'' =
     [\<lparr>rm_Match = \<lparr>tm_Pattern = \<lparr>pt_ID = ''1'', pt_Text = ''ab''\<rparr>, tm_Start = 1, tm_End = 3, tm_Text = ''AB''\<rparr>,
       rm_startRune = 1, rm_endRune = 3, rm_order = 0\<rparr>,
      \<lparr>rm_Match = \<lparr>tm_Pattern = \<lparr>pt_ID = ''2'', pt_Text = ''b''\<rparr>, tm_Start = 2, tm_End = 3, tm_Text = ''B''\<rparr>,
       rm_startRune = 2, rm_endRune = 3, rm_order = 1\<rparr>]"
  unfolding sample_texts
  by (simp add: naiveMatches_def naiveEnding_def occurs_def acceptBoundary_def sampleMatcher_def sampleConfig_def
      BoundaryNone_def BoundaryASCIIWord_def BoundaryUnicodeWord_def rankAt_def)

section \<open>Properties of the matcher\<close>

text \<open>
  C19. \<^verbatim>\<open>Compile\<close> returns for every order in which Go visits the maps: the construction of the
  failure links ends. It fails exactly when there is no pattern or some pattern is empty after
  normalization.
\<close>

theorem matcher_compiles:
  assumes "visits shuffle"
  shows "\<exists>res. Compile u shuffle pats cfg = Some res \<and>
    (isl res \<longleftrightarrow> pats = [] \<or> (\<exists>p \<in> set pats. pt_Text p = [] \<or> nt_runes (normalizeString u (pt_Text p) cfg) = []))"
proof -
  obtain res where res: "Compile u shuffle pats cfg = Some res" using Compile_result[OF assms] by blast
  show ?thesis
  proof (cases res)
    case (Inl e)
    then show ?thesis using Compile_result[OF assms, of u pats cfg] res by auto
  next
    case (Inr m)
    then show ?thesis
      using res compileLoop_errors(1)[of u cfg 0 pats "\<lparr>mt_cfg = cfg, mt_patterns = [], mt_nodes = [emptyNode]\<rparr>"]
      by (auto simp: Compile_def split: if_splits sum.splits)
  qed
qed

theorem matcher_compiles_witness:
  "visits (\<lambda>k xs. xs) \<and> (\<exists>res. Compile asciiTables (\<lambda>k xs. xs) samplePatterns sampleConfig = Some res \<and> \<not> isl res)"
  using matcher_compiles[OF sample_laws(1), of asciiTables samplePatterns sampleConfig] sample_laws(1)
  by (simp add: samplePatterns_def sample_texts)

text \<open>
  C6. The automaton finds what trying every pattern at every position finds: \<^verbatim>\<open>FindAll\<close> and
  \<^verbatim>\<open>Contains\<close> return, with the result of the reference search, whose matches before selection
  are exactly the occurrences of the patterns in the normalized text that respect the word
  boundaries.
\<close>

theorem matcher_equals_naive:
  assumes "visits shuffle" and "iterates u" and "Compile u shuffle pats cfg = Some (Inr m)"
  shows "FindAll u (Some m) input = Some (map rm_Match (naiveChosen u m input)) \<and>
    Contains u (Some m) input = Some (naiveMatches u m (normalizeString u input cfg) input \<noteq> []) \<and>
    (\<forall>x. x \<in> set (naiveMatches u m (normalizeString u input cfg) input) \<longleftrightarrow>
       (\<exists>i < length (nt_runes (normalizeString u input cfg)). \<exists>s \<le> i. \<exists>k < length pats.
          nt_runes (normalizeString u (pt_Text (pats ! k)) cfg) = drop s (take (i + 1) (nt_runes (normalizeString u input cfg))) \<and>
          acceptBoundary u cfg (nt_runes (normalizeString u input cfg)) s (i + 1) \<and>
          x = rankAt m (normalizeString u input cfg) input i s k))"
proof -
  note m = Compile_wellCompiled[OF assms(1,3)]
  have len: "length (mt_patterns m) = length pats" by (rule map_eq_imp_length_eq[OF m(3)])
  have runes: "cp_runes (mt_patterns m ! k) = nt_runes (normalizeString u (pt_Text (pats ! k)) cfg)" if "k < length pats" for k
    using arg_cong[OF m(3), of "\<lambda>xs. xs ! k"] that len by simp
  have "Contains u (Some m) input = Some (naiveMatches u m (normalizeString u input cfg) input \<noteq> [])"
    using naiveChosen_Nil_iff[of u m input] m(2) by (cases "naiveChosen u m input") (simp_all add: Contains_def First_def findMatches_naive[OF m(1) assms(2)])
  moreover have "occurs u m t i s k \<longleftrightarrow> nt_runes (normalizeString u (pt_Text (pats ! k)) cfg) = drop s (take (i + 1) (nt_runes t)) \<and>
      acceptBoundary u cfg (nt_runes t) s (i + 1)" if "k < length pats" for t i s k
    using runes[OF that] m(2) by (simp add: occurs_def)
  ultimately show ?thesis
    using FindAll_naive[OF m(1) assms(2)] by (simp add: naiveMatches_iff len conj_assoc cong: conj_cong)
qed

theorem matcher_equals_naive_witness:
  "visits (\<lambda>k xs. xs) \<and> iterates asciiTables \<and>
   Compile asciiTables (\<lambda>k xs. xs) samplePatterns sampleConfig = Some (Inr sampleMatcher) \<and>
   FindAll asciiTables (Some sampleMatcher) ''xAB'' =
     Some [\<lparr>tm_Pattern = \<lparr>pt_ID = ''1'', pt_Text = ''ab''\<rparr>, tm_Start = 1, tm_End = 3, tm_Text = ''AB''\<rparr>] \<and>
   Contains asciiTables (Some sampleMatcher) ''xAB'' = Some True"
proof -
  have "naiveChosen asciiTables sampleMatcher ''xAB'' = selectLeftmostLongest (sortRankedMatches
      (naiveMatches asciiTables sampleMatcher (normalizeString asciiTables ''xAB'' sampleConfig) ''xAB''))"
    by (simp add: naiveChosen_def sampleMatcher_def sampleConfig_def)
  then show ?thesis
    using matcher_equals_naive[OF sample_laws sample_compiles, of "''xAB''"] sample_laws sample_compiles
    by (simp add: sample_matches sortRankedMatches_def rankKey_def selectLeftmostLongest_def)
qed

text \<open>
  C17. The leftmost-longest mode: the matches \<^verbatim>\<open>FindAll\<close> returns are occurrences, in the order of
  the text and without overlaps, and an occurrence it leaves out begins inside a match that comes
  no later: one further to the left, or as far left and at least as long.
\<close>

theorem leftmost_longest:
  assumes "visits shuffle" and "iterates u" and "Compile u shuffle pats cfg = Some (Inr m)"
    and "cf_Overlap cfg = OverlapLeftmostLongest"
  shows "\<exists>chosen. FindAll u (Some m) input = Some (map rm_Match chosen) \<and>
    set chosen \<subseteq> set (naiveMatches u m (normalizeString u input cfg) input) \<and>
    sorted_wrt (\<lambda>a b. tm_End (rm_Match a) \<le> tm_Start (rm_Match b)) chosen \<and>
    (\<forall>x \<in> set (naiveMatches u m (normalizeString u input cfg) input). x \<in> set chosen \<or>
       (\<exists>y \<in> set chosen. rankKey y \<le> rankKey x \<and> tm_Start (rm_Match x) < tm_End (rm_Match y)))"
proof -
  note m = Compile_wellCompiled[OF assms(1,3)]
  let ?all = "naiveMatches u m (normalizeString u input cfg) input"
  have chosen: "naiveChosen u m input =
      selectLoop (\<lambda>m. tm_Start (rm_Match m)) (\<lambda>m. tm_End (rm_Match m)) 0 (sortRankedMatches ?all)"
    using assms(4) m(2) by (simp add: naiveChosen_def Let_def selectLeftmostLongest_def)
  have "x \<in> set (naiveChosen u m input) \<or>
      (\<exists>y \<in> set (naiveChosen u m input). rankKey y \<le> rankKey x \<and> tm_Start (rm_Match x) < tm_End (rm_Match y))"
    if "x \<in> set ?all" for x
    using selectLoop_maximal[OF sortRankedMatches_sorted(2), where m = x and n = 0 and start = "\<lambda>m. tm_Start (rm_Match m)"
      and stop = "\<lambda>m. tm_End (rm_Match m)"] that
    unfolding chosen by (simp add: sortRankedMatches_sorted(1))
  then show ?thesis
    using FindAll_naive[OF m(1) assms(2)] naiveChosen_subset[of u m input] naiveChosen_apart[OF assms(2), of m input] m(2) assms(4)
    by (intro exI[of _ "naiveChosen u m input"]) simp
qed

theorem leftmost_longest_witness:
  "cf_Overlap sampleConfig = OverlapLeftmostLongest \<and>
   Compile asciiTables (\<lambda>k xs. xs) samplePatterns sampleConfig = Some (Inr sampleMatcher) \<and>
   (\<exists>chosen :: rankedMatch list. FindAll asciiTables (Some sampleMatcher) ''xAB'' = Some (map rm_Match chosen) \<and>
      sorted_wrt (\<lambda>a b. tm_End (rm_Match a) \<le> tm_Start (rm_Match b)) chosen)"
proof (intro conjI)
  show mode: "cf_Overlap sampleConfig = OverlapLeftmostLongest" by (simp add: sampleConfig_def)
  show "\<exists>chosen :: rankedMatch list. FindAll asciiTables (Some sampleMatcher) ''xAB'' = Some (map rm_Match chosen) \<and>
      sorted_wrt (\<lambda>a b. tm_End (rm_Match a) \<le> tm_Start (rm_Match b)) chosen"
    by (rule ex_forward[OF leftmost_longest[OF sample_laws sample_compiles mode, of "''xAB''"]]) simp
qed (rule sample_compiles)

text \<open>
  C18. \<^verbatim>\<open>Replace\<close> returns, and replaces the text of the matches only: the input is gaps with the
  matched texts between them, and the result is the same gaps with the replacements between
  them. The matches are those of the leftmost-longest mode, whatever the mode of the matcher.
\<close>

theorem replace_keeps_rest:
  assumes "visits shuffle" and "iterates u" and "Compile u shuffle pats cfg = Some (Inr m)"
  shows "\<exists>matches gaps. FindAll u (Some (m\<lparr>mt_cfg := cfg\<lparr>cf_Overlap := OverlapLeftmostLongest\<rparr>\<rparr>)) input = Some matches \<and>
    length gaps = length matches + 1 \<and> input = interleave gaps (map tm_Text matches) \<and>
    Replace u (Some m) input (Some f) = Some (interleave gaps (map f matches))"
proof -
  note m = Compile_wellCompiled[OF assms(1,3)]
  let ?m = "m\<lparr>mt_cfg := cfg\<lparr>cf_Overlap := OverlapLeftmostLongest\<rparr>\<rparr>"
  let ?ms = "map rm_Match (naiveChosen u ?m input)"
  have "wellCompiled ?m" using m(1) by (simp add: wellCompiled_def)
  note found = FindAll_naive[OF this assms(2), of input]
  have apart: "sorted_wrt (\<lambda>a b. tm_End a \<le> tm_Start b) ?ms"
    using naiveChosen_apart[OF assms(2), of ?m input] by (simp add: sorted_wrt_map)
  have "\<forall>x \<in> set ?ms. tm_Start x \<le> tm_End x \<and> tm_End x \<le> length input \<and>
      tm_Text x = take (tm_End x - tm_Start x) (drop (tm_Start x) input)"
    using naiveMatches_extent[OF normalizeString_placed[OF assms(2)]] naiveChosen_subset[of u ?m input] by auto
  from replaceLoop_interleave[OF apart _ _ this, of 0 f] obtain gaps where gaps:
      "length gaps = length ?ms + 1" "input = interleave gaps (map tm_Text ?ms)"
      "replaceLoop input f 0 ?ms [] = Some (interleave gaps (map f ?ms))"
    by auto
  have "Replace u (Some m) input (Some f) = Some (interleave gaps (map f ?ms))"
    using found gaps(2,3) m(2) by (cases "?ms = []") (simp_all add: Replace_def findForReplacement_def FindAll_def)
  then show ?thesis using found gaps by blast
qed

theorem replace_keeps_rest_witness:
  "Compile asciiTables (\<lambda>k xs. xs) samplePatterns sampleConfig = Some (Inr sampleMatcher) \<and>
   (\<exists>(matches :: textMatch list) gaps. ''xAB'' = interleave gaps (map tm_Text matches) \<and>
      Replace asciiTables (Some sampleMatcher) ''xAB'' (Some (\<lambda>found. ''*'')) = Some (interleave gaps (map (\<lambda>found. ''*'') matches)))"
proof (rule conjI[OF sample_compiles])
  show "\<exists>(matches :: textMatch list) gaps. ''xAB'' = interleave gaps (map tm_Text matches) \<and>
      Replace asciiTables (Some sampleMatcher) ''xAB'' (Some (\<lambda>found. ''*'')) = Some (interleave gaps (map (\<lambda>found. ''*'') matches))"
    by (rule ex_forward[OF replace_keeps_rest[OF sample_laws sample_compiles, of "''xAB''" "\<lambda>found. ''*''"]],
        erule ex_forward) (elim conjE, intro conjI)
qed

end
