(* ===== verification/Blockwords.thy ===== *)
theory Blockwords
  imports Matcher_Search
begin

text \<open>
  Dictionaries of blocked words (\<^verbatim>\<open>textsearch/blockword.go\<close>) over the matcher: construction,
  detection by severity, and masking. A nil map is \<open>None\<close>; a map is an association list. What is
  detected does not overlap, is severe enough, and covers every severe occurrence.
\<close>

section \<open>The code\<close>

definition ErrDuplicatePatternID :: string where
  "ErrDuplicatePatternID = ''textsearch: duplicate pattern id''"

definition ErrBlockwordTextTooLong :: string where
  "ErrBlockwordTextTooLong = ''textsearch: blockword text too long''"

definition ErrBlankBlockwordText :: string where
  "ErrBlankBlockwordText = ''textsearch: blockword text must not be blank''"

definition MaxBlockwordTextLength :: nat where
  "MaxBlockwordTextLength = 100000"

type_synonym metadata = "(string \<times> string) list option"

record blockwordEntry =
  be_ID :: string
  be_Text :: string
  be_Severity :: int
  be_Metadata :: metadata

record blockwordOptions =
  bo_Mask :: string
  bo_MinSeverity :: int

record blockwordRequest =
  bq_Text :: string
  bq_Options :: blockwordOptions

record blockwordMatch =
  bm_Entry :: blockwordEntry
  bm_Start :: nat
  bm_End :: nat
  bm_Text :: string

record blockwordResponse =
  br_Request :: blockwordRequest
  br_MaskedText :: string
  br_Matches :: "blockwordMatch list"

record blockwordDictionary =
  bd_matcher :: "matcher option"
  bd_entries :: "(string \<times> blockwordEntry) list"

definition BlockwordExists :: "blockwordResponse \<Rightarrow> bool" where
  "BlockwordExists r = (0 < length (br_Matches r))"

definition BlockWords :: "blockwordResponse \<Rightarrow> string list" where
  "BlockWords r = map (\<lambda>match. be_Text (bm_Entry match)) (br_Matches r)"

definition normalizeBlockwordOptions :: "blockwordOptions \<Rightarrow> blockwordOptions" where
  "normalizeBlockwordOptions options = (if bo_Mask options = [] then options\<lparr>bo_Mask := ''*''\<rparr> else options)"

definition copyStringMap :: "metadata \<Rightarrow> metadata" where
  "copyStringMap input = (case input of None \<Rightarrow> None | Some kvs \<Rightarrow> if length kvs = 0 then None else Some kvs)"

text \<open>\<^verbatim>\<open>utf8.RuneCountInString\<close> counts the runes that decoding gives.\<close>

definition NewBlockwordRequest :: "string \<Rightarrow> blockwordOptions \<Rightarrow> textsearchError + blockwordRequest" where
  "NewBlockwordRequest text options =
     (if MaxBlockwordTextLength < length (runesOf text)
      then Inl (Wrapped ''%w: %d chars (max %d)'' [Sentinel ErrBlockwordTextTooLong])
      else if TrimSpace text = [] then Inl (Sentinel ErrBlankBlockwordText)
      else Inr \<lparr>bq_Text = text, bq_Options = normalizeBlockwordOptions options\<rparr>)"

fun dictionaryLoop ::
  "nat \<Rightarrow> blockwordEntry list \<Rightarrow> pattern list \<Rightarrow> (string \<times> blockwordEntry) list \<Rightarrow>
   textsearchError + pattern list \<times> (string \<times> blockwordEntry) list" where
  "dictionaryLoop i [] patterns compiled = Inr (patterns, compiled)"
| "dictionaryLoop i (entry # entries) patterns compiled =
     (if be_Text entry = [] then Inl (Sentinel ErrEmptyPattern)
      else
        let entry' = (if be_ID entry = [] then entry\<lparr>be_ID := decimal i\<rparr> else entry)
        in if map_of compiled (be_ID entry') \<noteq> None
           then Inl (Wrapped ''%w: %s'' [Sentinel ErrDuplicatePatternID])
           else
             let entry'' = entry'\<lparr>be_Metadata := copyStringMap (be_Metadata entry')\<rparr>
             in dictionaryLoop (i + 1) entries
                  (patterns @ [\<lparr>pt_ID = be_ID entry'', pt_Text = be_Text entry''\<rparr>])
                  (compiled @ [(be_ID entry'', entry'')]))"

definition NewBlockwordDictionary ::
  "unicodeTables \<Rightarrow> (nat \<Rightarrow> (rune \<times> nat) list \<Rightarrow> (rune \<times> nat) list) \<Rightarrow> blockwordEntry list \<Rightarrow> config \<Rightarrow>
   (textsearchError + blockwordDictionary) option" where
  "NewBlockwordDictionary u shuffle entries cfg =
     (if length entries = 0 then Some (Inl (Sentinel ErrNoPatterns))
      else
        (case dictionaryLoop 0 entries [] [] of
           Inl err \<Rightarrow> Some (Inl err)
         | Inr (patterns, compiled) \<Rightarrow>
             (case Compile u shuffle patterns (cfg\<lparr>cf_Overlap := OverlapAll\<rparr>) of
                None \<Rightarrow> None
              | Some (Inl err) \<Rightarrow> Some (Inl err)
              | Some (Inr m) \<Rightarrow> Some (Inr \<lparr>bd_matcher = Some m, bd_entries = compiled\<rparr>))))"

definition selectBlockwordLeftmostLongest :: "blockwordMatch list \<Rightarrow> blockwordMatch list" where
  "selectBlockwordLeftmostLongest matches = selectLoop bm_Start bm_End 0 matches"

fun detectLoop ::
  "(string \<times> blockwordEntry) list \<Rightarrow> int \<Rightarrow> textMatch list \<Rightarrow> blockwordMatch list \<Rightarrow> blockwordMatch list" where
  "detectLoop entries minSeverity [] result = result"
| "detectLoop entries minSeverity (match # matches) result =
     (case map_of entries (pt_ID (tm_Pattern match)) of
        None \<Rightarrow> detectLoop entries minSeverity matches result
      | Some entry \<Rightarrow>
          if be_Severity entry < minSeverity then detectLoop entries minSeverity matches result
          else detectLoop entries minSeverity matches
                 (result @ [\<lparr>bm_Entry = entry, bm_Start = tm_Start match, bm_End = tm_End match, bm_Text = tm_Text match\<rparr>]))"

definition Detect ::
  "unicodeTables \<Rightarrow> blockwordDictionary option \<Rightarrow> string \<Rightarrow> blockwordOptions \<Rightarrow> blockwordMatch list option" where
  "Detect u dictionary text options =
     (case dictionary of
        None \<Rightarrow> Some []
      | Some d \<Rightarrow>
          (case bd_matcher d of
             None \<Rightarrow> Some []
           | Some m \<Rightarrow>
               (case FindAll u (Some m) text of
                  None \<Rightarrow> None
                | Some matches \<Rightarrow>
                    Some (selectBlockwordLeftmostLongest
                      (detectLoop (bd_entries d) (bo_MinSeverity (normalizeBlockwordOptions options)) matches [])))))"

fun maskLoop :: "string \<Rightarrow> string \<Rightarrow> nat \<Rightarrow> blockwordMatch list \<Rightarrow> string \<Rightarrow> string option" where
  "maskLoop input filler offset [] out =
     (case goSlice input offset (length input) of None \<Rightarrow> None | Some rest \<Rightarrow> Some (out @ rest))"
| "maskLoop input filler offset (match # matches) out =
     (case goSlice input offset (bm_Start match) of
        None \<Rightarrow> None
      | Some between \<Rightarrow>
          maskLoop input filler (bm_End match) matches
            (out @ between @ concat (replicate (length (runesOf (bm_Text match))) filler)))"

definition maskBlockwordMatches :: "string \<Rightarrow> blockwordMatch list \<Rightarrow> string \<Rightarrow> string option" where
  "maskBlockwordMatches input matches filler =
     (if length matches = 0 then Some input else maskLoop input filler 0 matches [])"

definition Process ::
  "unicodeTables \<Rightarrow> blockwordDictionary option \<Rightarrow> blockwordRequest \<Rightarrow> (textsearchError + blockwordResponse) option" where
  "Process u d request =
     (case NewBlockwordRequest (bq_Text request) (bq_Options request) of
        Inl err \<Rightarrow> Some (Inl err)
      | Inr normalized \<Rightarrow>
          (case Detect u d (bq_Text normalized) (bq_Options normalized) of
             None \<Rightarrow> None
           | Some matches \<Rightarrow>
               (case maskBlockwordMatches (bq_Text normalized) matches (bo_Mask (bq_Options normalized)) of
                  None \<Rightarrow> None
                | Some masked \<Rightarrow>
                    Some (Inr \<lparr>br_Request = normalized, br_MaskedText = masked, br_Matches = matches\<rparr>))))"

definition MaskBlockwords ::
  "unicodeTables \<Rightarrow> blockwordDictionary option \<Rightarrow> string \<Rightarrow> blockwordOptions \<Rightarrow> (textsearchError + string) option" where
  "MaskBlockwords u d text options =
     (case NewBlockwordRequest text options of
        Inl err \<Rightarrow> Some (Inl err)
      | Inr request \<Rightarrow>
          (case Process u d request of
             None \<Rightarrow> None
           | Some (Inl err) \<Rightarrow> Some (Inl err)
           | Some (Inr response) \<Rightarrow> Some (Inr (br_MaskedText response))))"

section \<open>The dictionary\<close>

lemma decimal_not_Nil [simp]: "decimal n \<noteq> []"
  by (subst decimal.simps) simp

definition entryPattern :: "blockwordEntry \<Rightarrow> pattern" where
  "entryPattern e = \<lparr>pt_ID = be_ID e, pt_Text = be_Text e\<rparr>"

text \<open>What the dictionary keeps of an entry: the text and the severity, under an identifier that is not empty.\<close>

definition kept :: "blockwordEntry \<Rightarrow> blockwordEntry \<Rightarrow> bool" where
  "kept entry e \<longleftrightarrow> be_Text e = be_Text entry \<and> be_Severity e = be_Severity entry \<and> be_ID e \<noteq> []"

lemma dictionaryLoop_entries:
  assumes "dictionaryLoop i entries patterns compiled = Inr (patterns', compiled')" and "distinct (map fst compiled)"
  shows "\<exists>es. list_all2 kept entries es \<and> patterns' = patterns @ map entryPattern es \<and>
    compiled' = compiled @ map (\<lambda>e. (be_ID e, e)) es \<and> distinct (map fst compiled')"
  using assms
proof (induction entries arbitrary: i patterns compiled)
  case (Cons entry entries)
  define e where "e = (if be_ID entry = [] then entry\<lparr>be_ID := decimal i\<rparr> else entry)\<lparr>be_Metadata :=
    copyStringMap (be_Metadata (if be_ID entry = [] then entry\<lparr>be_ID := decimal i\<rparr> else entry))\<rparr>"
  have "kept entry e" by (simp add: kept_def e_def)
  have new: "map_of compiled (be_ID e) = None"
    and rest: "dictionaryLoop (i + 1) entries (patterns @ [entryPattern e]) (compiled @ [(be_ID e, e)]) = Inr (patterns', compiled')"
    using Cons.prems(1) by (auto simp: Let_def e_def entryPattern_def split: if_splits)
  from new Cons.prems(2) have "distinct (map fst (compiled @ [(be_ID e, e)]))" by (simp add: map_of_eq_None_iff)
  from Cons.IH[OF rest this] obtain es where "list_all2 kept entries es"
      "patterns' = patterns @ map entryPattern (e # es)" "compiled' = compiled @ map (\<lambda>e. (be_ID e, e)) (e # es)"
      "distinct (map fst compiled')"
    by auto
  with \<open>kept entry e\<close> show ?case by (intro exI[of _ "e # es"]) simp
qed simp

lemma compileLoop_patterns:
  assumes "compileLoop u cfg index pats m = Inr m'" and "\<forall>p \<in> set pats. pt_ID p \<noteq> []"
  shows "map cp_Pattern (mt_patterns m') = map cp_Pattern (mt_patterns m) @ pats"
  using assms
proof (induction pats arbitrary: index m)
  case (Cons pat pats)
  obtain c where c: "normalizedPatternText u pat index cfg = Inr c" using Cons.prems(1) by (auto split: sum.splits)
  then have "cp_Pattern c = pat" using Cons.prems(2) by (auto simp: normalizedPatternText_def Let_def split: if_splits)
  then show ?case using Cons.IH[OF _ ] Cons.prems c by fastforce
qed simp

lemma Compile_patterns:
  assumes "Compile u shuffle pats cfg = Some (Inr m)" and "\<forall>p \<in> set pats. pt_ID p \<noteq> []"
  shows "map cp_Pattern (mt_patterns m) = pats"
proof -
  obtain m0 nodes where "compileLoop u cfg 0 pats \<lparr>mt_cfg = cfg, mt_patterns = [], mt_nodes = [emptyNode]\<rparr> = Inr m0"
      "m = m0\<lparr>mt_nodes := nodes\<rparr>"
    using assms(1) by (auto simp: Compile_def split: if_splits sum.splits option.splits)
  then show ?thesis using compileLoop_patterns[of u cfg 0 pats _ m0] assms(2) by simp
qed

text \<open>A dictionary is a matcher of its entries' texts together with the entries by identifier.\<close>

lemma NewBlockwordDictionary_result:
  assumes "NewBlockwordDictionary u shuffle entries cfg = Some (Inr d)"
  shows "\<exists>es m. list_all2 kept entries es \<and> distinct (map be_ID es) \<and> bd_entries d = map (\<lambda>e. (be_ID e, e)) es \<and>
    bd_matcher d = Some m \<and> Compile u shuffle (map entryPattern es) (cfg\<lparr>cf_Overlap := OverlapAll\<rparr>) = Some (Inr m) \<and>
    map cp_Pattern (mt_patterns m) = map entryPattern es"
proof -
  obtain patterns compiled m where parts: "dictionaryLoop 0 entries [] [] = Inr (patterns, compiled)"
      "Compile u shuffle patterns (cfg\<lparr>cf_Overlap := OverlapAll\<rparr>) = Some (Inr m)" "d = \<lparr>bd_matcher = Some m, bd_entries = compiled\<rparr>"
    using assms by (auto simp: NewBlockwordDictionary_def split: if_splits sum.splits option.splits)
  obtain es where es: "list_all2 kept entries es" "patterns = map entryPattern es" "compiled = map (\<lambda>e. (be_ID e, e)) es"
      "distinct (map fst compiled)"
    using dictionaryLoop_entries[OF parts(1)] by auto
  have "\<forall>p \<in> set patterns. pt_ID p \<noteq> []"
    using es(1,2) by (auto simp: list_all2_conv_all_nth kept_def entryPattern_def in_set_conv_nth)
  from Compile_patterns[OF parts(2) this] parts es show ?thesis
    by (intro exI[of _ es] exI[of _ m]) (simp add: comp_def)
qed

lemma overlap_irrelevant [simp]:
  "normalizeString u input (cfg\<lparr>cf_Overlap := overlap\<rparr>) = normalizeString u input cfg"
  "acceptBoundary u (cfg\<lparr>cf_Overlap := overlap\<rparr>) runes start stop = acceptBoundary u cfg runes start stop"
  by (simp_all add: normalizeString_def normalizeByRuneSegments_def appendNormalizedSegment_def acceptBoundary_def)

section \<open>Detection\<close>

definition blockedBy :: "(string \<times> blockwordEntry) list \<Rightarrow> int \<Rightarrow> textMatch \<Rightarrow> bool" where
  "blockedBy entries minSeverity match =
     (case map_of entries (pt_ID (tm_Pattern match)) of None \<Rightarrow> False | Some entry \<Rightarrow> minSeverity \<le> be_Severity entry)"

definition asBlocked :: "(string \<times> blockwordEntry) list \<Rightarrow> textMatch \<Rightarrow> blockwordMatch" where
  "asBlocked entries match =
     \<lparr>bm_Entry = the (map_of entries (pt_ID (tm_Pattern match))), bm_Start = tm_Start match, bm_End = tm_End match, bm_Text = tm_Text match\<rparr>"

lemma detectLoop_filter:
  "detectLoop entries minSeverity matches result = result @ map (asBlocked entries) (filter (blockedBy entries minSeverity) matches)"
  by (induction matches arbitrary: result) (auto simp: blockedBy_def asBlocked_def not_less split: option.splits)

text \<open>Leftmost first, and of those that begin together the longest first.\<close>

definition blockedKey :: "blockwordMatch \<Rightarrow> nat \<times> int" where
  "blockedKey b = (bm_Start b, - (int (bm_End b) - int (bm_Start b)))"

lemma blocked_sorted: "sorted (map blockedKey (map (asBlocked entries) (filter P (map rm_Match (sortRankedMatches ms)))))"
proof -
  have mono: "rankKey a \<le> rankKey b \<Longrightarrow> blockedKey (asBlocked entries (rm_Match a)) \<le> blockedKey (asBlocked entries (rm_Match b))" for a b
    by (auto simp: rankKey_def blockedKey_def asBlocked_def less_eq_prod_def)
  have "sorted (map (\<lambda>m. blockedKey (asBlocked entries (rm_Match m))) (sortRankedMatches ms))"
    unfolding sorted_map
    by (rule sorted_wrt_mono_rel[OF _ sortRankedMatches_sorted(2)[of ms, unfolded sorted_map]]) (rule mono)
  then show ?thesis by (simp add: filter_map comp_def sorted_filter)
qed

text \<open>A word occurs on the runes from \<open>s\<close> to \<open>i\<close> of the normalized text.\<close>

definition wordAt :: "unicodeTables \<Rightarrow> config \<Rightarrow> string \<Rightarrow> string \<Rightarrow> nat \<Rightarrow> nat \<Rightarrow> bool" where
  "wordAt u cfg word text s i \<longleftrightarrow> s \<le> i \<and> i < length (nt_runes (normalizeString u text cfg)) \<and>
     nt_runes (normalizeString u word cfg) = drop s (take (i + 1) (nt_runes (normalizeString u text cfg))) \<and>
     acceptBoundary u cfg (nt_runes (normalizeString u text cfg)) s (i + 1)"

text \<open>The entry of index \<open>k\<close> as found on the runes from \<open>s\<close> to \<open>i\<close>.\<close>

definition blockedAt :: "unicodeTables \<Rightarrow> config \<Rightarrow> blockwordEntry list \<Rightarrow> string \<Rightarrow> nat \<Rightarrow> nat \<Rightarrow> nat \<Rightarrow> blockwordMatch" where
  "blockedAt u cfg es text s i k =
     (let start = nt_starts (normalizeString u text cfg) ! s; stop = nt_ends (normalizeString u text cfg) ! i
      in \<lparr>bm_Entry = es ! k, bm_Start = start, bm_End = stop, bm_Text = take (stop - start) (drop start text)\<rparr>)"

lemma Detect_result:
  assumes "visits shuffle" and "iterates u" and "list_all2 kept entries es" and "distinct (map be_ID es)"
    and "bd_entries d = map (\<lambda>e. (be_ID e, e)) es" and "bd_matcher d = Some m"
    and "Compile u shuffle (map entryPattern es) (cfg\<lparr>cf_Overlap := OverlapAll\<rparr>) = Some (Inr m)"
    and "map cp_Pattern (mt_patterns m) = map entryPattern es"
  shows "\<exists>all. Detect u (Some d) text options = Some (selectLoop bm_Start bm_End 0 all) \<and> sorted (map blockedKey all) \<and>
    (\<forall>b. b \<in> set all \<longleftrightarrow> (\<exists>s i k. k < length es \<and> wordAt u cfg (be_Text (es ! k)) text s i \<and>
       bo_MinSeverity options \<le> be_Severity (es ! k) \<and> b = blockedAt u cfg es text s i k))"
proof -
  note m = Compile_wellCompiled[OF assms(1,7)]
  let ?t = "normalizeString u text cfg"
  let ?ms = "naiveMatches u m ?t text" and ?min = "bo_MinSeverity options"
  let ?all = "map (asBlocked (bd_entries d)) (filter (blockedBy (bd_entries d) ?min) (map rm_Match (sortRankedMatches ?ms)))"
  have len: "length (mt_patterns m) = length es" by (rule map_eq_imp_length_eq[OF assms(8)])
  have found: "FindAll u (Some m) text = Some (map rm_Match (sortRankedMatches ?ms))"
    using FindAll_naive[OF m(1) assms(2)] m(2) by (simp add: naiveChosen_def OverlapAll_def OverlapLeftmostLongest_def)
  have runes: "cp_runes (mt_patterns m ! k) = nt_runes (normalizeString u (be_Text (es ! k)) cfg)"
    and pat: "cp_Pattern (mt_patterns m ! k) = entryPattern (es ! k)" if "k < length es" for k
    using arg_cong[OF m(3), of "\<lambda>xs. xs ! k"] arg_cong[OF assms(8), of "\<lambda>xs. xs ! k"] that len by (simp_all add: entryPattern_def)
  have entry: "map_of (bd_entries d) (be_ID (es ! k)) = Some (es ! k)" if "k < length es" for k
    using assms(4,5) that by (auto intro!: map_of_is_SomeI simp: comp_def)
  have occ: "occurs u m ?t i s k \<longleftrightarrow> wordAt u cfg (be_Text (es ! k)) text s i"
    if "k < length es" "s \<le> i" "i < length (nt_runes ?t)" for s i k
    using that runes m(2) by (simp add: occurs_def wordAt_def)
  have rank: "asBlocked (bd_entries d) (rm_Match (rankAt m ?t text i s k)) = blockedAt u cfg es text s i k"
    "blockedBy (bd_entries d) ?min (rm_Match (rankAt m ?t text i s k)) \<longleftrightarrow> ?min \<le> be_Severity (es ! k)"
    if "k < length es" for i s k
    using entry[OF that] pat[OF that] by (simp_all add: asBlocked_def blockedBy_def rankAt_def blockedAt_def entryPattern_def Let_def)
  have "b \<in> set ?all \<longleftrightarrow> (\<exists>x \<in> set ?ms. blockedBy (bd_entries d) ?min (rm_Match x) \<and> b = asBlocked (bd_entries d) (rm_Match x))" for b
    by (auto simp: sortRankedMatches_sorted(1))
  moreover have "(\<exists>x \<in> set ?ms. blockedBy (bd_entries d) ?min (rm_Match x) \<and> b = asBlocked (bd_entries d) (rm_Match x)) \<longleftrightarrow>
      (\<exists>s i k. k < length es \<and> wordAt u cfg (be_Text (es ! k)) text s i \<and> ?min \<le> be_Severity (es ! k) \<and>
         b = blockedAt u cfg es text s i k)" (is "?l \<longleftrightarrow> ?r") for b
  proof
    assume ?l
    then obtain x where x: "x \<in> set ?ms" "blockedBy (bd_entries d) ?min (rm_Match x)" "b = asBlocked (bd_entries d) (rm_Match x)"
      by blast
    from x(1) obtain i s k where "i < length (nt_runes ?t)" "s \<le> i" "k < length es" "occurs u m ?t i s k"
        "x = rankAt m ?t text i s k"
      unfolding naiveMatches_iff len by blast
    with x(2,3) show ?r using occ rank by (intro exI[of _ s] exI[of _ i] exI[of _ k]) simp
  next
    assume ?r
    then obtain s i k where k: "k < length es" "wordAt u cfg (be_Text (es ! k)) text s i" "?min \<le> be_Severity (es ! k)"
        "b = blockedAt u cfg es text s i k"
      by blast
    moreover from k(2) have si: "s \<le> i" "i < length (nt_runes ?t)" by (simp_all add: wordAt_def)
    ultimately have "rankAt m ?t text i s k \<in> set ?ms" using occ unfolding naiveMatches_iff len by blast
    then show ?l using k rank[OF k(1)] by (intro bexI[of _ "rankAt m ?t text i s k"]) simp_all
  qed
  ultimately show ?thesis
    using found blocked_sorted[of "bd_entries d" "blockedBy (bd_entries d) ?min" ?ms] assms(6)
    by (intro exI[of _ ?all]) (simp add: Detect_def normalizeBlockwordOptions_def detectLoop_filter selectBlockwordLeftmostLongest_def)
qed

section \<open>Masking\<close>

definition masked :: "string \<Rightarrow> string \<Rightarrow> string" where
  "masked filler text = concat (replicate (length (runesOf text)) filler)"

definition asMatch :: "blockwordMatch \<Rightarrow> textMatch" where
  "asMatch b = \<lparr>tm_Pattern = entryPattern (bm_Entry b), tm_Start = bm_Start b, tm_End = bm_End b, tm_Text = bm_Text b\<rparr>"

lemma maskLoop_replaceLoop:
  "maskLoop input filler offset bs out = replaceLoop input (\<lambda>x. masked filler (tm_Text x)) offset (map asMatch bs) out"
  by (induction bs arbitrary: offset out) (auto simp: asMatch_def masked_def split: option.splits)

lemma maskBlockwordMatches_interleave:
  assumes "sorted_wrt (\<lambda>a b. bm_End a \<le> bm_Start b) bs"
    and "\<forall>b \<in> set bs. bm_Start b \<le> bm_End b \<and> bm_End b \<le> length input \<and>
           bm_Text b = take (bm_End b - bm_Start b) (drop (bm_Start b) input)"
  shows "\<exists>gaps. length gaps = length bs + 1 \<and> input = interleave gaps (map bm_Text bs) \<and>
    maskBlockwordMatches input bs filler = Some (interleave gaps (map (\<lambda>b. masked filler (bm_Text b)) bs))"
proof (cases bs)
  case Nil
  then show ?thesis by (intro exI[of _ "[input]"]) (simp add: maskBlockwordMatches_def)
next
  case (Cons b bs')
  have "sorted_wrt (\<lambda>a b. tm_End a \<le> tm_Start b) (map asMatch bs)"
    using assms(1) by (simp add: sorted_wrt_map asMatch_def)
  from replaceLoop_interleave[OF this, of 0 input "\<lambda>x. masked filler (tm_Text x)"] assms(2) obtain gaps where
      "length gaps = length bs + 1" "input = interleave gaps (map tm_Text (map asMatch bs))"
      "replaceLoop input (\<lambda>x. masked filler (tm_Text x)) 0 (map asMatch bs) [] =
         Some (interleave gaps (map (\<lambda>x. masked filler (tm_Text x)) (map asMatch bs)))"
    by (auto simp: asMatch_def)
  then show ?thesis
    using Cons by (intro exI[of _ gaps]) (simp add: maskBlockwordMatches_def maskLoop_replaceLoop asMatch_def comp_def)
qed

section \<open>Properties of dictionaries\<close>

lemma wordAt_extent:
  assumes "iterates u" and "wordAt u cfg w text s i"
  shows "bm_Start (blockedAt u cfg es text s i k) \<le> bm_End (blockedAt u cfg es text s i k)"
    "bm_End (blockedAt u cfg es text s i k) \<le> length text"
  using placed_slice[OF normalizeString_placed[OF assms(1)], where s = s and i = i] assms(2)
  by (simp_all add: wordAt_def blockedAt_def Let_def)

text \<open>What \<^verbatim>\<open>Detect\<close> returns, for a dictionary that was constructed.\<close>

lemma Detect_found:
  assumes "visits shuffle" and "iterates u" and "NewBlockwordDictionary u shuffle entries cfg = Some (Inr d)"
  shows "\<exists>es found. list_all2 kept entries es \<and> Detect u (Some d) text options = Some found \<and>
    sorted_wrt (\<lambda>a b. bm_End a \<le> bm_Start b) found \<and>
    (\<forall>b \<in> set found. \<exists>s i k. k < length es \<and> wordAt u cfg (be_Text (es ! k)) text s i \<and>
       bo_MinSeverity options \<le> be_Severity (es ! k) \<and> b = blockedAt u cfg es text s i k) \<and>
    (\<forall>s i k. k < length es \<and> wordAt u cfg (be_Text (es ! k)) text s i \<and> bo_MinSeverity options \<le> be_Severity (es ! k) \<longrightarrow>
       blockedAt u cfg es text s i k \<in> set found \<or>
       (\<exists>b \<in> set found. blockedKey b \<le> blockedKey (blockedAt u cfg es text s i k) \<and>
          bm_Start (blockedAt u cfg es text s i k) < bm_End b))"
proof -
  obtain es m where d: "list_all2 kept entries es" "distinct (map be_ID es)" "bd_entries d = map (\<lambda>e. (be_ID e, e)) es"
      "bd_matcher d = Some m" "Compile u shuffle (map entryPattern es) (cfg\<lparr>cf_Overlap := OverlapAll\<rparr>) = Some (Inr m)"
      "map cp_Pattern (mt_patterns m) = map entryPattern es"
    using NewBlockwordDictionary_result[OF assms(3)] by blast
  obtain all where all: "Detect u (Some d) text options = Some (selectLoop bm_Start bm_End 0 all)" "sorted (map blockedKey all)"
      "\<And>b. b \<in> set all \<longleftrightarrow> (\<exists>s i k. k < length es \<and> wordAt u cfg (be_Text (es ! k)) text s i \<and>
         bo_MinSeverity options \<le> be_Severity (es ! k) \<and> b = blockedAt u cfg es text s i k)"
    using Detect_result[OF assms(1,2) d, of "text" options] by blast
  have "bm_Start b \<le> bm_End b" if member: "b \<in> set all" for b
  proof -
    obtain s i k where "wordAt u cfg (be_Text (es ! k)) text s i" "b = blockedAt u cfg es text s i k"
      using member unfolding all(3) by blast
    then show ?thesis using wordAt_extent(1)[OF assms(2)] by simp
  qed
  then have "\<forall>b \<in> set all. bm_Start b \<le> bm_End b" by blast
  from selectLoop_apart[OF this] have "sorted_wrt (\<lambda>a b. bm_End a \<le> bm_Start b) (selectLoop bm_Start bm_End 0 all)" .
  moreover have "\<forall>b \<in> set (selectLoop bm_Start bm_End 0 all). b \<in> set all"
    using selectLoop_subset[where xs = all and start = bm_Start and stop = bm_End and n = 0] by blast
  moreover have "b \<in> set (selectLoop bm_Start bm_End 0 all) \<or>
      (\<exists>b' \<in> set (selectLoop bm_Start bm_End 0 all). blockedKey b' \<le> blockedKey b \<and> bm_Start b < bm_End b')" if "b \<in> set all" for b
    using selectLoop_maximal[OF all(2) that, of bm_Start bm_End 0] by simp
  ultimately show ?thesis
    using d(1) all(1,3) by (intro exI[of _ es] exI[of _ "selectLoop bm_Start bm_End 0 all"] conjI allI impI) blast+
qed

text \<open>
  C15. \<^verbatim>\<open>Mask\<close> of a dictionary refuses a text that is too long or blank and otherwise returns. The
  input is gaps with the found words between them, and the result is the same gaps with the
  masks between them, one mask for each rune. The found words are occurrences of severe enough
  entries, in order and without overlaps, and every such occurrence is found or begins inside a
  found word that comes no later: one further to the left, or as far left and at least as long.
\<close>

theorem blockword_masking:
  assumes "visits shuffle" and "iterates u" and "NewBlockwordDictionary u shuffle entries cfg = Some (Inr d)"
  shows "(\<exists>err. NewBlockwordRequest text options = Inl err \<and> MaskBlockwords u (Some d) text options = Some (Inl err)) \<or>
    (\<exists>es found gaps. list_all2 kept entries es \<and> text = interleave gaps (map bm_Text found) \<and> length gaps = length found + 1 \<and>
      MaskBlockwords u (Some d) text options =
        Some (Inr (interleave gaps (map (\<lambda>b. masked (if bo_Mask options = [] then ''*'' else bo_Mask options) (bm_Text b)) found))) \<and>
      sorted_wrt (\<lambda>a b. bm_End a \<le> bm_Start b) found \<and>
      (\<forall>b \<in> set found. \<exists>s i k. k < length es \<and> wordAt u cfg (be_Text (es ! k)) text s i \<and>
         bo_MinSeverity options \<le> be_Severity (es ! k) \<and> b = blockedAt u cfg es text s i k) \<and>
      (\<forall>s i k. k < length es \<and> wordAt u cfg (be_Text (es ! k)) text s i \<and> bo_MinSeverity options \<le> be_Severity (es ! k) \<longrightarrow>
         blockedAt u cfg es text s i k \<in> set found \<or>
         (\<exists>b \<in> set found. blockedKey b \<le> blockedKey (blockedAt u cfg es text s i k) \<and>
            bm_Start (blockedAt u cfg es text s i k) < bm_End b)))"
proof (cases "NewBlockwordRequest text options")
  case (Inl err)
  then show ?thesis by (auto simp: MaskBlockwords_def)
next
  case (Inr request)
  let ?opts = "normalizeBlockwordOptions options"
  have min: "bo_MinSeverity ?opts = bo_MinSeverity options"
    and fill: "bo_Mask ?opts = (if bo_Mask options = [] then ''*'' else bo_Mask options)"
    by (simp_all add: normalizeBlockwordOptions_def)
  have again: "normalizeBlockwordOptions ?opts = ?opts" by (simp add: normalizeBlockwordOptions_def)
  have req: "request = \<lparr>bq_Text = text, bq_Options = ?opts\<rparr>" "NewBlockwordRequest text ?opts = Inr request"
    using Inr again by (auto simp: NewBlockwordRequest_def split: if_splits)
  from Detect_found[OF assms, of "text" ?opts] min obtain es found where found: "list_all2 kept entries es"
      "Detect u (Some d) text ?opts = Some found" "sorted_wrt (\<lambda>a b. bm_End a \<le> bm_Start b) found"
      "\<forall>b \<in> set found. \<exists>s i k. k < length es \<and> wordAt u cfg (be_Text (es ! k)) text s i \<and>
         bo_MinSeverity options \<le> be_Severity (es ! k) \<and> b = blockedAt u cfg es text s i k"
      "\<forall>s i k. k < length es \<and> wordAt u cfg (be_Text (es ! k)) text s i \<and> bo_MinSeverity options \<le> be_Severity (es ! k) \<longrightarrow>
         blockedAt u cfg es text s i k \<in> set found \<or>
         (\<exists>b \<in> set found. blockedKey b \<le> blockedKey (blockedAt u cfg es text s i k) \<and> bm_Start (blockedAt u cfg es text s i k) < bm_End b)"
    by auto
  have "bm_Start b \<le> bm_End b \<and> bm_End b \<le> length text \<and> bm_Text b = take (bm_End b - bm_Start b) (drop (bm_Start b) text)"
    if member: "b \<in> set found" for b
  proof -
    obtain s i k where "wordAt u cfg (be_Text (es ! k)) text s i" "b = blockedAt u cfg es text s i k"
      using found(4) member by blast
    then show ?thesis using wordAt_extent[OF assms(2)] by (simp add: blockedAt_def Let_def)
  qed
  then obtain gaps where gaps: "length gaps = length found + 1" "text = interleave gaps (map bm_Text found)"
      "maskBlockwordMatches text found (bo_Mask ?opts) = Some (interleave gaps (map (\<lambda>b. masked (bo_Mask ?opts) (bm_Text b)) found))"
    using maskBlockwordMatches_interleave[OF found(3), of "text" "bo_Mask ?opts"] by auto
  have "MaskBlockwords u (Some d) text options = Some (Inr (interleave gaps (map (\<lambda>b. masked (bo_Mask ?opts) (bm_Text b)) found)))"
    using Inr req found(2) gaps(3) by (simp add: MaskBlockwords_def Process_def)
  with found gaps(1,2) fill show ?thesis by (intro disjI2 exI[of _ es] exI[of _ found] exI[of _ gaps] conjI) simp_all
qed

definition sampleEntries :: "blockwordEntry list" where
  "sampleEntries =
     [\<lparr>be_ID = ''1'', be_Text = ''ab'', be_Severity = 2, be_Metadata = None\<rparr>,
      \<lparr>be_ID = ''2'', be_Text = ''b'', be_Severity = 0, be_Metadata = None\<rparr>]"

lemma sample_dictionary:
  "NewBlockwordDictionary asciiTables (\<lambda>k xs. xs) sampleEntries sampleConfig =
     Some (Inr \<lparr>bd_matcher = Some (sampleMatcher\<lparr>mt_cfg := sampleConfig\<lparr>cf_Overlap := OverlapAll\<rparr>\<rparr>),
               bd_entries = map (\<lambda>e. (be_ID e, e)) sampleEntries\<rparr>)"
  by (simp add: NewBlockwordDictionary_def sampleEntries_def copyStringMap_def Compile_def sampleMatcher_def
      normalizedPatternText_def sample_texts addPattern_def goto_def emptyNode_def buildFailures_def failureLoop.simps
      climb.simps linkChild_def)

lemma sample_request:
  "NewBlockwordRequest ''xAB'' \<lparr>bo_Mask = [], bo_MinSeverity = 1\<rparr> =
     Inr \<lparr>bq_Text = ''xAB'', bq_Options = \<lparr>bo_Mask = ''*'', bo_MinSeverity = 1\<rparr>\<rparr>"
proof -
  have "TrimSpace ''xAB'' = ''xAB''" by (rule TrimSpace_plain) simp_all
  then show ?thesis
    by (simp add: NewBlockwordRequest_def runesOf_def sample_runes MaxBlockwordTextLength_def normalizeBlockwordOptions_def)
qed

theorem blockword_masking_witness:
  "\<exists>d out. NewBlockwordDictionary asciiTables (\<lambda>k xs. xs) sampleEntries sampleConfig = Some (Inr d) \<and>
     MaskBlockwords asciiTables (Some d) ''xAB'' \<lparr>bo_Mask = [], bo_MinSeverity = 1\<rparr> = Some (Inr out)"
  using blockword_masking[OF sample_laws sample_dictionary, of "''xAB''" "\<lparr>bo_Mask = [], bo_MinSeverity = 1\<rparr>"]
    sample_dictionary
  unfolding sample_request by auto

end
