(* ===== verification/Tokenizer.thy ===== *)
theory Tokenizer
  imports Blockwords
begin

text \<open>
  The simple tokenizer and the dictionary of words (\<^verbatim>\<open>textsearch/tokenizer.go\<close>). The classes of
  runes are the Unicode tables of the matcher. The tokens cover the text without gaps, and
  leaving out white space drops exactly the white-space tokens.
\<close>

section \<open>The code\<close>

definition ErrTokenizeTextTooLong :: string where
  "ErrTokenizeTextTooLong = ''textsearch: tokenize text too long''"

definition ErrBlankTokenizeText :: string where
  "ErrBlankTokenizeText = ''textsearch: tokenize text must not be blank''"

definition ErrDuplicateDictionaryText :: string where
  "ErrDuplicateDictionaryText = ''textsearch: duplicate dictionary text''"

definition MaxTokenizeTextLength :: nat where
  "MaxTokenizeTextLength = 100000"

definition POSWord :: string where
  "POSWord = ''word''"

definition POSNumber :: string where
  "POSNumber = ''number''"

definition POSWhitespace :: string where
  "POSWhitespace = ''whitespace''"

definition POSPunctuation :: string where
  "POSPunctuation = ''punctuation''"

definition POSSymbol :: string where
  "POSSymbol = ''symbol''"

record tokenSpan =
  ts_Start :: nat
  ts_End :: nat

record token =
  tk_Text :: string
  tk_Span :: tokenSpan
  tk_Normalized :: string
  tk_POS :: string
  tk_Metadata :: metadata

record textNormalization =
  tn_Original :: string
  tn_Normalized :: string
  tn_Mode :: int

definition NormalizeText :: "unicodeTables \<Rightarrow> string \<Rightarrow> int \<Rightarrow> textNormalization" where
  "NormalizeText u input mode =
     (let normalized = normalizeString u input
            \<lparr>cf_IgnoreCase = False, cf_Normalize = mode, cf_Boundary = BoundaryNone, cf_Overlap = OverlapAll\<rparr>
      in \<lparr>tn_Original = input, tn_Normalized = nt_text normalized, tn_Mode = mode\<rparr>)"

record tokenizeOptions =
  to_Normalize :: int
  to_IncludeWhitespace :: bool

record tokenizeRequest =
  tq_Text :: string
  tq_Options :: tokenizeOptions

record tokenizeResponse =
  tr_Request :: tokenizeRequest
  tr_Tokens :: "token list"

definition Texts :: "tokenizeResponse \<Rightarrow> string list" where
  "Texts r = map tk_Text (tr_Tokens r)"

definition NormalizedTexts :: "tokenizeResponse \<Rightarrow> string list" where
  "NormalizedTexts r = map tk_Normalized (tr_Tokens r)"

definition NewTokenizeRequest :: "string \<Rightarrow> tokenizeOptions \<Rightarrow> textsearchError + tokenizeRequest" where
  "NewTokenizeRequest text options =
     (if MaxTokenizeTextLength < length (runesOf text)
      then Inl (Wrapped ''%w: %d chars (max %d)'' [Sentinel ErrTokenizeTextTooLong])
      else if TrimSpace text = [] then Inl (Sentinel ErrBlankTokenizeText)
      else Inr \<lparr>tq_Text = text, tq_Options = options\<rparr>)"

record simpleToken =
  st_start :: nat
  st_end :: nat
  st_pos :: string

definition simpleTokenPOS :: "unicodeTables \<Rightarrow> rune \<Rightarrow> string" where
  "simpleTokenPOS u r =
     (if u_IsLetter u r \<or> u_IsMark u r then POSWord
      else if u_IsDigit u r then POSNumber
      else if u_IsSpace u r then POSWhitespace
      else if u_IsPunct u r then POSPunctuation
      else POSSymbol)"

definition canJoinSimpleToken :: "string \<Rightarrow> bool" where
  "canJoinSimpleToken pos = (pos = POSWord \<or> pos = POSNumber \<or> pos = POSWhitespace \<or> pos = POSPunctuation)"

text \<open>The width of the rune that decoding the rest of the input gives.\<close>

definition runeWidth :: "string \<Rightarrow> rune \<Rightarrow> nat" where
  "runeWidth input r = (if r = runeError then snd (decodeRune input) else runeLen r)"

text \<open>The closure \<^verbatim>\<open>flush\<close>; whatever it does, the token under construction is replaced afterwards.\<close>

definition flushToken ::
  "unicodeTables \<Rightarrow> string \<Rightarrow> tokenizeOptions \<Rightarrow> simpleToken \<Rightarrow> token list \<Rightarrow> token list option" where
  "flushToken u input options current tokens =
     (if st_start current = st_end current then Some tokens
      else if st_pos current = POSWhitespace \<and> \<not> to_IncludeWhitespace options then Some tokens
      else
        (case goSlice input (st_start current) (st_end current) of
           None \<Rightarrow> None
         | Some text \<Rightarrow>
             Some (tokens @ [\<lparr>tk_Text = text,
                              tk_Span = \<lparr>ts_Start = st_start current, ts_End = st_end current\<rparr>,
                              tk_Normalized = tn_Normalized (NormalizeText u text (to_Normalize options)),
                              tk_POS = st_pos current, tk_Metadata = None\<rparr>])))"

fun tokenLoop ::
  "unicodeTables \<Rightarrow> string \<Rightarrow> tokenizeOptions \<Rightarrow> (nat \<times> rune \<times> nat) list \<Rightarrow> simpleToken \<Rightarrow> token list \<Rightarrow>
   token list option" where
  "tokenLoop u input options [] current tokens = flushToken u input options current tokens"
| "tokenLoop u input options ((start, r, width) # rest) current tokens =
     (let stop = start + runeWidth (drop start input) r; pos = simpleTokenPOS u r
      in if st_start current = st_end current
         then tokenLoop u input options rest \<lparr>st_start = start, st_end = stop, st_pos = pos\<rparr> tokens
         else if st_pos current = pos \<and> canJoinSimpleToken (st_pos current)
         then tokenLoop u input options rest (current\<lparr>st_end := stop\<rparr>) tokens
         else
           (case flushToken u input options current tokens of
              None \<Rightarrow> None
            | Some tokens' \<Rightarrow>
                tokenLoop u input options rest \<lparr>st_start = start, st_end = stop, st_pos = pos\<rparr> tokens'))"

definition simpleTokenize :: "unicodeTables \<Rightarrow> string \<Rightarrow> tokenizeOptions \<Rightarrow> token list option" where
  "simpleTokenize u input options =
     tokenLoop u input options (runesFrom 0 input) \<lparr>st_start = 0, st_end = 0, st_pos = []\<rparr> []"

definition Tokenize :: "unicodeTables \<Rightarrow> tokenizeRequest \<Rightarrow> (textsearchError + tokenizeResponse) option" where
  "Tokenize u request =
     (case NewTokenizeRequest (tq_Text request) (tq_Options request) of
        Inl err \<Rightarrow> Some (Inl err)
      | Inr normalized \<Rightarrow>
          (case simpleTokenize u (tq_Text normalized) (tq_Options normalized) of
             None \<Rightarrow> None
           | Some tokens \<Rightarrow> Some (Inr \<lparr>tr_Request = normalized, tr_Tokens = tokens\<rparr>)))"

record dictionaryEntry =
  de_ID :: string
  de_Text :: string
  de_Normalized :: string
  de_POS :: string
  de_Severity :: int
  de_Metadata :: metadata

definition copyDictionaryEntries :: "dictionaryEntry list \<Rightarrow> dictionaryEntry list" where
  "copyDictionaryEntries entries = map (\<lambda>entry. entry\<lparr>de_Metadata := copyStringMap (de_Metadata entry)\<rparr>) entries"

text \<open>A nil context is the background context, which has no error.\<close>

definition staticEntries ::
  "('w, textsearchError option) act option \<Rightarrow> dictionaryEntry list \<Rightarrow> ('w, textsearchError + dictionaryEntry list) act" where
  "staticEntries ctx provided w =
     (case ctx of
        None \<Rightarrow> (Inr (copyDictionaryEntries provided), w)
      | Some ctxErr \<Rightarrow>
          (case ctxErr w of
             (Some err, w') \<Rightarrow> (Inl err, w')
           | (None, w') \<Rightarrow> (Inr (copyDictionaryEntries provided), w')))"

record dictionarySet =
  ds_entries :: "dictionaryEntry list"
  ds_byText :: "(string \<times> dictionaryEntry) list"

fun dictionarySetLoop ::
  "unicodeTables \<Rightarrow> nat \<Rightarrow> dictionaryEntry list \<Rightarrow> dictionaryEntry list \<Rightarrow> (string \<times> dictionaryEntry) list \<Rightarrow>
   textsearchError + dictionarySet" where
  "dictionarySetLoop u index [] copied byText = Inr \<lparr>ds_entries = copied, ds_byText = byText\<rparr>"
| "dictionarySetLoop u index (entry # entries) copied byText =
     (if de_Text entry = [] then Inl (Sentinel ErrEmptyPattern)
      else
        let entry' = (if de_ID entry = [] then entry\<lparr>de_ID := decimal index\<rparr> else entry);
            entry'' = (if de_Normalized entry' = []
                       then entry'\<lparr>de_Normalized := tn_Normalized (NormalizeText u (de_Text entry') NormalizeNFC)\<rparr>
                       else entry')
        in if map_of byText (de_Text entry'') \<noteq> None
           then Inl (Wrapped ''%w: %s'' [Sentinel ErrDuplicateDictionaryText])
           else dictionarySetLoop u (index + 1) entries (copied[index := entry'']) (byText @ [(de_Text entry'', entry'')]))"

definition NewDictionarySet :: "unicodeTables \<Rightarrow> dictionaryEntry list \<Rightarrow> textsearchError + dictionarySet" where
  "NewDictionarySet u entries =
     (if length entries = 0 then Inl (Sentinel ErrNoPatterns)
      else
        let copied = copyDictionaryEntries entries
        in dictionarySetLoop u 0 copied copied [])"

definition setEntries :: "dictionarySet option \<Rightarrow> dictionaryEntry list" where
  "setEntries s = (case s of None \<Rightarrow> [] | Some d \<Rightarrow> copyDictionaryEntries (ds_entries d))"

definition setContains :: "dictionarySet option \<Rightarrow> string \<Rightarrow> bool" where
  "setContains s text = (case s of None \<Rightarrow> False | Some d \<Rightarrow> map_of (ds_byText d) text \<noteq> None)"

definition setEntry :: "dictionarySet option \<Rightarrow> string \<Rightarrow> dictionaryEntry option" where
  "setEntry s text =
     (case s of
        None \<Rightarrow> None
      | Some d \<Rightarrow>
          (case map_of (ds_byText d) text of
             None \<Rightarrow> None
           | Some entry \<Rightarrow> Some (entry\<lparr>de_Metadata := copyStringMap (de_Metadata entry)\<rparr>)))"

section \<open>Tokens cover the text\<close>

text \<open>Tokens follow each other from one offset to another.\<close>

fun chained :: "nat \<Rightarrow> token list \<Rightarrow> nat \<Rightarrow> bool" where
  "chained a [] b = (a = b)"
| "chained a (t # ts) b = (ts_Start (tk_Span t) = a \<and> a < ts_End (tk_Span t) \<and> chained (ts_End (tk_Span t)) ts b)"

definition spanned :: "unicodeTables \<Rightarrow> string \<Rightarrow> int \<Rightarrow> token \<Rightarrow> bool" where
  "spanned u input mode t \<longleftrightarrow>
     tk_Text t = take (ts_End (tk_Span t) - ts_Start (tk_Span t)) (drop (ts_Start (tk_Span t)) input) \<and>
     tk_Normalized t = tn_Normalized (NormalizeText u (tk_Text t) mode)"

definition separate :: "token \<Rightarrow> token \<Rightarrow> bool" where
  "separate a b \<longleftrightarrow> tk_POS a \<noteq> tk_POS b \<or> \<not> canJoinSimpleToken (tk_POS a)"

definition holding :: "unicodeTables \<Rightarrow> token \<Rightarrow> nat \<times> rune \<times> nat \<Rightarrow> bool" where
  "holding u t = (\<lambda>(a, r, w). ts_Start (tk_Span t) \<le> a \<and> a + w \<le> ts_End (tk_Span t) \<and> tk_POS t = simpleTokenPOS u r)"

abbreviation keeps :: "bool \<Rightarrow> token \<Rightarrow> bool" where
  "keeps incl t \<equiv> incl \<or> tk_POS t \<noteq> POSWhitespace"

abbreviation tokenOptions :: "int \<Rightarrow> bool \<Rightarrow> tokenizeOptions" where
  "tokenOptions mode incl \<equiv> \<lparr>to_Normalize = mode, to_IncludeWhitespace = incl\<rparr>"

definition tokenOf :: "unicodeTables \<Rightarrow> string \<Rightarrow> int \<Rightarrow> simpleToken \<Rightarrow> token" where
  "tokenOf u input mode c =
     (let text = take (st_end c - st_start c) (drop (st_start c) input)
      in \<lparr>tk_Text = text, tk_Span = \<lparr>ts_Start = st_start c, ts_End = st_end c\<rparr>,
          tk_Normalized = tn_Normalized (NormalizeText u text mode), tk_POS = st_pos c, tk_Metadata = None\<rparr>)"

lemma flushToken_some:
  assumes "st_start c < st_end c" and "st_end c \<le> length input"
  shows "flushToken u input (tokenOptions mode incl) c tokens = Some (tokens @ filter (keeps incl) [tokenOf u input mode c])"
  using assms by (auto simp: flushToken_def goSlice_def tokenOf_def Let_def)

text \<open>The width the loop computes is the width that decoding gave.\<close>

lemma runesFrom_width: "(a, r, w) \<in> set (runesFrom start s) \<Longrightarrow> start \<le> a \<and> decodeRune (drop (a - start) s) = (r, w) \<and> 1 \<le> w"
proof (induction start s rule: runesFrom.induct)
  case (1 start s)
  then have s: "s \<noteq> []" by (auto simp: runesFrom.simps)
  let ?w = "snd (decodeRune s)"
  from 1(2) s consider "(a, r, w) = (start, decodeRune s)" | "(a, r, w) \<in> set (runesFrom (start + ?w) (drop ?w s))"
    by (auto simp: runesFrom.simps[of start s])
  then show ?case
  proof cases
    case 1
    then show ?thesis using decodeRune_width[OF s] by (metis Pair_inject cancel_comm_monoid_add_class.diff_cancel drop_0 order_refl snd_conv)
  next
    case 2
    with 1(1)[OF s] have "start + ?w \<le> a" "decodeRune (drop (a - (start + ?w)) (drop ?w s)) = (r, w)" "1 \<le> w" by blast+
    then show ?thesis by (simp add: add.commute)
  qed
qed

fun consecutive :: "nat \<Rightarrow> (nat \<times> rune \<times> nat) list \<Rightarrow> nat \<Rightarrow> bool" where
  "consecutive e [] n = (e = n)"
| "consecutive e ((a, r, w) # ps) n = (a = e \<and> consecutive (a + w) ps n)"

lemma consecutive_le: "consecutive e ps n \<Longrightarrow> e \<le> n"
  by (induction e ps n rule: consecutive.induct) auto

lemma runesFrom_consecutive: "consecutive start (runesFrom start s) (start + length s)"
proof (induction start s rule: runesFrom.induct)
  case (1 start s)
  show ?case
  proof (cases "s = []")
    case False
    then show ?thesis
      using 1[OF False] decodeRune_width[OF False] by (cases "decodeRune s") (simp add: runesFrom.simps[of start s])
  qed (simp add: runesFrom.simps)
qed

lemma tokenLoop_chained:
  assumes "consecutive (st_end c) ps (length input)" and "\<forall>(a, r, w) \<in> set ps. runeWidth (drop a input) r = w \<and> 1 \<le> w"
    and "st_start c < st_end c"
  shows "\<exists>t ts. (\<forall>incl tokens. tokenLoop u input (tokenOptions mode incl) ps c tokens = Some (tokens @ filter (keeps incl) (t # ts))) \<and>
    chained (st_start c) (t # ts) (length input) \<and> (\<forall>x \<in> set (t # ts). spanned u input mode x) \<and> successively separate (t # ts) \<and>
    tk_POS t = st_pos c \<and> st_end c \<le> ts_End (tk_Span t) \<and> (\<forall>p \<in> set ps. \<exists>x \<in> set (t # ts). holding u x p)"
  using assms
proof (induction ps arbitrary: c)
  case Nil
  then show ?case
    by (intro exI[of _ "tokenOf u input mode c"] exI[of _ "[]"]) (auto simp: flushToken_some, simp_all add: tokenOf_def spanned_def Let_def)
next
  case (Cons p ps)
  obtain a r w where p: "p = (a, r, w)" by (cases p)
  with Cons.prems have a: "a = st_end c" "consecutive (a + w) ps (length input)" "runeWidth (drop a input) r = w" "1 \<le> w"
      "\<forall>(a, r, w) \<in> set ps. runeWidth (drop a input) r = w \<and> 1 \<le> w" by auto
  have bound: "st_end c \<le> length input" using consecutive_le[OF Cons.prems(1)] .
  show ?case
  proof (cases "st_pos c = simpleTokenPOS u r \<and> canJoinSimpleToken (st_pos c)")
    case True
    let ?c = "c\<lparr>st_end := a + w\<rparr>"
    from Cons.IH[of ?c] a Cons.prems(3) obtain t ts where t:
        "\<And>incl tokens. tokenLoop u input (tokenOptions mode incl) ps ?c tokens = Some (tokens @ filter (keeps incl) (t # ts))"
        "chained (st_start c) (t # ts) (length input)" "\<forall>x \<in> set (t # ts). spanned u input mode x" "successively separate (t # ts)"
        "tk_POS t = st_pos c" "a + w \<le> ts_End (tk_Span t)" "\<forall>p \<in> set ps. \<exists>x \<in> set (t # ts). holding u x p"
      by auto
    have hold: "holding u t p" using t(2,5,6) True Cons.prems(3) a(1) by (simp add: holding_def p)
    have "tokenLoop u input options (p # ps) c tokens = tokenLoop u input options ps ?c tokens" for options tokens
      using True a Cons.prems(3) by (auto simp: p Let_def)
    then have "tokenLoop u input (tokenOptions mode incl) (p # ps) c tokens = Some (tokens @ filter (keeps incl) (t # ts))"
      for incl tokens
      using t(1)[of incl tokens] by (simp only:)
    with hold show ?thesis using t(2-7) a(1) by (intro exI[of _ t] exI[of _ ts] conjI allI) auto
  next
    case False
    let ?c = "\<lparr>st_start = a, st_end = a + w, st_pos = simpleTokenPOS u r\<rparr>" and ?f = "tokenOf u input mode c"
    from Cons.IH[of ?c] a obtain t ts where t:
        "\<And>incl tokens. tokenLoop u input (tokenOptions mode incl) ps ?c tokens = Some (tokens @ filter (keeps incl) (t # ts))"
        "chained a (t # ts) (length input)" "\<forall>x \<in> set (t # ts). spanned u input mode x" "successively separate (t # ts)"
        "tk_POS t = simpleTokenPOS u r" "a + w \<le> ts_End (tk_Span t)" "\<forall>p \<in> set ps. \<exists>x \<in> set (t # ts). holding u x p"
      by auto
    have f: "spanned u input mode ?f" "separate ?f t" "tk_POS ?f = st_pos c" "tk_Span ?f = \<lparr>ts_Start = st_start c, ts_End = st_end c\<rparr>"
      using False t(5) by (auto simp: spanned_def tokenOf_def separate_def Let_def)
    have hold: "holding u t p" using t(2,5,6) by (simp add: holding_def p)
    have "tokenLoop u input (tokenOptions mode incl) (p # ps) c tokens =
        tokenLoop u input (tokenOptions mode incl) ps ?c (tokens @ filter (keeps incl) [?f])" for incl tokens
      using False a Cons.prems(3) flushToken_some[OF Cons.prems(3) bound, of u mode incl tokens] by (auto simp: p Let_def)
    then have "tokenLoop u input (tokenOptions mode incl) (p # ps) c tokens = Some (tokens @ filter (keeps incl) (?f # t # ts))"
      for incl tokens
      unfolding t(1) by simp
    with hold show ?thesis
      using t(2-7) f a(1) Cons.prems(3) by (intro exI[of _ ?f] exI[of _ "t # ts"] conjI allI) auto
  qed
qed

text \<open>Chained tokens of the input put together give the input.\<close>

lemma chained_concat:
  "chained a ts (length input) \<Longrightarrow> \<forall>x \<in> set ts. spanned u input mode x \<Longrightarrow> concat (map tk_Text ts) = drop a input"
proof (induction ts arbitrary: a)
  case (Cons t ts)
  let ?b = "ts_End (tk_Span t)"
  have "take (?b - a) (drop a input) @ drop ?b input = drop a input"
    using Cons.prems(1) append_take_drop_id[of "?b - a" "drop a input"] by simp
  then show ?case using Cons.IH[of ?b] Cons.prems by (auto simp: spanned_def)
qed simp

text \<open>
  C20. The tokenizer returns, and its tokens cover the text: with white space included their texts
  put together are the input, each is the part of the input its span names, every rune is in a
  token of its class, and neighbours of one class are joined where the class allows it. Without
  white space the result is the same without the white-space tokens.
\<close>

theorem tokenize_covers:
  "\<exists>ts. simpleTokenize u input \<lparr>to_Normalize = mode, to_IncludeWhitespace = True\<rparr> = Some ts \<and>
     simpleTokenize u input \<lparr>to_Normalize = mode, to_IncludeWhitespace = False\<rparr> =
       Some (filter (\<lambda>t. tk_POS t \<noteq> POSWhitespace) ts) \<and>
     concat (map tk_Text ts) = input \<and> chained 0 ts (length input) \<and> Ball (set ts) (spanned u input mode) \<and>
     successively separate ts \<and> Ball (set (runesFrom 0 input)) (\<lambda>p. Bex (set ts) (\<lambda>t. holding u t p))"
proof (cases "runesFrom 0 input")
  case Nil
  then have "input = []" by (auto simp: runesFrom.simps[of 0] split: if_splits)
  then show ?thesis by (intro exI[of _ "[]"]) (simp add: simpleTokenize_def runesFrom.simps flushToken_def)
next
  case (Cons p ps)
  obtain a r w where p: "p = (a, r, w)" by (cases p)
  have widths: "\<forall>(a, r, w) \<in> set (p # ps). runeWidth (drop a input) r = w \<and> 1 \<le> w"
    using runesFrom_width[of _ _ _ 0 input] runesFrom_len[of _ _ _ 0 input] unfolding Cons[symmetric]
    by (fastforce simp: runeWidth_def)
  have "consecutive 0 (p # ps) (length input)" using runesFrom_consecutive[of 0 input] Cons by simp
  then have a: "a = 0" "consecutive w ps (length input)" by (auto simp: p)
  let ?c = "\<lparr>st_start = 0, st_end = w, st_pos = simpleTokenPOS u r\<rparr>"
  from tokenLoop_chained[of ?c ps input u mode] widths a p obtain t ts where t:
      "\<And>incl tokens. tokenLoop u input (tokenOptions mode incl) ps ?c tokens = Some (tokens @ filter (keeps incl) (t # ts))"
      "chained 0 (t # ts) (length input)" "\<forall>x \<in> set (t # ts). spanned u input mode x" "successively separate (t # ts)"
      "tk_POS t = simpleTokenPOS u r" "w \<le> ts_End (tk_Span t)" "\<forall>p \<in> set ps. \<exists>x \<in> set (t # ts). holding u x p"
    by auto
  have "holding u t p" using t(2,5,6) a by (simp add: holding_def p)
  moreover have "simpleTokenize u input (tokenOptions mode incl) = Some (filter (keeps incl) (t # ts))" for incl
    using widths a t(1)[of incl "[]"] by (simp add: simpleTokenize_def Cons p Let_def)
  moreover have "concat (map tk_Text (t # ts)) = input" using chained_concat[OF t(2,3)] by simp
  ultimately show ?thesis using t(2-4,7) Cons by (intro exI[of _ "t # ts"] conjI) auto
qed

theorem tokenize_covers_witness:
  "\<exists>ts. simpleTokenize asciiTables ''xAB'' \<lparr>to_Normalize = NormalizeNone, to_IncludeWhitespace = True\<rparr> = Some ts \<and>
     map tk_Text ts = [''xAB''] \<and> concat (map tk_Text ts) = ''xAB''"
proof -
  have "simpleTokenize asciiTables ''xAB'' \<lparr>to_Normalize = NormalizeNone, to_IncludeWhitespace = True\<rparr> =
      Some [tokenOf asciiTables ''xAB'' NormalizeNone \<lparr>st_start = 0, st_end = 3, st_pos = POSWord\<rparr>]"
    by (simp add: simpleTokenize_def sample_runes Let_def runeWidth_def runeError_def runeLen_def encodeBytes_def validRune_def
        simpleTokenPOS_def asciiTables_def canJoinSimpleToken_def flushToken_def goSlice_def tokenOf_def)
  then show ?thesis
    using tokenize_covers[of asciiTables "''xAB''" NormalizeNone] by (auto simp: tokenOf_def Let_def)
qed

section \<open>The dictionary\<close>

definition completed :: "unicodeTables \<Rightarrow> nat \<Rightarrow> dictionaryEntry \<Rightarrow> dictionaryEntry" where
  "completed u k e =
     e\<lparr>de_Metadata := copyStringMap (de_Metadata e), de_ID := (if de_ID e = [] then decimal k else de_ID e),
       de_Normalized := (if de_Normalized e = [] then tn_Normalized (NormalizeText u (de_Text e) NormalizeNFC) else de_Normalized e)\<rparr>"

lemma copyStringMap_idem [simp]: "copyStringMap (copyStringMap m) = copyStringMap m"
  by (auto simp: copyStringMap_def split: option.splits)

fun completeFrom :: "unicodeTables \<Rightarrow> nat \<Rightarrow> dictionaryEntry list \<Rightarrow> dictionaryEntry list" where
  "completeFrom u k [] = []"
| "completeFrom u k (e # es) = completed u k e # completeFrom u (Suc k) es"

lemma completed_Text [simp]: "de_Text (completed u k e) = de_Text e"
  by (simp add: completed_def)

lemma completeFrom_Text [simp]: "map de_Text (completeFrom u k es) = map de_Text es" "length (completeFrom u k es) = length es"
  "de_Text ` set (completeFrom u k es) = de_Text ` set es"
  by (induction es arbitrary: k) simp_all

lemma completeFrom_nth: "i < length es \<Longrightarrow> completeFrom u k es ! i = completed u (k + i) (es ! i)"
  by (induction es arbitrary: k i) (auto simp: nth_Cons split: nat.splits)

abbreviation withCopy :: "dictionaryEntry \<Rightarrow> dictionaryEntry" where
  "withCopy e \<equiv> e\<lparr>de_Metadata := copyStringMap (de_Metadata e)\<rparr>"

lemma dictionarySetLoop_step:
  "dictionarySetLoop u k (map withCopy (e # rest)) copied byText =
     (if de_Text e = [] then Inl (Sentinel ErrEmptyPattern)
      else if map_of byText (de_Text e) \<noteq> None then Inl (Wrapped ''%w: %s'' [Sentinel ErrDuplicateDictionaryText])
      else dictionarySetLoop u (Suc k) (map withCopy rest) (copied[k := completed u k e]) (byText @ [(de_Text e, completed u k e)]))"
  by (cases "de_ID e = []"; cases "de_Normalized e = []") (simp_all add: Let_def completed_def)

lemma dictionarySetLoop_result:
  assumes "length pre = k" and "distinct (map de_Text pre)"
  shows "case dictionarySetLoop u k (map withCopy rest) (pre @ map withCopy rest) (map (\<lambda>e. (de_Text e, e)) pre) of
      Inl err \<Rightarrow> (\<exists>e \<in> set rest. de_Text e = []) \<or> \<not> distinct (map de_Text (pre @ rest))
    | Inr d \<Rightarrow> (\<forall>e \<in> set rest. de_Text e \<noteq> []) \<and> distinct (map de_Text (pre @ rest)) \<and>
        d = \<lparr>ds_entries = pre @ completeFrom u k rest, ds_byText = map (\<lambda>e. (de_Text e, e)) (pre @ completeFrom u k rest)\<rparr>"
  using assms
proof (induction rest arbitrary: pre k)
  case (Cons e rest)
  show ?case
  proof (cases "de_Text e = [] \<or> de_Text e \<in> de_Text ` set pre")
    case True
    then show ?thesis
      using Cons.prems unfolding dictionarySetLoop_step by (auto simp: map_of_eq_None_iff image_image)
  next
    case False
    then have "map_of (map (\<lambda>e. (de_Text e, e)) pre) (de_Text e) = None" by (auto simp: map_of_eq_None_iff image_image)
    moreover have "(pre @ map withCopy (e # rest))[k := completed u k e] = (pre @ [completed u k e]) @ map withCopy rest"
      using Cons.prems(1) by (simp add: list_update_append)
    ultimately have "dictionarySetLoop u k (map withCopy (e # rest)) (pre @ map withCopy (e # rest)) (map (\<lambda>e. (de_Text e, e)) pre) =
        dictionarySetLoop u (Suc k) (map withCopy rest) ((pre @ [completed u k e]) @ map withCopy rest)
          (map (\<lambda>e. (de_Text e, e)) (pre @ [completed u k e]))"
      unfolding dictionarySetLoop_step using False by simp
    then show ?thesis
      using Cons.IH[of "pre @ [completed u k e]" "Suc k"] Cons.prems False by (auto split: sum.splits)
  qed
qed simp

text \<open>
  A dictionary is built exactly from entries with distinct texts that are not empty, and then it
  holds them: it lists the entries in order with their missing identifiers and normal forms filled
  in, contains their texts only, and finds each entry under its text.
\<close>

theorem dictionary_set_holds:
  "case NewDictionarySet u entries of
     Inl err \<Rightarrow> entries = [] \<or> [] \<in> de_Text ` set entries \<or> \<not> distinct (map de_Text entries)
   | Inr d \<Rightarrow> entries \<noteq> [] \<and> [] \<notin> de_Text ` set entries \<and> distinct (map de_Text entries) \<and>
       setEntries (Some d) = map (\<lambda>k. completed u k (entries ! k)) [0..<length entries] \<and>
       setContains (Some d) = (\<lambda>text. text \<in> de_Text ` set entries) \<and>
       map (\<lambda>e. setEntry (Some d) (de_Text e)) entries = map Some (setEntries (Some d))"
proof (cases "NewDictionarySet u entries")
  case (Inl err)
  then show ?thesis
    using dictionarySetLoop_result[where pre = "[]" and k = 0 and u = u and rest = entries] by (auto simp: NewDictionarySet_def copyDictionaryEntries_def Let_def image_iff eq_commute[of "[]"])
next
  case (Inr d)
  let ?es = "completeFrom u 0 entries"
  have d: "entries \<noteq> []" "[] \<notin> de_Text ` set entries" "distinct (map de_Text entries)"
      "d = \<lparr>ds_entries = ?es, ds_byText = map (\<lambda>e. (de_Text e, e)) ?es\<rparr>"
    using Inr dictionarySetLoop_result[where pre = "[]" and k = 0 and u = u and rest = entries]
    by (auto simp: NewDictionarySet_def copyDictionaryEntries_def Let_def image_iff eq_commute[of "[]"] split: if_splits)
  have copy: "withCopy (completed u k e) = completed u k e" for k e by (simp add: completed_def)
  have "setEntries (Some d) = map (\<lambda>k. completed u k (entries ! k)) [0..<length entries]"
    by (rule nth_equalityI) (auto simp: setEntries_def d(4) copyDictionaryEntries_def completeFrom_nth copy)
  moreover have "fst ` set (map (\<lambda>e. (de_Text e, e)) ?es) = de_Text ` set entries" by (simp add: image_image)
  then have "setContains (Some d) = (\<lambda>text. text \<in> de_Text ` set entries)"
    by (auto simp: fun_eq_iff setContains_def d(4) map_of_eq_None_iff simp flip: not_None_eq)
  moreover have "setEntry (Some d) (de_Text (entries ! k)) = Some (completed u k (entries ! k))" if "k < length entries" for k
  proof -
    have "map_of (map (\<lambda>e. (de_Text e, e)) ?es) (de_Text (?es ! k)) = Some (?es ! k)"
      using that d(3) by (intro map_of_is_SomeI) (auto simp: comp_def)
    then show ?thesis using that by (simp add: setEntry_def d(4) completeFrom_nth copy)
  qed
  ultimately show ?thesis using Inr d(1-3) by (auto intro: nth_equalityI)
qed

theorem dictionary_set_holds_witness:
  "\<exists>d. NewDictionarySet asciiTables
      [\<lparr>de_ID = [], de_Text = ''ab'', de_Normalized = ''ab'', de_POS = POSWord, de_Severity = 0, de_Metadata = None\<rparr>] = Inr d \<and>
    setContains (Some d) ''ab'' \<and> \<not> setContains (Some d) ''b''"
  using dictionary_set_holds[where u = asciiTables and entries =
      "[\<lparr>de_ID = [], de_Text = ''ab'', de_Normalized = ''ab'', de_POS = POSWord, de_Severity = 0, de_Metadata = None\<rparr>]"]
  by (auto split: sum.splits)

end
