(* ===== verification/Spec2Isabelle.thy ===== *)
theory Spec2Isabelle
  imports Codec_Text Slices Snowflake State_Machine Circuit_Breaker Policies Rules_Engine Batch_Atomic Workflow_Runs Wildcard Tokenizer
begin

text \<open>
  Verification of bluetape-go, a collection of backend packages in Go. The packages are mostly
  independent libraries; what they share is their style: constructors with options, sentinel and
  typed errors, a \<^verbatim>\<open>context.Context\<close> that every longer operation consults, and a mutex around
  mutable state. The development follows the packages, one group of theories for each.

  \<^bold>\<open>How code is modelled.\<close>
  A struct is a record with a prefix for its fields, an enumeration with an open integer type its
  numbers, a closed one a datatype. A function that only computes is a function. A function that
  calls its environment (a clock, a context, a store, a callback of the caller) passes a state of
  any type along, as the type \<open>('w, 'a) act\<close> of \<open>Go_Prelude\<close>, so every order of calls and every
  behaviour of the environment is covered. A method that a mutex protects is one step; where a
  method has several critical sections, or starts goroutines, an inductive relation lists the
  steps, and the statements quantify over its reachable states. Errors are values of
  \<open>go_error\<close>: sentinels, formatted wrappers and typed errors, with \<open>errors_is\<close> for
  \<^verbatim>\<open>errors.Is\<close>; the texts of \<^verbatim>\<open>Error\<close> methods are not modelled. A panic and a call that does
  not return are \<open>None\<close>. Integers are words or are reduced explicitly where the code can
  overflow; where they cannot, they are numbers. The order in which Go visits a map, the branch a
  \<^verbatim>\<open>select\<close> takes and the schedule of goroutines are arguments or choices of the step relation.

  \<^bold>\<open>Foundations.\<close>
  \<open>Go_Prelude\<close>: bytes, 64-bit arithmetic, saturating time differences, errors, contexts,
  reachability, and the interface \<open>inductive_invariant\<close>, which is interpreted for every step
  relation. \<open>Go_Strings\<close>: \<^verbatim>\<open>strings.TrimSpace\<close>, orders on strings, decimal numbers, and the
  interface \<open>keyed_store\<close>. \<open>Runes\<close>: UTF-8 decoding and encoding, with the round trip.

  \<^bold>\<open>codec\<close> (\<^verbatim>\<open>src/codec\<close>, \<^verbatim>\<open>src/core/uuid.go\<close>).
  \<open>Codec\<close> models the alphabet encoder with its big-number loops over byte arrays and proves that
  Base58 and Base62 never panic, decode what they encode and accept exactly what they produce;
  both interpret \<open>text_codec\<close>. \<open>Codec_Text\<close> adds the text forms and the URL62 form of UUIDs.

  \<^bold>\<open>collections\<close> (\<^verbatim>\<open>src/collections\<close>).
  \<open>Buffers\<close>: ring buffer and bounded stack over slot arrays; both interpret \<open>recent_buffer\<close>, which
  is refined by the list of the most recent values. \<open>Slices\<close>: chunks, windows, groupings, maps,
  pages and permutations, with the overflow of their index arithmetic.

  \<^bold>\<open>id\<close> (\<^verbatim>\<open>src/id/snowflake.go\<close>).
  \<open>Snowflake\<close>: generation under an arbitrary clock, with the errors for a clock that goes back and
  for a millisecond whose sequence numbers are used up, decoding and parsing.

  \<^bold>\<open>state\<close> (\<^verbatim>\<open>src/state\<close>).
  \<open>State_Machine\<close>: construction, and \<^verbatim>\<open>Transition\<close> with its two critical sections and the guard
  between them.

  \<^bold>\<open>resilience\<close> (\<^verbatim>\<open>src/resilience\<close>).
  \<open>Resilience\<close>: errors, events and composition. \<open>Circuit_Breaker\<close>: admission and settlement of
  calls, a bound invariant under interleaving, and the refinement of the closed, open and probing
  automaton. \<open>Policies\<close>: bulkhead, retry and timeout. The steps of concurrent calls of a bulkhead are a
  relation, with the bound on running operations as its invariant, and \<open>bulkheadApply_steps\<close> shows that
  the modelled \<^verbatim>\<open>Apply\<close> takes these steps whatever other calls do meanwhile.

  \<^bold>\<open>rules\<close> (\<^verbatim>\<open>src/rules\<close>).
  \<open>Rules\<close>: facts, rules and rule sets; the fact store interprets \<open>keyed_store\<close>.
  \<open>Rules_Engine\<close>: one run of the engine, whose details and returned error are traced to what the
  rules returned, bounded inference over runs, and composite rules that are themselves rules of an
  engine.

  \<^bold>\<open>batch\<close> (\<^verbatim>\<open>src/batch\<close>).
  \<open>Batch\<close>: policies, checkpoints, plain and atomic steps, and jobs. \<open>Batch_Runs\<close>: whole runs over
  readers, processors and writers. \<open>Batch_Atomic\<close>: an atomic step over a writer that
  commits outputs and position together delivers every item once or counts it as skipped, whichever of
  its calls to reader, processor and writer fail.

  \<^bold>\<open>workreport, workflow\<close> (\<^verbatim>\<open>src/workreport\<close>, \<^verbatim>\<open>src/workflow/workflow.go\<close>).
  \<open>Workflow\<close>: report trees, failure policies and the three runners. \<open>Workflow_Runs\<close>: what
  sequential runs execute and report, and the invariant and the report of parallel runs, whose
  goroutines interleave in four steps each.

  \<^bold>\<open>core\<close> (\<^verbatim>\<open>src/core/wildcard.go\<close>).
  \<open>Wildcard\<close>: patterns and path patterns against the language a pattern denotes.

  \<^bold>\<open>textsearch\<close> (\<^verbatim>\<open>src/textsearch\<close>).
  \<open>Matcher\<close>: normalization with positions, the Aho-Corasick automaton, search and replacement.
  \<open>Matcher_Automaton\<close>: after construction a state stands for the longest suffix of the text read
  that is a prefix of a pattern. \<open>Matcher_Search\<close>: the search equals trying every pattern
  everywhere. \<open>Blockwords\<close> and \<open>Tokenizer\<close> build on it.

  \<^bold>\<open>Bounds and fuel.\<close>
  The read loops of a batch step take fuel, because a reader need not end; on a finite reader the
  length of its input is enough, and the properties of runs state that the run returns with it.
  The loops over failure links (\<open>climb\<close>, \<open>follow\<close>, \<open>failureLoop\<close>) and \<open>chunkLoop\<close> are partial
  functions with \<open>None\<close> for no result; that they return is proved for every compiled matcher and
  for every chunk size whose index arithmetic does not overflow. Inference is bounded by \<^verbatim>\<open>MaxCycles\<close>, retries by
  \<^verbatim>\<open>MaxAttempts\<close>, as in the code.

  \<^bold>\<open>Hypotheses about other code.\<close>
  The error of a context is \<^verbatim>\<open>Canceled\<close> or \<^verbatim>\<open>DeadlineExceeded\<close> (\<open>wf_ctx\<close>). A \<^verbatim>\<open>select\<close> sends only to a
  channel with room and takes the done channel only of a context with an error (\<open>selectReady\<close>). Go visits every entry of a map once
  (\<open>visits\<close>). The positions of \<^verbatim>\<open>norm.Iter\<close> move forward within the input (\<open>iterates\<close>). The
  parser of the UUID package accepts the canonical form it prints (\<open>uuid_laws\<close>). Each property that uses one has a
  witness with a concrete function.

  \<^bold>\<open>Not modelled.\<close>
  Clients of external services (Redis, SQL, AWS, etcd, graph databases, HTTP), since what they do
  is decided by the service: the backends of cache, lock, leader, ratelimit, jwt, audit, graph and
  messaging, and the adapters for web frameworks. Formats of the standard library or of third
  parties: JSON, CSV, compression, encryption, image codecs, tokenizer dictionaries. Computations
  in floating point: measure, geo, ratelimit, exponential backoff and jitter. Money rests on a
  third-party decimal type. Within the modelled packages: callbacks that panic, nil receivers
  where the code does not test for them, texts of errors, the aliasing of slices that the code
  hands to callbacks, and the panic of \<^verbatim>\<open>make\<close> when a chunk size or a capacity asks for more memory than
  there is (\<open>runStep\<close>, \<open>NewRingBuffer\<close>). The wait group of a parallel run and a goroutine that blocks in
  \<^verbatim>\<open>stopOnce.Do\<close> while another runs it are not steps of \<open>parStep\<close>: storing the cause and cancelling are
  one step, and the result is computed when all goroutines are done. The rule set is fixed during a
  run and an inference, where the code reads its entries anew in every cycle, so a rule that changes
  the set it is in is outside the model.
\<close>

end
